(* ===== verification/EScp_Prelude.thy ===== *)
theory EScp_Prelude
  imports Main "HOL-Library.Word"
begin

text \<open>
  Shared vocabulary of the development: the machine integers of the Rust sources, the three
  ways a Rust function can end (a value, a panic, \<open>process::exit\<close>), the operations of
  \<open>str\<close> and of the integer parsers that the sources call, and generic lemmas on lists.

  Unsigned integers are words of their width. Signed integers (\<open>i32\<close>, \<open>i64\<close>) are
  \<open>int\<close>; every \<open>as\<close> cast that reaches them is written out with \<open>sint\<close>.
  Strings are lists of bytes, so \<open>length\<close> is the byte length that \<open>str::len\<close> returns.
\<close>

unbundle bit_operations_syntax

type_synonym u8 = "8 word"
type_synonym u16 = "16 word"
type_synonym u32 = "32 word"
type_synonym u64 = "64 word"
type_synonym i32 = int
type_synonym i64 = int
type_synonym fino = u64

named_theorems escp_simps \<open>defining equations unfolded by the component proofs\<close>
named_theorems escp_inv \<open>preservation of the component invariants\<close>

section \<open>How a Rust function ends\<close>

datatype 'a outcome =
    Done 'a
  | Panicked string
  | Exited int

fun bind_outcome :: "'a outcome \<Rightarrow> ('a \<Rightarrow> 'b outcome) \<Rightarrow> 'b outcome" where
  "bind_outcome (Done a) f = f a"
| "bind_outcome (Panicked s) f = Panicked s"
| "bind_outcome (Exited c) f = Exited c"

fun unwrap :: "string \<Rightarrow> 'a option \<Rightarrow> 'a outcome" where
  "unwrap msg None = Panicked msg"
| "unwrap msg (Some a) = Done a"

fun panics :: "'a outcome \<Rightarrow> bool" where
  "panics (Panicked _) = True"
| "panics _ = False"

lemma bind_outcome_Done_iff [simp]:
  "bind_outcome m f = Done b \<longleftrightarrow> (\<exists>a. m = Done a \<and> f a = Done b)"
  by (cases m) auto

lemma if_Exited_Done_iff [simp]:
  "(if c then Exited k else m) = Done b \<longleftrightarrow> \<not> c \<and> m = Done b"
  "(if c then Panicked s else m) = Done b \<longleftrightarrow> \<not> c \<and> m = Done b"
  by auto

lemma bind_outcome_assoc:
  "bind_outcome (bind_outcome m f) g = bind_outcome m (\<lambda>a. bind_outcome (f a) g)"
  by (cases m) auto

lemma unwrap_Done_iff [simp]: "unwrap msg x = Done a \<longleftrightarrow> x = Some a"
  by (cases x) auto

section \<open>Casts\<close>

definition u64_as_i64 :: "u64 \<Rightarrow> i64" where
  "u64_as_i64 x = sint x"

definition u64_as_i32 :: "u64 \<Rightarrow> i32" where
  "u64_as_i32 x = sint (ucast x :: u32)"

definition i64_as_u32 :: "i64 \<Rightarrow> u32" where
  "i64_as_u32 x = word_of_int x"

lemma u64_as_i64_of_nat: "m < 2 ^ 63 \<Longrightarrow> u64_as_i64 (of_nat m) = int m"
  using sint_sbintrunc' [of "int m", where 'a = 64] by (simp add: u64_as_i64_def signed_take_bit_int_eq_self)

lemma i64_as_u32_uint [simp]: "i64_as_u32 (uint (c :: u32)) = c"
  by (simp add: i64_as_u32_def)

section \<open>String operations of the Rust standard library\<close>

fun starts_with :: "string \<Rightarrow> string \<Rightarrow> bool" where
  "starts_with s [] = True"
| "starts_with [] (p # ps) = False"
| "starts_with (c # cs) (p # ps) = (c = p \<and> starts_with cs ps)"

definition strip_prefix :: "string \<Rightarrow> string \<Rightarrow> string option" where
  "strip_prefix p s = (if starts_with s p then Some (drop (length p) s) else None)"

definition strip_suffix :: "string \<Rightarrow> string \<Rightarrow> string option" where
  "strip_suffix p s = map_option rev (strip_prefix (rev p) (rev s))"

fun split_once :: "char \<Rightarrow> string \<Rightarrow> (string \<times> string) option" where
  "split_once c [] = None"
| "split_once c (x # xs) =
     (if x = c then Some ([], xs)
      else map_option (\<lambda>(a, b). (x # a, b)) (split_once c xs))"

definition rsplit_once :: "char \<Rightarrow> string \<Rightarrow> (string \<times> string) option" where
  "rsplit_once c s = map_option (\<lambda>(a, b). (rev b, rev a)) (split_once c (rev s))"

fun contains_str :: "string \<Rightarrow> string \<Rightarrow> bool" where
  "contains_str [] p = (p = [])"
| "contains_str (c # cs) p = (starts_with (c # cs) p \<or> contains_str cs p)"

fun find_char :: "char \<Rightarrow> string \<Rightarrow> nat option" where
  "find_char c [] = None"
| "find_char c (x # xs) = (if x = c then Some 0 else map_option Suc (find_char c xs))"

fun split_on :: "char \<Rightarrow> string \<Rightarrow> string list" where
  "split_on c [] = [[]]"
| "split_on c (x # xs) =
     (if x = c then [] # split_on c xs
      else (case split_on c xs of [] \<Rightarrow> [[x]] | w # ws \<Rightarrow> (x # w) # ws))"

definition is_upper :: "char \<Rightarrow> bool" where
  "is_upper c = (65 \<le> (of_char c :: nat) \<and> (of_char c :: nat) \<le> 90)"

definition is_alpha :: "char \<Rightarrow> bool" where
  "is_alpha c = (is_upper c \<or> (97 \<le> (of_char c :: nat) \<and> (of_char c :: nat) \<le> 122))"

definition is_digit :: "char \<Rightarrow> bool" where
  "is_digit c = (48 \<le> (of_char c :: nat) \<and> (of_char c :: nat) \<le> 57)"

definition to_lower :: "char \<Rightarrow> char" where
  "to_lower c = (if is_upper c then char_of ((of_char c :: nat) + 32) else c)"

definition to_lowercase :: "string \<Rightarrow> string" where
  "to_lowercase s = map to_lower s"

section \<open>Paths of the Rust standard library\<close>

text \<open>
  \<open>Path::join\<close>, \<open>Path::parent\<close> and \<open>Path::file_name\<close>: trailing separators and trailing \<open>/.\<close> are not components.
\<close>

definition path_join :: "string \<Rightarrow> string \<Rightarrow> string" where
  "path_join a b =
     (if starts_with b ''/'' then b
      else if a = [] \<or> last a = CHR ''/'' then a @ b else a @ CHR ''/'' # b)"

fun trim_rev :: "string \<Rightarrow> string" where
  "trim_rev [] = []"
| "trim_rev [c] = [c]"
| "trim_rev (c # d # cs) =
     (if c = CHR ''/'' then trim_rev (d # cs)
      else if c = CHR ''.'' \<and> d = CHR ''/'' then trim_rev (d # cs)
      else c # d # cs)"

definition path_trim :: "string \<Rightarrow> string" where
  "path_trim s = rev (trim_rev (rev s))"

definition path_parent :: "string \<Rightarrow> string option" where
  "path_parent s =
     (let t = path_trim s
      in if t = [] \<or> t = ''/'' then None
         else Some (path_trim (rev (dropWhile (\<lambda>c. c \<noteq> CHR ''/'') (rev t)))))"

definition path_file_name :: "string \<Rightarrow> string option" where
  "path_file_name s =
     (let t = path_trim s; c = rev (takeWhile (\<lambda>c. c \<noteq> CHR ''/'') (rev t))
      in if c = [] \<or> c = ''.'' \<or> c = ''..'' then None else Some c)"

text \<open>
  \<open>Path::starts_with\<close> compares whole components: the root, then the names between separators.
  A dot counts only at the start of a relative path.
\<close>

definition path_components :: "string \<Rightarrow> string list" where
  "path_components s =
     (let names = filter (\<lambda>c. c \<noteq> [] \<and> c \<noteq> ''.'') (split_on CHR ''/'' s)
      in if starts_with s ''/'' then ''/'' # names
         else if hd (split_on CHR ''/'' s) = ''.'' then ''.'' # names else names)"

definition path_starts_with :: "string \<Rightarrow> string \<Rightarrow> bool" where
  "path_starts_with p base =
     (take (length (path_components base)) (path_components p) = path_components base)"

section \<open>Integer parsing and printing\<close>

fun digits_value :: "nat \<Rightarrow> string \<Rightarrow> nat option" where
  "digits_value n [] = Some n"
| "digits_value n (c # cs) =
     (if is_digit c then digits_value (10 * n + ((of_char c :: nat) - 48)) cs else None)"

definition parse_digits :: "string \<Rightarrow> nat option" where
  "parse_digits s = (if s = [] then None else digits_value 0 s)"

text \<open>\<open>str::parse\<close> for an unsigned type: an optional plus sign, digits, no overflow.\<close>

definition parse_unsigned :: "nat \<Rightarrow> string \<Rightarrow> nat option" where
  "parse_unsigned bound s =
     (case parse_digits (case s of [] \<Rightarrow> [] | c # cs \<Rightarrow> if c = CHR ''+'' then cs else s) of
        None \<Rightarrow> None
      | Some n \<Rightarrow> if n < bound then Some n else None)"

definition parse_u16 :: "string \<Rightarrow> u16 option" where
  "parse_u16 s = map_option of_nat (parse_unsigned (2 ^ 16) s)"

definition parse_u64 :: "string \<Rightarrow> u64 option" where
  "parse_u64 s = map_option of_nat (parse_unsigned (2 ^ 64) s)"

definition parse_i32 :: "string \<Rightarrow> i32 option" where
  "parse_i32 s =
     (case s of
        c # cs \<Rightarrow>
          if c = CHR ''-'' then
            (case parse_digits cs of
               None \<Rightarrow> None | Some n \<Rightarrow> if n \<le> 2 ^ 31 then Some (- int n) else None)
          else map_option int (parse_unsigned (2 ^ 31) s)
      | [] \<Rightarrow> None)"

definition digit_char :: "nat \<Rightarrow> char" where
  "digit_char d = char_of (48 + d)"

fun show_nat :: "nat \<Rightarrow> string" where
  "show_nat n = (if n < 10 then [digit_char n] else show_nat (n div 10) @ [digit_char (n mod 10)])"

declare show_nat.simps [simp del]

definition show_int :: "int \<Rightarrow> string" where
  "show_int i = (if i < 0 then CHR ''-'' # show_nat (nat (- i)) else show_nat (nat i))"

section \<open>Lemmas on strings\<close>

lemma starts_with_append [simp]: "starts_with (p @ s) p"
  by (induction p) auto

lemma starts_with_iff: "starts_with s p \<longleftrightarrow> (\<exists>t. s = p @ t)"
  by (induction s p rule: starts_with.induct) auto

lemma strip_prefix_Some_iff: "strip_prefix p s = Some t \<longleftrightarrow> s = p @ t"
  by (auto simp: strip_prefix_def starts_with_iff)

lemma strip_suffix_Some_iff: "strip_suffix p s = Some t \<longleftrightarrow> s = t @ p"
  by (auto simp: strip_suffix_def strip_prefix_Some_iff) (metis rev_append rev_rev_ident)

lemma split_once_Some_iff: "split_once c s = Some (a, b) \<longleftrightarrow> s = a @ c # b \<and> c \<notin> set a"
proof (induction s arbitrary: a)
  case Nil
  then show ?case by simp
next
  case (Cons x xs)
  show ?case
  proof (cases a)
    case Nil
    then show ?thesis by (auto split: prod.splits)
  next
    case (Cons y ys)
    then show ?thesis
      using Cons.IH [of ys] by (auto split: prod.splits)
  qed
qed

lemma split_once_None_iff: "split_once c s = None \<longleftrightarrow> c \<notin> set s"
  by (induction s) auto

lemma rsplit_once_Some_iff: "rsplit_once c s = Some (a, b) \<longleftrightarrow> s = a @ c # b \<and> c \<notin> set b"
proof
  assume "rsplit_once c s = Some (a, b)"
  then have "split_once c (rev s) = Some (rev b, rev a)"
    by (auto simp: rsplit_once_def)
  then have "rev s = rev b @ c # rev a" and "c \<notin> set b"
    by (simp_all add: split_once_Some_iff)
  then show "s = a @ c # b \<and> c \<notin> set b"
    by (metis append.assoc append_Cons append_Nil rev.simps(2) rev_append rev_rev_ident)
next
  assume "s = a @ c # b \<and> c \<notin> set b"
  then have "split_once c (rev s) = Some (rev b, rev a)"
    by (simp add: split_once_Some_iff)
  then show "rsplit_once c s = Some (a, b)"
    by (simp add: rsplit_once_def)
qed

lemma rsplit_once_None_iff: "rsplit_once c s = None \<longleftrightarrow> c \<notin> set s"
  by (simp add: rsplit_once_def split_once_None_iff)

lemma find_char_Some: "find_char c s = Some i \<Longrightarrow> i < length s \<and> s ! i = c"
  by (induction s arbitrary: i) (auto split: if_splits)

lemma split_on_not_Nil [simp]: "split_on c s \<noteq> []"
  by (induction s) (auto split: list.splits)

lemma split_on_no_sep: "w \<in> set (split_on c s) \<Longrightarrow> c \<notin> set w"
  by (induction s arbitrary: w) (auto split: list.splits if_splits)

lemma split_on_append: "c \<notin> set a \<Longrightarrow> split_on c (a @ c # b) = a # split_on c b"
  by (induction a) auto

lemma split_on_id: "c \<notin> set s \<Longrightarrow> split_on c s = [s]"
  by (induction s) auto

section \<open>Parsing what was printed\<close>

lemma digits_value_append:
  "digits_value n (xs @ ys) = Option.bind (digits_value n xs) (\<lambda>m. digits_value m ys)"
  by (induction n xs rule: digits_value.induct) auto

lemma of_char_digit_char: "d < 10 \<Longrightarrow> (of_char (digit_char d) :: nat) = 48 + d"
  by (simp add: digit_char_def)

lemma is_digit_digit_char: "d < 10 \<Longrightarrow> is_digit (digit_char d)"
  by (simp add: is_digit_def of_char_digit_char)

lemma show_nat_not_Nil [simp]: "show_nat n \<noteq> []"
  by (subst show_nat.simps) simp

lemma show_nat_is_digit: "c \<in> set (show_nat n) \<Longrightarrow> is_digit c"
proof (induction n rule: show_nat.induct)
  case (1 n)
  then show ?case
    by (subst (asm) show_nat.simps) (auto simp: is_digit_digit_char split: if_splits)
qed

lemma digits_value_show_nat: "digits_value 0 (show_nat n) = Some n"
proof (induction n rule: show_nat.induct)
  case (1 n)
  show ?case
  proof (cases "n < 10")
    case True
    then show ?thesis
      by (subst show_nat.simps) (simp add: is_digit_digit_char of_char_digit_char)
  next
    case False
    then show ?thesis
      using 1 by (subst show_nat.simps)
        (simp add: digits_value_append is_digit_digit_char of_char_digit_char)
  qed
qed

lemma parse_digits_show_nat [simp]: "parse_digits (show_nat n) = Some n"
  by (simp add: parse_digits_def digits_value_show_nat)

lemma show_nat_Cons_is_digit: "show_nat n = c # cs \<Longrightarrow> is_digit c"
  using show_nat_is_digit [of c n] by simp

lemma parse_unsigned_show_nat_if:
  "parse_unsigned bound (show_nat n) = (if n < bound then Some n else None)"
proof -
  have "(case show_nat n of [] \<Rightarrow> [] | c # cs \<Rightarrow> if c = CHR ''+'' then cs else show_nat n) = show_nat n"
    by (auto split: list.splits dest: show_nat_Cons_is_digit simp: is_digit_def)
  then show ?thesis
    by (simp add: parse_unsigned_def)
qed

lemma parse_unsigned_show_nat: "n < bound \<Longrightarrow> parse_unsigned bound (show_nat n) = Some n"
  by (simp add: parse_unsigned_show_nat_if)

lemma parse_i32_show_nat: "parse_i32 (show_nat n) = (if n < 2 ^ 31 then Some (int n) else None)"
proof (cases "show_nat n")
  case (Cons c cs)
  then have "c \<noteq> CHR ''-''"
    by (auto dest: show_nat_Cons_is_digit simp: is_digit_def)
  then have "parse_i32 (show_nat n) = map_option int (parse_unsigned (2 ^ 31) (show_nat n))"
    by (simp add: parse_i32_def Cons)
  then show ?thesis
    by (simp add: parse_unsigned_show_nat_if)
qed simp

lemma parse_u16_show: "parse_u16 (show_nat (unat p)) = Some p"
proof -
  have "unat p < 2 ^ LENGTH(16)"
    by (rule unsigned_less)
  then show ?thesis
    by (simp add: parse_u16_def parse_unsigned_show_nat)
qed

lemma parse_unsigned_bound: "parse_unsigned bound s = Some n \<Longrightarrow> n < bound"
  by (auto simp: parse_unsigned_def split: option.splits if_splits)

section \<open>Lemmas on lists\<close>

lemma sum_list_map_nonneg: "(\<And>x. x \<in> set xs \<Longrightarrow> 0 \<le> f x) \<Longrightarrow> 0 \<le> sum_list (map f xs :: int list)"
  by (induction xs) auto

lemma sum_fun_upd:
  fixes f :: "'b \<Rightarrow> 'a :: comm_monoid_add"
  assumes "i < (n :: nat)"
  shows "(\<Sum>k<n. f ((g(i := x)) k)) + f (g i) = (\<Sum>k<n. f (g k)) + f x"
proof -
  have "(\<Sum>k<n. f (h k)) = f (h i) + (\<Sum>k\<in>{..<n} - {i}. f (h k))" for h
    using assms by (simp add: sum.remove)
  moreover have "(\<Sum>k\<in>{..<n} - {i}. f ((g(i := x)) k)) = (\<Sum>k\<in>{..<n} - {i}. f (g k))"
    by (rule sum.cong) auto
  ultimately show ?thesis
    by (simp add: ac_simps)
qed

section \<open>Step systems\<close>

text \<open>
  The concurrent parts of the program are step relations. A state is reachable when a sequence
  of steps leads to it from a start state; a property that holds at the start and is kept by
  every step holds in every reachable state.
\<close>

inductive reachable :: "('s \<Rightarrow> bool) \<Rightarrow> ('s \<Rightarrow> 's \<Rightarrow> bool) \<Rightarrow> 's \<Rightarrow> bool" for start step where
  reachable_start: "start s \<Longrightarrow> reachable start step s"
| reachable_step: "reachable start step s \<Longrightarrow> step s s' \<Longrightarrow> reachable start step s'"

locale step_system =
  fixes start :: "'s \<Rightarrow> bool"
    and step :: "'s \<Rightarrow> 's \<Rightarrow> bool"
    and inv :: "'s \<Rightarrow> bool"
  assumes inv_start: "start s \<Longrightarrow> inv s"
    and inv_step: "inv s \<Longrightarrow> step s s' \<Longrightarrow> inv s'"
begin

lemma reachable_inv: "reachable start step s \<Longrightarrow> inv s"
  by (induction rule: reachable.induct) (auto intro: inv_start inv_step)

end

end
