(* ===== verification/Wire_Header.thy ===== *)
theory Wire_Header
  imports EScp_Prelude
begin

text \<open>
  The six byte header that precedes every message of the control channel
  (\<open>to_header\<close>, \<open>from_header\<close> and the message type constants of \<open>src/escp.rs\<close>), the framing
  of the session messages over the SSH pipe (\<open>read_stdin_or_mgmt\<close> of \<open>receiver.rs\<close> and the
  reply read by \<open>escp_sender\<close>), and the sixteen byte frame \<open>meta_send\<close> of \<open>libdtn\<close> puts on
  the encrypted channel.
\<close>

section \<open>Message types\<close>

definition msg_session_init :: u16 where "msg_session_init = 8"
definition msg_file_spec :: u16 where "msg_file_spec = 16"
definition msg_file_stat :: u16 where "msg_file_stat = 17"
definition msg_keepalive :: u16 where "msg_keepalive = 18"
definition msg_message :: u16 where "msg_message = 19"
definition msg_compressed :: u16 where "msg_compressed = 128"
definition msg_session_complete :: u16 where "msg_session_complete = 1"
definition msg_session_terminate :: u16 where "msg_session_terminate = 9"

lemmas msg_defs [escp_simps] =
  msg_session_init_def msg_file_spec_def msg_file_stat_def msg_keepalive_def msg_message_def
  msg_compressed_def msg_session_complete_def msg_session_terminate_def

section \<open>Encoding and decoding the header\<close>

definition to_be_bytes :: "u16 \<Rightarrow> u8 list" where
  "to_be_bytes v = [ucast (drop_bit 8 v), ucast v]"

definition to_header :: "u32 \<Rightarrow> u16 \<Rightarrow> u8 list" where
  "to_header sz typ =
     concat (map to_be_bytes [ucast (drop_bit 16 sz), ucast (sz AND 0xffff), typ])"

fun from_header :: "u8 list \<Rightarrow> (u32 \<times> u16) outcome" where
  "from_header (i0 # i1 # i2 # i3 # i4 # i5 # rest) =
     Done (push_bit 24 (ucast i0) OR push_bit 16 (ucast i1) OR push_bit 8 (ucast i2) OR ucast i3,
           push_bit 8 (ucast i4) OR ucast i5)"
| "from_header i = Panicked ''index out of bounds''"

section \<open>Framing over the SSH pipe\<close>

text \<open>\<open>Read::read_exact\<close> on a source that delivers the given bytes and then ends.\<close>

definition read_exact :: "nat \<Rightarrow> u8 list \<Rightarrow> (u8 list \<times> u8 list) option" where
  "read_exact n s = (if n \<le> length s then Some (take n s, drop n s) else None)"

text \<open>
  \<open>read_stdin_or_mgmt\<close>: the bytes come from the accepted management connection when a path
  is given (\<open>None\<close> when binding or accepting fails) and from standard input otherwise. The
  result is the message body, whether a stream is returned, and what is left unread.
\<close>

definition read_stdin_or_mgmt ::
    "string \<Rightarrow> u8 list \<Rightarrow> u8 list option \<Rightarrow> (u8 list \<times> bool \<times> u8 list) outcome" where
  "read_stdin_or_mgmt mgmt stdin accepted =
     bind_outcome
       (if mgmt \<noteq> [] then unwrap ''bind/accept'' accepted else Done stdin)
       (\<lambda>src. bind_outcome (unwrap ''Failed to read init message'' (read_exact 6 src))
       (\<lambda>(buf, src1). bind_outcome (from_header buf)
       (\<lambda>(sz, t).
          if t \<noteq> msg_session_init then Panicked ''Unexpected session init type''
          else bind_outcome (unwrap ''Bad read from SSH'' (read_exact (unat sz) src1))
            (\<lambda>(body, src2). Done (body, mgmt \<noteq> [], src2)))))"

text \<open>
  The reply of the receiver as \<open>escp_sender\<close> reads it: the type is logged and not tested, a
  short read returns from the function (\<open>None\<close>).
\<close>

definition read_session_reply :: "u8 list \<Rightarrow> (u8 list \<times> u8 list) option outcome" where
  "read_session_reply sout =
     (case read_exact 6 sout of
        None \<Rightarrow> Done None
      | Some (buf, s1) \<Rightarrow>
          bind_outcome (from_header buf) (\<lambda>(sz, t).
            (case read_exact (unat sz) s1 of
               None \<Rightarrow> Done None
             | Some (body, s2) \<Rightarrow> Done (Some (body, s2)))))"

text \<open>Writing a session message: header, then body.\<close>

definition write_session_init :: "u8 list \<Rightarrow> u8 list" where
  "write_session_init buf = to_header (of_nat (length buf)) msg_session_init @ buf"

section \<open>The frame of the encrypted channel\<close>

text \<open>
  \<open>meta_send\<close> copies the six header bytes into a zeroed block of sixteen bytes and sends the
  payload after it. The Rust side reads six bytes at the block and the payload at offset 16.
\<close>

definition meta_frame :: "u8 list \<Rightarrow> u8 list \<Rightarrow> u8 list" where
  "meta_frame hdr payload = take 6 hdr @ replicate 10 0 @ payload"

definition meta_open :: "u8 list \<Rightarrow> (u32 \<times> u16 \<times> u8 list) outcome" where
  "meta_open ptr =
     bind_outcome (from_header (take 6 ptr))
       (\<lambda>(sz, t). Done (sz, t, take (unat sz) (drop 16 ptr)))"

section \<open>Lemmas\<close>

lemma u32_low_mask: "(0xffff :: u32) = mask 16"
  by (simp add: mask_eq_exp_minus_1)

lemma to_header_eq:
  "to_header sz typ =
     [ucast (drop_bit 24 sz), ucast (drop_bit 16 sz), ucast (drop_bit 8 sz), ucast sz,
      ucast (drop_bit 8 typ), ucast typ]"
  by (simp add: to_header_def to_be_bytes_def u32_low_mask)
    (auto intro!: bit_word_eqI simp: bit_simps)

lemma length_to_header [simp]: "length (to_header sz typ) = 6"
  by (simp add: to_header_eq)

lemma u32_from_bytes:
  "push_bit 24 (ucast (ucast (drop_bit 24 sz) :: u8)) OR push_bit 16 (ucast (ucast (drop_bit 16 sz) :: u8))
     OR push_bit 8 (ucast (ucast (drop_bit 8 sz) :: u8)) OR ucast (ucast sz :: u8) = (sz :: u32)"
proof (rule bit_word_eqI)
  fix n :: nat
  assume "n < LENGTH(32)"
  then consider "n < 8" | "8 \<le> n" "n < 16" | "16 \<le> n" "n < 24" | "24 \<le> n" "n < 32"
    by fastforce
  then show "bit (push_bit 24 (ucast (ucast (drop_bit 24 sz) :: u8) :: u32)
      OR push_bit 16 (ucast (ucast (drop_bit 16 sz) :: u8))
      OR push_bit 8 (ucast (ucast (drop_bit 8 sz) :: u8)) OR ucast (ucast sz :: u8)) n = bit sz n"
    by cases (auto simp: bit_simps)
qed

lemma u16_from_bytes:
  "push_bit 8 (ucast (ucast (drop_bit 8 t) :: u8)) OR ucast (ucast t :: u8) = (t :: u16)"
  by (rule bit_word_eqI) (auto simp: bit_simps)

lemma from_header_to_header [simp]: "from_header (to_header sz typ @ rest) = Done (sz, typ)"
  by (simp add: to_header_eq u32_from_bytes u16_from_bytes)

lemma bit_u8_high: "8 \<le> n \<Longrightarrow> \<not> bit (x :: u8) n"
  by (auto dest: bit_imp_le_length)

lemma to_header_from_bytes:
  "to_header (push_bit 24 (ucast i0) OR push_bit 16 (ucast i1) OR push_bit 8 (ucast i2) OR ucast i3)
     (push_bit 8 (ucast i4) OR ucast i5) = [i0, i1, i2, i3, i4, i5]"
  by (simp add: to_header_eq) (auto intro!: bit_word_eqI simp: bit_simps bit_u8_high)

lemma read_exact_append [simp]: "n = length xs \<Longrightarrow> read_exact n (xs @ ys) = Some (xs, ys)"
  by (simp add: read_exact_def)

lemma unat_of_nat_length: "n < 2 ^ 32 \<Longrightarrow> unat (of_nat n :: u32) = n"
  by (simp add: unat_of_nat take_bit_eq_mod)

section \<open>The interface of a length-prefixed header\<close>

text \<open>
  What the framing code needs of the header: six bytes, and decoding returns what was
  encoded whatever follows. The two readers below it are proved against these laws only.
\<close>

locale header_codec =
  fixes enc :: "u32 \<Rightarrow> u16 \<Rightarrow> u8 list"
    and dec :: "u8 list \<Rightarrow> (u32 \<times> u16) outcome"
  assumes length_enc: "length (enc sz typ) = 6"
    and dec_enc: "dec (enc sz typ @ rest) = Done (sz, typ)"
begin

lemma dec_enc_exact: "dec (enc sz typ) = Done (sz, typ)"
  using dec_enc [of sz "typ" "[]"] by simp

lemma read_enc: "read_exact 6 (enc sz typ @ s) = Some (enc sz typ, s)"
  by (simp add: length_enc)

lemma read_frame:
  assumes "length body < 2 ^ 32"
  shows "read_exact 6 (enc (of_nat (length body)) typ @ body @ rest)
           = Some (enc (of_nat (length body)) typ, body @ rest)"
    and "dec (enc (of_nat (length body)) typ) = Done (of_nat (length body), typ)"
    and "read_exact (unat (of_nat (length body) :: u32)) (body @ rest) = Some (body, rest)"
  using assms by (simp_all add: read_enc dec_enc_exact unat_of_nat_length)

lemma enc_inject: "enc sz typ = enc sz' typ' \<Longrightarrow> sz = sz' \<and> typ = typ'"
  by (metis dec_enc_exact outcome.inject(1) prod.inject)

end

interpretation hdr: header_codec to_header from_header
  by unfold_locales simp_all

lemma meta_open_frame:
  "length payload < 2 ^ 32 \<Longrightarrow>
   meta_open (meta_frame (to_header (of_nat (length payload)) typ) payload)
     = Done (of_nat (length payload), typ, payload)"
  using hdr.dec_enc_exact by (simp add: meta_open_def meta_frame_def unat_of_nat_length)

section \<open>Properties\<close>

text \<open>
  Claim C32. The header codec is a bijection between (size, type) pairs and six byte strings:
  decoding an encoded header returns its size and type, and every six bytes decode to a pair
  that encodes back to them.
\<close>

theorem header_bijection:
  "from_header (to_header sz typ) = Done (sz, typ) \<and>
   (\<exists>s t. from_header [i0, i1, i2, i3, i4, i5] = Done (s, t) \<and>
          to_header s t = [i0, i1, i2, i3, i4, i5])"
  using hdr.dec_enc_exact by (simp add: to_header_from_bytes)

text \<open>
  A session message written by one side is read whole by the other: the receiver
  returns exactly the body and leaves what follows it unread, whichever of standard input and
  the management socket carries it, and so does the sender reading the reply.
\<close>

theorem session_frame_roundtrip:
  assumes "length body < 2 ^ 32"
  shows "read_stdin_or_mgmt [] (write_session_init body @ rest) acc = Done (body, False, rest) \<and>
    read_stdin_or_mgmt (c # path) stdin (Some (write_session_init body @ rest))
      = Done (body, True, rest) \<and>
    read_session_reply (write_session_init body @ rest) = Done (Some (body, rest))"
  using hdr.read_frame [OF assms]
  by (simp_all add: read_stdin_or_mgmt_def read_session_reply_def write_session_init_def)

text \<open>
  A first message of any other type, or one cut short in its header or in its body,
  never yields a session: the receiver panics.
\<close>

theorem session_frame_errors:
  "(t \<noteq> msg_session_init \<longrightarrow>
      read_stdin_or_mgmt [] (to_header sz t @ body) acc = Panicked ''Unexpected session init type'') \<and>
   (length short < 6 \<longrightarrow>
      read_stdin_or_mgmt [] short acc = Panicked ''Failed to read init message'') \<and>
   (length body < unat sz \<longrightarrow>
      read_stdin_or_mgmt [] (to_header sz msg_session_init @ body) acc = Panicked ''Bad read from SSH'')"
  using hdr.read_enc hdr.dec_enc_exact
  by (auto simp: read_stdin_or_mgmt_def read_exact_def)

text \<open>
  A message framed by \<open>meta_send\<close> is opened by the Rust reader with the size, type
  and payload it was sent with.
\<close>

theorem meta_frame_roundtrip:
  assumes "length payload < 2 ^ 32"
  shows "meta_open (meta_frame (to_header (of_nat (length payload)) typ) payload)
           = Done (of_nat (length payload), typ, payload)"
  using assms by (rule meta_open_frame)

end
