(* ===== verification/Flat_Tables.thy ===== *)
theory Flat_Tables
  imports EScp_Prelude "HOL-Library.Countable"
begin

text \<open>
  The FlatBuffers tables of the protocol, as the generated files \<open>file_spec.rs\<close>,
  \<open>session_init.rs\<close> and \<open>message.rs\<close> build and read them: for each table the argument record
  with its defaults, \<open>create\<close> as the sequence of \<open>push_slot\<close> and \<open>push_slot_always\<close> calls it
  makes, the schema its \<open>run_verifier\<close> declares, and the accessors gathered in one view.

  The \<open>flatbuffers\<close> crate itself is not part of the repository. It enters as a parameter, a
  record of the operations the generated code calls, and \<open>fb_laws\<close> states what its
  documentation promises: a finished buffer has a root whose slots read back what was pushed,
  a slot pushed with its default value or not pushed at all reads as the default the accessor
  supplies, and bytes after the buffer do not matter.
\<close>

section \<open>The interface of the flatbuffers crate\<close>

datatype fbty = TBool | TU8 | TI32 | TU32 | TU64 | TI64 | TI8

datatype fbval =
    FScalar fbty int
  | FStr string
  | FVec fbty "int list"
  | FTabs "fbpush list list"
and fbpush =
    Push_slot nat fbval fbval
  | Push_always nat fbval

record 't fbapi =
  fb_finish :: "fbpush list \<Rightarrow> u8 list"
  fb_root :: "u8 list \<Rightarrow> 't option"
  fb_get :: "'t \<Rightarrow> nat \<Rightarrow> fbval option \<Rightarrow> fbval option"
  fb_tabs :: "'t \<Rightarrow> nat \<Rightarrow> 't list option"

fun push_voffset :: "fbpush \<Rightarrow> nat" where
  "push_voffset (Push_slot v x d) = v"
| "push_voffset (Push_always v x) = v"

fun read_pushes :: "fbpush list \<Rightarrow> nat \<Rightarrow> fbval option \<Rightarrow> fbval option" where
  "read_pushes [] v d = d"
| "read_pushes (Push_slot w x dv # ps) v d =
     (if w = v then (if x = dv then d else Some x) else read_pushes ps v d)"
| "read_pushes (Push_always w x # ps) v d = (if w = v then Some x else read_pushes ps v d)"

fun read_tabs :: "fbpush list \<Rightarrow> nat \<Rightarrow> fbpush list list option" where
  "read_tabs [] v = None"
| "read_tabs (Push_slot w x dv # ps) v = (if w = v then None else read_tabs ps v)"
| "read_tabs (Push_always w x # ps) v =
     (if w = v then (case x of FTabs pss \<Rightarrow> Some pss | _ \<Rightarrow> None) else read_tabs ps v)"

text \<open>A builder may push a slot of a table once, at every level of nesting.\<close>

fun wf_val :: "fbval \<Rightarrow> bool"
  and wf_push :: "fbpush \<Rightarrow> bool" where
  "wf_val (FTabs pss) =
     (\<forall>ps \<in> set pss. distinct (map push_voffset ps) \<and> (\<forall>p \<in> set ps. wf_push p))"
| "wf_val _ = True"
| "wf_push (Push_slot v x d) = wf_val x"
| "wf_push (Push_always v x) = wf_val x"

definition wf_pushes :: "fbpush list \<Rightarrow> bool" where
  "wf_pushes ps \<longleftrightarrow> distinct (map push_voffset ps) \<and> list_all wf_push ps"

text \<open>A table \<open>t\<close> of the buffer reads as the pushes that built it.\<close>

inductive fb_reads :: "'t fbapi \<Rightarrow> 't \<Rightarrow> fbpush list \<Rightarrow> bool" for F where
  fb_readsI:
    "(\<forall>v d. read_tabs ps v = None \<longrightarrow> fb_get F t v d = read_pushes ps v d) \<Longrightarrow>
     (\<forall>v pss. read_tabs ps v = Some pss \<longrightarrow>
        (\<exists>ts. fb_tabs F t v = Some ts \<and> list_all2 (fb_reads F) ts pss)) \<Longrightarrow>
     (\<forall>v. read_tabs ps v = None \<longrightarrow> fb_tabs F t v = None) \<Longrightarrow>
     fb_reads F t ps"

definition fb_laws :: "'t fbapi \<Rightarrow> bool" where
  "fb_laws F \<longleftrightarrow>
     (\<forall>ps junk. wf_pushes ps \<longrightarrow>
        (\<exists>t. fb_root F (fb_finish F ps @ junk) = Some t \<and> fb_reads F t ps))"

section \<open>Accessors\<close>

text \<open>\<open>Table::get\<close> at the types the generated accessors use.\<close>

definition get_int :: "'t fbapi \<Rightarrow> fbty \<Rightarrow> 't \<Rightarrow> nat \<Rightarrow> int" where
  "get_int F ty t v =
     (case fb_get F t v (Some (FScalar ty 0)) of Some (FScalar _ n) \<Rightarrow> n | _ \<Rightarrow> 0)"

definition get_bool :: "'t fbapi \<Rightarrow> 't \<Rightarrow> nat \<Rightarrow> bool" where
  "get_bool F t v = (get_int F TBool t v \<noteq> 0)"

definition get_str :: "'t fbapi \<Rightarrow> 't \<Rightarrow> nat \<Rightarrow> string option" where
  "get_str F t v = (case fb_get F t v None of Some (FStr s) \<Rightarrow> Some s | _ \<Rightarrow> None)"

definition get_vec :: "'t fbapi \<Rightarrow> 't \<Rightarrow> nat \<Rightarrow> int list option" where
  "get_vec F t v = (case fb_get F t v None of Some (FVec _ xs) \<Rightarrow> Some xs | _ \<Rightarrow> None)"

text \<open>The builder calls: scalars with their default, offsets only when present.\<close>

abbreviation push_int :: "fbty \<Rightarrow> nat \<Rightarrow> int \<Rightarrow> fbpush list" where
  "push_int ty v n \<equiv> [Push_slot v (FScalar ty n) (FScalar ty 0)]"

abbreviation push_bool :: "nat \<Rightarrow> bool \<Rightarrow> fbpush list" where
  "push_bool v b \<equiv> push_int TBool v (of_bool b)"

definition push_str :: "nat \<Rightarrow> string option \<Rightarrow> fbpush list" where
  "push_str v x = (case x of None \<Rightarrow> [] | Some s \<Rightarrow> [Push_always v (FStr s)])"

definition push_vec :: "fbty \<Rightarrow> nat \<Rightarrow> int list option \<Rightarrow> fbpush list" where
  "push_vec ty v x = (case x of None \<Rightarrow> [] | Some s \<Rightarrow> [Push_always v (FVec ty s)])"

definition push_tabs :: "nat \<Rightarrow> fbpush list list option \<Rightarrow> fbpush list" where
  "push_tabs v x = (case x of None \<Rightarrow> [] | Some s \<Rightarrow> [Push_always v (FTabs s)])"

section \<open>Schemas\<close>

text \<open>The field types a \<open>run_verifier\<close> visits.\<close>

datatype fbfield = Field_scalar fbty | Field_str | Field_vec fbty | Field_tabs

type_synonym fbschema = "(string \<times> nat \<times> fbfield) list"

fun val_field :: "fbval \<Rightarrow> fbfield" where
  "val_field (FScalar ty n) = Field_scalar ty"
| "val_field (FStr s) = Field_str"
| "val_field (FVec ty xs) = Field_vec ty"
| "val_field (FTabs pss) = Field_tabs"

fun push_field :: "fbpush \<Rightarrow> nat \<times> fbfield" where
  "push_field (Push_slot v x d) = (v, val_field x)"
| "push_field (Push_always v x) = (v, val_field x)"

definition conforms :: "fbschema \<Rightarrow> fbpush list \<Rightarrow> bool" where
  "conforms sch ps \<longleftrightarrow>
     distinct (map push_voffset ps) \<and> set (map push_field ps) \<subseteq> set (map snd sch)"

section \<open>File (file\_spec.rs)\<close>

record File =
  f_fino :: u64
  f_name :: "string option"
  f_mode :: u32
  f_uid :: u32
  f_gid :: u32
  f_sz :: i64
  f_blocks :: i64
  f_atim_sec :: i64
  f_atim_nano :: i64
  f_mtim_sec :: i64
  f_mtim_nano :: i64
  f_crc :: u32
  f_complete :: u32
  f_errmsg :: "string option"
  f_errno :: i32

definition FileArgs_default :: File where
  "FileArgs_default =
     \<lparr>f_fino = 0, f_name = None, f_mode = 0, f_uid = 0, f_gid = 0, f_sz = 0, f_blocks = 0,
      f_atim_sec = 0, f_atim_nano = 0, f_mtim_sec = 0, f_mtim_nano = 0, f_crc = 0,
      f_complete = 0, f_errmsg = None, f_errno = 0\<rparr>"

definition File_create :: "File \<Rightarrow> fbpush list" where
  "File_create a =
     push_int TI64 24 (f_mtim_nano a) @ push_int TI64 22 (f_mtim_sec a) @
     push_int TI64 20 (f_atim_nano a) @ push_int TI64 18 (f_atim_sec a) @
     push_int TI64 16 (f_blocks a) @ push_int TI64 14 (f_sz a) @
     push_int TU64 4 (uint (f_fino a)) @ push_int TI32 32 (f_errno a) @
     push_str 30 (f_errmsg a) @ push_int TU32 28 (uint (f_complete a)) @
     push_int TU32 26 (uint (f_crc a)) @ push_int TU32 12 (uint (f_gid a)) @
     push_int TU32 10 (uint (f_uid a)) @ push_int TU32 8 (uint (f_mode a)) @
     push_str 6 (f_name a)"

definition File_view :: "'t fbapi \<Rightarrow> 't \<Rightarrow> File" where
  "File_view F t =
     \<lparr>f_fino = word_of_int (get_int F TU64 t 4), f_name = get_str F t 6,
      f_mode = word_of_int (get_int F TU32 t 8), f_uid = word_of_int (get_int F TU32 t 10),
      f_gid = word_of_int (get_int F TU32 t 12), f_sz = get_int F TI64 t 14,
      f_blocks = get_int F TI64 t 16, f_atim_sec = get_int F TI64 t 18,
      f_atim_nano = get_int F TI64 t 20, f_mtim_sec = get_int F TI64 t 22,
      f_mtim_nano = get_int F TI64 t 24, f_crc = word_of_int (get_int F TU32 t 26),
      f_complete = word_of_int (get_int F TU32 t 28), f_errmsg = get_str F t 30,
      f_errno = get_int F TI32 t 32\<rparr>"

definition File_schema :: fbschema where
  "File_schema =
     [(''fino'', 4, Field_scalar TU64), (''name'', 6, Field_str),
      (''mode'', 8, Field_scalar TU32), (''uid'', 10, Field_scalar TU32),
      (''gid'', 12, Field_scalar TU32), (''sz'', 14, Field_scalar TI64),
      (''blocks'', 16, Field_scalar TI64), (''atim_sec'', 18, Field_scalar TI64),
      (''atim_nano'', 20, Field_scalar TI64), (''mtim_sec'', 22, Field_scalar TI64),
      (''mtim_nano'', 24, Field_scalar TI64), (''crc'', 26, Field_scalar TU32),
      (''complete'', 28, Field_scalar TU32), (''errmsg'', 30, Field_str),
      (''errno'', 32, Field_scalar TI32)]"

section \<open>ESCP\_file\_list (file\_spec.rs)\<close>

record ESCP_file_list =
  fl_root :: "string option"
  fl_files :: "File list option"
  fl_complete :: bool
  fl_fc_stat :: bool

definition ESCP_file_listArgs_default :: ESCP_file_list where
  "ESCP_file_listArgs_default =
     \<lparr>fl_root = None, fl_files = None, fl_complete = False, fl_fc_stat = False\<rparr>"

definition ESCP_file_list_create :: "ESCP_file_list \<Rightarrow> fbpush list" where
  "ESCP_file_list_create a =
     push_tabs 6 (map_option (map File_create) (fl_files a)) @ push_str 4 (fl_root a) @
     push_bool 10 (fl_fc_stat a) @ push_bool 8 (fl_complete a)"

definition ESCP_file_list_view :: "'t fbapi \<Rightarrow> 't \<Rightarrow> ESCP_file_list" where
  "ESCP_file_list_view F t =
     \<lparr>fl_root = get_str F t 4, fl_files = map_option (map (File_view F)) (fb_tabs F t 6),
      fl_complete = get_bool F t 8, fl_fc_stat = get_bool F t 10\<rparr>"

definition ESCP_file_list_schema :: fbschema where
  "ESCP_file_list_schema =
     [(''root'', 4, Field_str), (''files'', 6, Field_tabs),
      (''complete'', 8, Field_scalar TBool), (''fc_stat'', 10, Field_scalar TBool)]"

section \<open>Session\_Init (session\_init.rs)\<close>

record Session_Init =
  si_version_major :: i32
  si_version_minor :: i32
  si_session_id :: u64
  si_crypto_key :: "int list option"
  si_do_hash :: u8
  si_do_crypto :: bool
  si_do_verbose :: bool
  si_do_compression :: bool
  si_do_preserve :: bool
  si_do_sparse :: bool
  si_no_direct :: bool
  si_is_error :: bool
  si_log_file :: "string option"
  si_message :: "string option"
  si_bind_interface :: "string option"
  si_port_start :: i32
  si_port_end :: i32
  si_io_engine :: i32
  si_thread_count :: i32
  si_block_sz :: i32
  si_ip_mode :: u8

definition Session_InitArgs_default :: Session_Init where
  "Session_InitArgs_default =
     \<lparr>si_version_major = 0, si_version_minor = 0, si_session_id = 0, si_crypto_key = None,
      si_do_hash = 0, si_do_crypto = False, si_do_verbose = False, si_do_compression = False,
      si_do_preserve = False, si_do_sparse = False, si_no_direct = False, si_is_error = False,
      si_log_file = None, si_message = None, si_bind_interface = None, si_port_start = 0,
      si_port_end = 0, si_io_engine = 0, si_thread_count = 0, si_block_sz = 0, si_ip_mode = 0\<rparr>"

definition Session_Init_create :: "Session_Init \<Rightarrow> fbpush list" where
  "Session_Init_create a =
     push_int TU64 8 (uint (si_session_id a)) @ push_int TI32 42 (si_block_sz a) @
     push_int TI32 40 (si_thread_count a) @ push_int TI32 38 (si_io_engine a) @
     push_int TI32 36 (si_port_end a) @ push_int TI32 34 (si_port_start a) @
     push_str 32 (si_bind_interface a) @ push_str 30 (si_message a) @
     push_str 28 (si_log_file a) @ push_vec TI8 10 (si_crypto_key a) @
     push_int TI32 6 (si_version_minor a) @ push_int TI32 4 (si_version_major a) @
     push_int TU8 44 (uint (si_ip_mode a)) @ push_bool 26 (si_is_error a) @
     push_bool 24 (si_no_direct a) @ push_bool 22 (si_do_sparse a) @
     push_bool 20 (si_do_preserve a) @ push_bool 18 (si_do_compression a) @
     push_bool 16 (si_do_verbose a) @ push_bool 14 (si_do_crypto a) @
     push_int TU8 12 (uint (si_do_hash a))"

definition Session_Init_view :: "'t fbapi \<Rightarrow> 't \<Rightarrow> Session_Init" where
  "Session_Init_view F t =
     \<lparr>si_version_major = get_int F TI32 t 4, si_version_minor = get_int F TI32 t 6,
      si_session_id = word_of_int (get_int F TU64 t 8), si_crypto_key = get_vec F t 10,
      si_do_hash = word_of_int (get_int F TU8 t 12), si_do_crypto = get_bool F t 14,
      si_do_verbose = get_bool F t 16, si_do_compression = get_bool F t 18,
      si_do_preserve = get_bool F t 20, si_do_sparse = get_bool F t 22,
      si_no_direct = get_bool F t 24, si_is_error = get_bool F t 26,
      si_log_file = get_str F t 28, si_message = get_str F t 30,
      si_bind_interface = get_str F t 32, si_port_start = get_int F TI32 t 34,
      si_port_end = get_int F TI32 t 36, si_io_engine = get_int F TI32 t 38,
      si_thread_count = get_int F TI32 t 40, si_block_sz = get_int F TI32 t 42,
      si_ip_mode = word_of_int (get_int F TU8 t 44)\<rparr>"

definition Session_Init_schema :: fbschema where
  "Session_Init_schema =
     [(''version_major'', 4, Field_scalar TI32), (''version_minor'', 6, Field_scalar TI32),
      (''session_id'', 8, Field_scalar TU64), (''crypto_key'', 10, Field_vec TI8),
      (''do_hash'', 12, Field_scalar TU8), (''do_crypto'', 14, Field_scalar TBool),
      (''do_verbose'', 16, Field_scalar TBool), (''do_compression'', 18, Field_scalar TBool),
      (''do_preserve'', 20, Field_scalar TBool), (''do_sparse'', 22, Field_scalar TBool),
      (''no_direct'', 24, Field_scalar TBool), (''is_error'', 26, Field_scalar TBool),
      (''log_file'', 28, Field_str), (''message'', 30, Field_str),
      (''bind_interface'', 32, Field_str), (''port_start'', 34, Field_scalar TI32),
      (''port_end'', 36, Field_scalar TI32), (''io_engine'', 38, Field_scalar TI32),
      (''thread_count'', 40, Field_scalar TI32), (''block_sz'', 42, Field_scalar TI32),
      (''ip_mode'', 44, Field_scalar TU8)]"

section \<open>Message and Message\_list (message.rs)\<close>

record Message =
  m_is_error :: bool
  m_is_warning :: bool
  m_type :: i32
  m_code :: "int list option"
  m_message :: "string option"

definition MessageArgs_default :: Message where
  "MessageArgs_default =
     \<lparr>m_is_error = False, m_is_warning = False, m_type = 0, m_code = None, m_message = None\<rparr>"

definition Message_create :: "Message \<Rightarrow> fbpush list" where
  "Message_create a =
     push_str 12 (m_message a) @ push_vec TI64 10 (m_code a) @ push_int TI32 8 (m_type a) @
     push_bool 6 (m_is_warning a) @ push_bool 4 (m_is_error a)"

definition Message_view :: "'t fbapi \<Rightarrow> 't \<Rightarrow> Message" where
  "Message_view F t =
     \<lparr>m_is_error = get_bool F t 4, m_is_warning = get_bool F t 6, m_type = get_int F TI32 t 8,
      m_code = get_vec F t 10, m_message = get_str F t 12\<rparr>"

definition Message_schema :: fbschema where
  "Message_schema =
     [(''is_error'', 4, Field_scalar TBool), (''is_warning'', 6, Field_scalar TBool),
      (''type_'', 8, Field_scalar TI32), (''code'', 10, Field_vec TI64),
      (''message'', 12, Field_str)]"

text \<open>\<open>Message_list\<close> has one field, the optional vector of messages.\<close>

definition Message_list_create :: "Message list option \<Rightarrow> fbpush list" where
  "Message_list_create ms = push_tabs 4 (map_option (map Message_create) ms)"

definition Message_list_view :: "'t fbapi \<Rightarrow> 't \<Rightarrow> Message list option" where
  "Message_list_view F t = map_option (map (Message_view F)) (fb_tabs F t 4)"

definition Message_list_schema :: fbschema where
  "Message_list_schema = [(''messages'', 4, Field_tabs)]"

section \<open>The contract of a generated table\<close>

text \<open>
  What the callers of the generated code rely on: \<open>create\<close> pushes each slot at most once, with
  the type its verifier checks, and the accessors read back the arguments.
\<close>

locale fb_table =
  fixes create :: "'a \<Rightarrow> fbpush list"
    and view :: "'t fbapi \<Rightarrow> 't \<Rightarrow> 'a"
    and schema :: fbschema
  assumes wf_create: "wf_pushes (create a)"
    and conf_create: "conforms schema (create a)"
    and view_create: "fb_reads F t (create a) \<Longrightarrow> view F t = a"
begin

lemma views: "list_all2 (fb_reads F) ts (map create xs) \<Longrightarrow> map (view F) ts = xs"
  by (induction xs arbitrary: ts) (auto simp: list_all2_Cons2 view_create)

lemma root_view:
  assumes "fb_laws F"
  shows "map_option (view F) (fb_root F (fb_finish F (create a) @ junk)) = Some a"
proof -
  obtain t where "fb_root F (fb_finish F (create a) @ junk) = Some t" "fb_reads F t (create a)"
    using assms wf_create unfolding fb_laws_def by blast
  then show ?thesis
    by (simp add: view_create)
qed

end

lemma fb_reads_get: "fb_reads F t ps \<Longrightarrow> read_tabs ps v = None \<Longrightarrow> fb_get F t v d = read_pushes ps v d"
  by (auto elim: fb_reads.cases)

lemma fb_reads_tabs_None: "fb_reads F t ps \<Longrightarrow> read_tabs ps v = None \<Longrightarrow> fb_tabs F t v = None"
  by (auto elim: fb_reads.cases)

lemma fb_reads_tabs_Some:
  "fb_reads F t ps \<Longrightarrow> read_tabs ps v = Some pss \<Longrightarrow>
     \<exists>ts. fb_tabs F t v = Some ts \<and> list_all2 (fb_reads F) ts pss"
  by (auto elim: fb_reads.cases)

lemmas get_defs = get_int_def get_bool_def get_str_def get_vec_def

text \<open>A table without nested tables reads slot by slot.\<close>

lemma fb_reads_flat:
  "fb_reads F t ps \<Longrightarrow> (\<And>v. read_tabs ps v = None) \<Longrightarrow> fb_get F t = read_pushes ps"
  by (intro ext) (rule fb_reads_get)

lemma read_tabs_append [simp]:
  "read_tabs (ps @ qs) v =
     (if v \<in> set (map push_voffset ps) then read_tabs ps v else read_tabs qs v)"
  by (induction ps v rule: read_tabs.induct) auto

lemma read_pushes_append [simp]:
  "read_pushes (ps @ qs) v d =
     (if v \<in> set (map push_voffset ps) then read_pushes ps v d else read_pushes qs v d)"
  by (induction ps v d rule: read_pushes.induct) auto

lemma map_voffset_push_opt [simp]:
  "map push_voffset (push_str w x) = (if x = None then [] else [w])"
  "map push_voffset (push_vec ty w y) = (if y = None then [] else [w])"
  "map push_voffset (push_tabs w z) = (if z = None then [] else [w])"
  by (auto simp: push_str_def push_vec_def push_tabs_def split: option.split)

lemma map_field_push_opt [simp]:
  "map push_field (push_str w x) = (if x = None then [] else [(w, Field_str)])"
  "map push_field (push_vec ty w y) = (if y = None then [] else [(w, Field_vec ty)])"
  "map push_field (push_tabs w z) = (if z = None then [] else [(w, Field_tabs)])"
  by (auto simp: push_str_def push_vec_def push_tabs_def split: option.split)

lemma wf_push_opt [simp]:
  "list_all wf_push (push_str w x)"
  "list_all wf_push (push_vec ty w y)"
  "list_all wf_push (push_tabs w z) \<longleftrightarrow> (\<forall>pss. z = Some pss \<longrightarrow> (\<forall>ps \<in> set pss. wf_pushes ps))"
  by (auto simp: push_str_def push_vec_def push_tabs_def wf_pushes_def list_all_iff split: option.split)

lemma read_push_opt [simp]:
  "read_pushes (push_str w x) w d = (case x of None \<Rightarrow> d | Some s \<Rightarrow> Some (FStr s))"
  "read_pushes (push_vec ty w y) w d = (case y of None \<Rightarrow> d | Some s \<Rightarrow> Some (FVec ty s))"
  "read_tabs (push_str w x) v = None"
  "read_tabs (push_vec ty w y) v = None"
  "read_tabs (push_tabs w z) v = (if w = v then z else None)"
  by (auto simp: push_str_def push_vec_def push_tabs_def split: option.split)

lemma read_push_opt_miss [simp]:
  "x = None \<Longrightarrow> read_pushes (push_str w x) v d = d"
  "y = None \<Longrightarrow> read_pushes (push_vec ty w y) v d = d"
  "z = None \<Longrightarrow> read_pushes (push_tabs w z) v d = d"
  "w \<noteq> v \<Longrightarrow> read_pushes (push_str w x) v d = d"
  "w \<noteq> v \<Longrightarrow> read_pushes (push_vec ty w y) v d = d"
  "w \<noteq> v \<Longrightarrow> read_pushes (push_tabs w z) v d = d"
  by (auto simp: push_str_def push_vec_def push_tabs_def split: option.split)

interpretation file_tab: fb_table File_create File_view File_schema
proof
  fix a F t
  show "wf_pushes (File_create a)"
    by (simp add: wf_pushes_def File_create_def)
  show "conforms File_schema (File_create a)"
    by (simp add: conforms_def File_schema_def File_create_def)
  assume "fb_reads F t (File_create a)"
  then have g: "fb_get F t = read_pushes (File_create a)"
    by (rule fb_reads_flat) (simp add: File_create_def)
  show "File_view F t = a"
    by (rule File.equality)
      (simp_all add: File_view_def get_defs g File_create_def unsigned_eq_0_iff split: option.split)
qed

interpretation list_tab: fb_table ESCP_file_list_create ESCP_file_list_view ESCP_file_list_schema
proof
  fix a F t
  show "wf_pushes (ESCP_file_list_create a)"
    unfolding ESCP_file_list_create_def by (subst wf_pushes_def) (auto simp: file_tab.wf_create)
  show "conforms ESCP_file_list_schema (ESCP_file_list_create a)"
    by (simp add: conforms_def ESCP_file_list_schema_def ESCP_file_list_create_def)
  assume r: "fb_reads F t (ESCP_file_list_create a)"
  have g: "fb_get F t v d = read_pushes (ESCP_file_list_create a) v d" if "v \<noteq> 6" for v d
    using that by (intro fb_reads_get [OF r]) (simp add: ESCP_file_list_create_def)
  have "map_option (map (File_view F)) (fb_tabs F t 6) = fl_files a"
  proof (cases "fl_files a")
    case None
    then show ?thesis
      using fb_reads_tabs_None [OF r, of 6] by (simp add: ESCP_file_list_create_def)
  next
    case (Some fs)
    then obtain ts where "fb_tabs F t 6 = Some ts" "list_all2 (fb_reads F) ts (map File_create fs)"
      using fb_reads_tabs_Some [OF r, of 6] by (auto simp: ESCP_file_list_create_def)
    then show ?thesis
      using Some file_tab.views by simp
  qed
  then show "ESCP_file_list_view F t = a"
    by (intro ESCP_file_list.equality)
      (simp_all add: ESCP_file_list_view_def get_defs g ESCP_file_list_create_def split: option.split)
qed

interpretation init_tab: fb_table Session_Init_create Session_Init_view Session_Init_schema
proof
  fix a F t
  show "wf_pushes (Session_Init_create a)"
    by (simp add: wf_pushes_def Session_Init_create_def)
  show "conforms Session_Init_schema (Session_Init_create a)"
    by (simp add: conforms_def Session_Init_schema_def Session_Init_create_def)
  assume "fb_reads F t (Session_Init_create a)"
  then have g: "fb_get F t = read_pushes (Session_Init_create a)"
    by (rule fb_reads_flat) (simp add: Session_Init_create_def)
  show "Session_Init_view F t = a"
    by (rule Session_Init.equality)
      (simp_all add: Session_Init_view_def get_defs g Session_Init_create_def unsigned_eq_0_iff split: option.split)
qed

interpretation msg_tab: fb_table Message_create Message_view Message_schema
proof
  fix a F t
  show "wf_pushes (Message_create a)"
    by (simp add: wf_pushes_def Message_create_def)
  show "conforms Message_schema (Message_create a)"
    by (simp add: conforms_def Message_schema_def Message_create_def)
  assume "fb_reads F t (Message_create a)"
  then have g: "fb_get F t = read_pushes (Message_create a)"
    by (rule fb_reads_flat) (simp add: Message_create_def)
  show "Message_view F t = a"
    by (rule Message.equality)
      (simp_all add: Message_view_def get_defs g Message_create_def split: option.split)
qed

interpretation msgs_tab: fb_table Message_list_create Message_list_view Message_list_schema
proof
  fix a F t
  show "wf_pushes (Message_list_create a)"
    unfolding Message_list_create_def by (subst wf_pushes_def) (auto simp: msg_tab.wf_create)
  show "conforms Message_list_schema (Message_list_create a)"
    by (simp add: conforms_def Message_list_schema_def Message_list_create_def)
  assume r: "fb_reads F t (Message_list_create a)"
  show "Message_list_view F t = a"
  proof (cases a)
    case None
    then show ?thesis
      using fb_reads_tabs_None [OF r, of 4]
      by (simp add: Message_list_create_def Message_list_view_def)
  next
    case (Some ms)
    then obtain ts where "fb_tabs F t 4 = Some ts" "list_all2 (fb_reads F) ts (map Message_create ms)"
      using fb_reads_tabs_Some [OF r, of 4] by (auto simp: Message_list_create_def)
    then show ?thesis
      using Some msg_tab.views by (simp add: Message_list_view_def)
  qed
qed

section \<open>The laws can be met\<close>

text \<open>
  A concrete instance of the interface: a buffer is the unary code of the pushes followed by a
  stop byte, a table is the list of pushes it was built from.
\<close>

instance fbty :: countable
  by countable_datatype

instance fbval :: countable
  by countable_datatype

instance fbpush :: countable
  by countable_datatype

definition unary_api :: "fbpush list fbapi" where
  "unary_api =
     \<lparr>fb_finish = (\<lambda>ps. replicate (to_nat ps) 1 @ [0]),
      fb_root = (\<lambda>bs. Some (from_nat (length (takeWhile (\<lambda>b. b = 1) bs)))),
      fb_get = read_pushes, fb_tabs = read_tabs\<rparr>"

lemma size_list_member_le: "qs \<in> set pss \<Longrightarrow> f qs \<le> size_list f pss"
  by (induction pss) auto

lemma read_tabs_size:
  "read_tabs ps v = Some pss \<Longrightarrow> qs \<in> set pss \<Longrightarrow> size_list size qs < size_list size ps"
proof (induction ps v rule: read_tabs.induct)
  case (3 w x ps v)
  show ?case
  proof (cases "w = v")
    case True
    with 3 have "x = FTabs pss" by (auto split: fbval.splits)
    then show ?thesis
      using size_list_member_le [OF 3(3), of "size_list size"] by simp
  next
    case False
    with 3 show ?thesis by simp
  qed
qed (auto split: if_splits)

lemma unary_reads: "fb_reads unary_api ps ps"
proof (induction ps rule: measure_induct_rule [of "size_list size"])
  case (less ps)
  have "list_all2 (fb_reads unary_api) pss pss" if "read_tabs ps v = Some pss" for v pss
    using less read_tabs_size [OF that] by (simp add: list_all2_same)
  then show ?case
    by (intro fb_readsI) (simp_all add: unary_api_def)
qed

lemma fb_laws_unary: "fb_laws unary_api"
proof -
  have "takeWhile (\<lambda>b. b = 1) (replicate n 1 @ 0 # junk) = replicate n (1 :: u8)" for n junk
    by (induction n) auto
  then show ?thesis
    using unary_reads by (auto simp: fb_laws_def unary_api_def)
qed

text \<open>The same with some chosen tables encoded in a few bytes.\<close>

definition short_index :: "fbpush list list \<Rightarrow> fbpush list \<Rightarrow> nat" where
  "short_index exs ps =
     (let n = length (takeWhile (\<lambda>x. x \<noteq> ps) exs)
      in if n < length exs then n else length exs + to_nat ps)"

definition short_table :: "fbpush list list \<Rightarrow> nat \<Rightarrow> fbpush list" where
  "short_table exs n = (if n < length exs then exs ! n else from_nat (n - length exs))"

definition short_api :: "fbpush list list \<Rightarrow> fbpush list fbapi" where
  "short_api exs =
     \<lparr>fb_finish = (\<lambda>ps. replicate (short_index exs ps) 1 @ [0]),
      fb_root = (\<lambda>bs. Some (short_table exs (length (takeWhile (\<lambda>b. b = 1) bs)))),
      fb_get = read_pushes, fb_tabs = read_tabs\<rparr>"

lemma short_table_index: "short_table exs (short_index exs ps) = ps"
proof (cases "length (takeWhile (\<lambda>x. x \<noteq> ps) exs) < length exs")
  case True
  then show ?thesis
    using nth_length_takeWhile [OF True] by (simp add: short_index_def short_table_def)
next
  case False
  then show ?thesis
    by (simp add: short_index_def short_table_def)
qed

lemma short_finish: "ps \<in> set exs \<Longrightarrow> length (fb_finish (short_api exs) ps) \<le> length exs"
proof -
  assume "ps \<in> set exs"
  then have "length (takeWhile (\<lambda>x. x \<noteq> ps) exs) < length exs"
    by (metis (full_types) length_takeWhile_le nat_less_le takeWhile_eq_all_conv takeWhile_eq_take take_all)
  then show ?thesis
    by (simp add: short_api_def short_index_def)
qed

lemma short_reads: "fb_reads (short_api exs) ps ps"
proof (induction ps rule: measure_induct_rule [of "size_list size"])
  case (less ps)
  have "list_all2 (fb_reads (short_api exs)) pss pss" if "read_tabs ps v = Some pss" for v pss
    using less read_tabs_size [OF that] by (simp add: list_all2_same)
  then show ?case
    by (intro fb_readsI) (simp_all add: short_api_def)
qed

lemma fb_laws_short: "fb_laws (short_api exs)"
proof -
  have "takeWhile (\<lambda>b. b = 1) (replicate n 1 @ 0 # junk) = replicate n (1 :: u8)" for n junk
    by (induction n) auto
  then show ?thesis
    using short_reads by (auto simp: fb_laws_def short_api_def short_table_index)
qed

section \<open>Properties\<close>

text \<open>
  A file list survives the wire: reading the root of a buffer built from a list of
  file entries, whatever bytes follow it, gives back the root path, every field of every entry
  in order, and the two flags.
\<close>

theorem file_list_roundtrip:
  assumes "fb_laws F"
  shows "map_option (ESCP_file_list_view F)
           (fb_root F (fb_finish F (ESCP_file_list_create a) @ junk)) = Some a"
  using assms by (rule list_tab.root_view)

text \<open>
  The session parameters survive the wire: the receiver reads exactly the record the
  sender built, key bytes and optional strings included.
\<close>

theorem session_init_roundtrip:
  assumes "fb_laws F"
  shows "map_option (Session_Init_view F)
           (fb_root F (fb_finish F (Session_Init_create a) @ junk)) = Some a"
  using assms by (rule init_tab.root_view)

text \<open>
  A list of error messages survives the wire with its codes and texts.
\<close>

theorem message_list_roundtrip:
  assumes "fb_laws F"
  shows "map_option (Message_list_view F)
           (fb_root F (fb_finish F (Message_list_create ms) @ junk)) = Some ms"
  using assms by (rule msgs_tab.root_view)

text \<open>
  Every table the program builds conforms to the schema its verifier checks: each
  slot is pushed at most once, at an offset of the schema, with the type declared there.
\<close>

theorem tables_conform_to_schema:
  "conforms File_schema (File_create f) \<and>
   conforms ESCP_file_list_schema (ESCP_file_list_create fl) \<and>
   conforms Session_Init_schema (Session_Init_create si) \<and>
   conforms Message_schema (Message_create m) \<and>
   conforms Message_list_schema (Message_list_create ms)"
  using file_tab.conf_create list_tab.conf_create init_tab.conf_create msg_tab.conf_create
    msgs_tab.conf_create by simp

end
