(* ===== verification/Command_Line.thy ===== *)
theory Command_Line
  imports EScp_Prelude
begin

text \<open>
  The start-up path of \<open>src/escp.rs\<close>: unit suffixes (\<open>int_from_human\<close>), the configuration
  file (\<open>load_yaml\<close>), and \<open>start_escp\<close>, which turns the parsed command line into the argument
  block \<open>dtn_args\<close> shared with \<open>libdtn\<close>. The command line parser (clap), the YAML parser and
  the hex decoder are outside the repository and enter as their results or as parameters.
  Cargo's release profile wraps on integer overflow and the debug profile panics, so the
  arithmetic of \<open>int_from_human\<close> takes the profile as an argument.
\<close>

section \<open>The shared argument block\<close>

text \<open>
  \<open>struct dtn_args\<close> of \<open>bindings.rs\<close>, without the log rings, the checksum ring and the
  counters that only the C threads touch. A socket address is kept as the host and port
  strings \<open>dns_lookup\<close> was called with.
\<close>

record dtn_args =
  da_do_server :: bool
  da_do_crypto :: bool
  da_do_hash :: u8
  da_do_preserve :: bool
  da_nodirect :: bool
  da_recursive :: bool
  da_ip_mode :: u8
  da_logging_fd :: i32
  da_mtu :: i32
  da_block :: i32
  da_flags :: i32
  da_QD :: i32
  da_compression :: i32
  da_sparse :: i32
  da_pacing :: u64
  da_io_engine_name :: string
  da_io_engine_tx :: i32
  da_io_engine_rx :: i32
  da_window :: u32
  da_session_id :: u64
  da_crypto_key :: "u8 list"
  da_do_affinity :: bool
  da_cpumask_len :: i32
  da_cpumask_bytes :: "u8 list"
  da_nodemask :: u64
  da_sock_store_count :: i32
  da_sock_store :: "(string \<times> string) list"
  da_thread_count :: i32
  da_active_port :: u16

definition O_RDONLY :: i32 where "O_RDONLY = 0"
definition O_DIRECT :: i32 where "O_DIRECT = 16384"

text \<open>\<open>args_new\<close> of \<open>libdtn/src/args.c\<close>: zeroed memory, then the flags.\<close>

definition args_new :: dtn_args where
  "args_new =
     \<lparr>da_do_server = False, da_do_crypto = False, da_do_hash = 0, da_do_preserve = False,
      da_nodirect = False, da_recursive = False, da_ip_mode = 0, da_logging_fd = 0, da_mtu = 0,
      da_block = 0, da_flags = O_DIRECT, da_QD = 0, da_compression = 0, da_sparse = 0,
      da_pacing = 0, da_io_engine_name = [], da_io_engine_tx = 0, da_io_engine_rx = 0,
      da_window = 0, da_session_id = 0, da_crypto_key = replicate 16 0, da_do_affinity = False,
      da_cpumask_len = 0, da_cpumask_bytes = replicate 32 0, da_nodemask = 0,
      da_sock_store_count = 0, da_sock_store = [], da_thread_count = 0, da_active_port = 0\<rparr>"

section \<open>The command line\<close>

record EScp_Args =
  ea_source :: "string list"
  ea_destination :: string
  ea_file_list :: string
  ea_ssh_port :: u16
  ea_escp_port :: u16
  ea_escp_portrange :: u16
  ea_verbose :: bool
  ea_log_file :: string
  ea_quiet :: bool
  ea_limit :: string
  ea_preserve :: bool
  ea_compression :: bool
  ea_sparse :: bool
  ea_recursive :: bool
  ea_ssh_option :: string
  ea_ssh :: string
  ea_escp :: string
  ea_block_sz :: string
  ea_io_engine :: string
  ea_threads :: u32
  ea_mgmt :: string
  ea_bits :: bool
  ea_nodirect :: bool
  ea_nochecksum :: bool
  ea_writechecksum :: bool
  ea_agent :: bool
  ea_cipher :: string
  ea_identity :: string
  ea_ssh_config :: string
  ea_jump_host :: string
  ea_batch_mode :: bool
  ea_license :: bool
  ea_server :: bool
  ea_ipv4 :: bool
  ea_ipv6 :: bool

text \<open>The defaults the \<open>arg\<close> attributes declare.\<close>

definition EScp_Args_default :: EScp_Args where
  "EScp_Args_default =
     \<lparr>ea_source = [], ea_destination = [], ea_file_list = [], ea_ssh_port = 22,
      ea_escp_port = 1232, ea_escp_portrange = 10, ea_verbose = False, ea_log_file = [],
      ea_quiet = False, ea_limit = ''0'', ea_preserve = False, ea_compression = False,
      ea_sparse = False, ea_recursive = False, ea_ssh_option = [], ea_ssh = ''ssh'',
      ea_escp = ''escp'', ea_block_sz = ''1M'', ea_io_engine = ''posix'', ea_threads = 4,
      ea_mgmt = [], ea_bits = False, ea_nodirect = False, ea_nochecksum = False,
      ea_writechecksum = False, ea_agent = False, ea_cipher = [], ea_identity = [],
      ea_ssh_config = [], ea_jump_host = [], ea_batch_mode = False, ea_license = False,
      ea_server = False, ea_ipv4 = False, ea_ipv6 = False\<rparr>"

section \<open>Unit suffixes\<close>

definition unit_names :: string where "unit_names = '' kmgtpe''"

definition mul_u64 :: "bool \<Rightarrow> u64 \<Rightarrow> u64 \<Rightarrow> u64 outcome" where
  "mul_u64 overflow_checks a b =
     (if overflow_checks \<and> 2 ^ 64 \<le> unat a * unat b
      then Panicked ''attempt to multiply with overflow'' else Done (a * b))"

definition int_from_human :: "bool \<Rightarrow> string \<Rightarrow> u64 outcome" where
  "int_from_human overflow_checks str =
     (let number = takeWhile (\<lambda>c. \<not> is_alpha c) str;
          unit = dropWhile (\<lambda>c. \<not> is_alpha c) str
      in case parse_u64 number of
           None \<Rightarrow> Done 0
         | Some val \<Rightarrow>
             let u = to_lowercase unit;
                 pow = (case u of
                          [] \<Rightarrow> 0
                        | x # _ \<Rightarrow> (case find_char x unit_names of Some value \<Rightarrow> value | None \<Rightarrow> 0));
                 bits = contains_str u ''bit'';
                 multiplier = (if bits then 1000 else 1024 :: u64);
                 divisor = (if bits then 8 else 1 :: u64)
             in bind_outcome (mul_u64 overflow_checks val (multiplier ^ pow))
                  (\<lambda>p. Done (p div divisor)))"

section \<open>The configuration file\<close>

datatype file_read = No_file | Unreadable | Contents string

definition config_items :: "string list" where
  "config_items = [''cpumask'', ''nodemask'']"

text \<open>
  \<open>yaml\<close> stands for \<open>YamlLoader::load_from_str\<close>: \<open>None\<close> for a parse error, otherwise the
  documents, each giving the string stored under a key (\<open>doc[key].as_str()\<close>).
\<close>

definition load_yaml ::
    "(string \<Rightarrow> (string \<Rightarrow> string option) list option) \<Rightarrow> file_read \<Rightarrow> (string \<rightharpoonup> string) outcome" where
  "load_yaml yaml f =
     (case f of
        No_file \<Rightarrow> Done Map.empty
      | Unreadable \<Rightarrow> Panicked ''Unable to read file''
      | Contents contents \<Rightarrow>
          (case yaml contents of
             None \<Rightarrow> Panicked ''Error parsing YAML File''
           | Some [] \<Rightarrow> Panicked ''index out of bounds''
           | Some (doc # _) \<Rightarrow>
               Done (foldl (\<lambda>m i. case doc i of Some res \<Rightarrow> m(i \<mapsto> res) | None \<Rightarrow> m)
                       Map.empty config_items)))"

section \<open>start\_escp\<close>

fun hex_value :: "nat \<Rightarrow> string \<Rightarrow> nat option" where
  "hex_value n [] = Some n"
| "hex_value n (c # cs) =
     (let k = of_char (to_lower c) :: nat
      in if is_digit c then hex_value (16 * n + (k - 48)) cs
         else if 97 \<le> k \<and> k \<le> 102 then hex_value (16 * n + (k - 87)) cs else None)"

text \<open>\<open>u64::from_str_radix(s, 16)\<close>.\<close>

definition from_str_radix_16 :: "string \<Rightarrow> u64 option" where
  "from_str_radix_16 s =
     (let ds = (case s of c # cs \<Rightarrow> if c = CHR ''+'' then cs else s | [] \<Rightarrow> [])
      in if ds = [] then None
         else case hex_value 0 ds of
                None \<Rightarrow> None
              | Some n \<Rightarrow> if n < 2 ^ 64 then Some (of_nat n) else None)"

definition io_engine_names :: "string \<rightharpoonup> i32" where
  "io_engine_names = map_of [(''posix'', 1), (''uring'', 2), (''dummy'', 3), (''shmem'', 4)]"

text \<open>First piece of \<open>split("::")\<close> and first piece of \<open>rsplit("::")\<close>.\<close>

fun before_sep :: "string \<Rightarrow> string" where
  "before_sep [] = []"
| "before_sep (c # cs) = (if starts_with (c # cs) ''::'' then [] else c # before_sep cs)"

definition after_sep :: "string \<Rightarrow> string" where
  "after_sep s = rev (before_sep (rev s))"

definition engine_of :: "string \<Rightarrow> i32" where
  "engine_of name = (case io_engine_names name of Some i \<Rightarrow> i | None \<Rightarrow> -1)"

text \<open>The two masks of the configuration file.\<close>

definition apply_config ::
    "(string \<Rightarrow> u8 list option) \<Rightarrow> (string \<rightharpoonup> string) \<Rightarrow> dtn_args \<Rightarrow> dtn_args outcome" where
  "apply_config hex_decode config args =
     bind_outcome
       (case config ''cpumask'' of
          None \<Rightarrow> Done args
        | Some s \<Rightarrow> bind_outcome (unwrap ''Bad cpumask'' (hex_decode s)) (\<lambda>res.
            let len = (if length res > 31 then 32 else length res)
            in Done (args\<lparr>da_do_affinity := True,
                          da_cpumask_bytes := take len res @ drop len (da_cpumask_bytes args),
                          da_cpumask_len := int len\<rparr>)))
       (\<lambda>args. case config ''nodemask'' of
          None \<Rightarrow> Done args
        | Some s \<Rightarrow> bind_outcome (unwrap ''Bad nodemask'' (from_str_radix_16 s))
            (\<lambda>m. Done (args\<lparr>da_nodemask := m\<rparr>)))"

text \<open>The last positional argument is the destination.\<close>

definition split_destination :: "EScp_Args \<Rightarrow> EScp_Args" where
  "split_destination flags =
     (let l = length (ea_source flags);
          flags1 = flags\<lparr>ea_destination := (if ea_source flags = [] then [] else last (ea_source flags))\<rparr>
      in if l \<ge> 1 then flags1\<lparr>ea_source := take (l - 1) (ea_source flags)\<rparr> else flags1)"

definition min_block :: i32 where "min_block = 256 * 1024"

text \<open>
  The mode flags, in source order: \<open>nochecksum\<close> is tested after \<open>writechecksum\<close> and wins.
\<close>

definition set_modes :: "EScp_Args \<Rightarrow> dtn_args \<Rightarrow> dtn_args" where
  "set_modes flags args =
     args\<lparr>da_compression := (if ea_compression flags then 1 else da_compression args),
          da_do_preserve := (ea_preserve flags \<or> da_do_preserve args),
          da_sparse := (if ea_sparse flags then 1 else da_sparse args),
          da_nodirect := ea_nodirect flags,
          da_do_hash := (if ea_nochecksum flags then 0
                         else if ea_writechecksum flags then 2 else da_do_hash args),
          da_recursive := (ea_recursive flags \<or> da_recursive args)\<rparr>"

definition set_verbose :: "EScp_Args \<Rightarrow> u64 \<Rightarrow> u64" where
  "set_verbose flags verbose =
     (let v1 = (if ea_verbose flags then verbose + 1 else verbose);
          v2 = (if ea_verbose flags then v1 + 1 else v1)
      in if ea_quiet flags then 0 else v2)"

text \<open>
  The assignments to \<open>args\<close> and to the global \<open>verbose_logging\<close>. An unknown engine leaves
  through \<open>process::exit(0)\<close> before the remaining flags are read.
\<close>

definition apply_flags ::
    "bool \<Rightarrow> EScp_Args \<Rightarrow> u64 \<Rightarrow> dtn_args \<Rightarrow> (dtn_args \<times> u64) outcome" where
  "apply_flags ovf flags verbose0 args0 =
     (let io_engine = to_lowercase (ea_io_engine flags);
          tx = engine_of (before_sep io_engine);
          rx = engine_of (after_sep io_engine)
      in bind_outcome (int_from_human ovf (ea_block_sz flags)) (\<lambda>bs.
         let blk = u64_as_i32 bs;
             args1 = args0\<lparr>da_io_engine_tx := tx, da_io_engine_rx := rx,
                            da_io_engine_name := io_engine,
                            da_block := (if blk < min_block then min_block else blk)\<rparr>
         in if tx = -1 then Exited 0
            else if rx = -1 then Exited 0
            else bind_outcome (int_from_human ovf (ea_limit flags)) (\<lambda>lim.
                 Done ((set_modes flags args1)
                         \<lparr>da_pacing := lim, da_window := 512 * 1024 * 1024, da_mtu := 8204,
                          da_thread_count := sint (ea_threads flags), da_QD := 4,
                          da_do_server := ea_server flags, da_active_port := ea_escp_port flags,
                          da_flags := O_RDONLY\<rparr>,
                       set_verbose flags verbose0))))"

text \<open>
  \<open>start_escp\<close>: configuration, flags, the two early exits, then \<open>do_escp\<close> with the argument
  block. The result says whether \<open>do_escp\<close> runs the receiver.
\<close>

definition start_escp ::
    "bool \<Rightarrow> (string \<Rightarrow> u8 list option) \<Rightarrow> (string \<rightharpoonup> string) outcome \<Rightarrow> EScp_Args
       \<Rightarrow> (dtn_args \<times> EScp_Args \<times> u64 \<times> bool) outcome" where
  "start_escp ovf hex_decode config flags0 =
     bind_outcome config (\<lambda>config.
     bind_outcome (apply_config hex_decode config args_new) (\<lambda>args0.
     let l = length (ea_source flags0); flags = split_destination flags0
     in bind_outcome (apply_flags ovf flags 0 args0) (\<lambda>(args, verbose).
        if ea_license flags then Exited 0
        else if l < 2 \<and> \<not> ea_server flags \<and> ea_file_list flags = [] then Exited 0
        else Done (args, flags, verbose, da_do_server args))))"

section \<open>Well-formed argument blocks\<close>

text \<open>
  What the rest of the program relies on: a block size that fits the C side, engines that
  exist, and fixed-size arrays that kept their size.
\<close>

definition args_wf :: "dtn_args \<Rightarrow> bool" where
  "args_wf a \<longleftrightarrow>
     min_block \<le> da_block a \<and> da_block a < 2 ^ 31 \<and>
     da_io_engine_tx a \<in> {1, 2, 3, 4} \<and> da_io_engine_rx a \<in> {1, 2, 3, 4} \<and>
     length (da_crypto_key a) = 16 \<and> length (da_cpumask_bytes a) = 32 \<and>
     0 \<le> da_cpumask_len a \<and> da_cpumask_len a \<le> 32"

lemma engine_of_range: "engine_of s \<noteq> -1 \<Longrightarrow> engine_of s \<in> {1, 2, 3, 4}"
  by (auto simp: engine_of_def io_engine_names_def split: if_splits option.splits)

lemma u64_as_i32_less: "u64_as_i32 x < 2 ^ 31"
  using sint_lt [of "ucast x :: u32"] by (simp add: u64_as_i32_def)

lemma apply_config_arrays:
  assumes "apply_config hx config a = Done b"
    and "length (da_cpumask_bytes a) = 32" and "0 \<le> da_cpumask_len a" and "da_cpumask_len a \<le> 32"
  shows "length (da_cpumask_bytes b) = 32 \<and> 0 \<le> da_cpumask_len b \<and> da_cpumask_len b \<le> 32 \<and>
    da_crypto_key b = da_crypto_key a \<and> da_do_hash b = da_do_hash a"
  using assms
  by (cases "config ''cpumask''"; cases "config ''nodemask''") (auto simp: apply_config_def Let_def)

lemma set_modes_select [simp]:
  "da_block (set_modes fl a) = da_block a"
  "da_io_engine_tx (set_modes fl a) = da_io_engine_tx a"
  "da_io_engine_rx (set_modes fl a) = da_io_engine_rx a"
  "da_crypto_key (set_modes fl a) = da_crypto_key a"
  "da_cpumask_bytes (set_modes fl a) = da_cpumask_bytes a"
  "da_cpumask_len (set_modes fl a) = da_cpumask_len a"
  "da_do_hash (set_modes fl a) =
     (if ea_nochecksum fl then 0 else if ea_writechecksum fl then 2 else da_do_hash a)"
  by (simp_all add: set_modes_def)

lemma apply_flags_Done:
  assumes "apply_flags ovf fl v a = Done (b, v')"
  shows "min_block \<le> da_block b" "da_block b < 2 ^ 31"
    and "da_io_engine_tx b \<in> {1, 2, 3, 4}" "da_io_engine_rx b \<in> {1, 2, 3, 4}"
    and "da_crypto_key b = da_crypto_key a" "da_cpumask_bytes b = da_cpumask_bytes a"
    and "da_cpumask_len b = da_cpumask_len a"
    and "da_do_hash b = (if ea_nochecksum fl then 0 else if ea_writechecksum fl then 2 else da_do_hash a)"
    and "da_do_server b = ea_server fl"
  using assms engine_of_range [of "before_sep (to_lowercase (ea_io_engine fl))"]
    engine_of_range [of "after_sep (to_lowercase (ea_io_engine fl))"]
  by (simp_all add: apply_flags_def Let_def min_block_def, safe)
    (simp_all add: u64_as_i32_less [simplified] min_block_def)

lemma start_escp_Done:
  assumes "start_escp ovf hx cfg fl = Done (a, fl', v, srv)"
  obtains c b where "cfg = Done c" "apply_config hx c args_new = Done b"
    "apply_flags ovf fl' 0 b = Done (a, v)" "fl' = split_destination fl" "srv = da_do_server a"
    "\<not> (length (ea_source fl) < 2 \<and> \<not> ea_server fl' \<and> ea_file_list fl' = [])"
  using assms by (auto simp: start_escp_def Let_def split: if_splits prod.splits)

lemma split_destination_same [simp]:
  "ea_nochecksum (split_destination fl) = ea_nochecksum fl"
  "ea_writechecksum (split_destination fl) = ea_writechecksum fl"
  "ea_server (split_destination fl) = ea_server fl"
  "ea_file_list (split_destination fl) = ea_file_list fl"
  by (simp_all add: split_destination_def Let_def)

lemma split_destination_source:
  "ea_source fl \<noteq> [] \<Longrightarrow>
     ea_source (split_destination fl) @ [ea_destination (split_destination fl)] = ea_source fl"
  by (cases "ea_source fl" rule: rev_cases) (simp_all add: split_destination_def Let_def)

section \<open>Lemmas on unit suffixes\<close>

lemma digit_not_alpha: "is_digit c \<Longrightarrow> \<not> is_alpha c"
  by (auto simp: is_digit_def is_alpha_def is_upper_def)

lemma takeWhile_number:
  "(\<forall>c \<in> set ds. is_digit c) \<Longrightarrow> (u = [] \<or> is_alpha (hd u)) \<Longrightarrow>
     takeWhile (\<lambda>c. \<not> is_alpha c) (ds @ u) = ds \<and> dropWhile (\<lambda>c. \<not> is_alpha c) (ds @ u) = u"
  by (induction ds) (auto simp: digit_not_alpha takeWhile_eq_Nil_iff dropWhile_eq_self_iff)

definition human_pow :: "string \<Rightarrow> nat" where
  "human_pow l =
     (case l of [] \<Rightarrow> 0
      | x # _ \<Rightarrow> (case find_char x unit_names of Some value \<Rightarrow> value | None \<Rightarrow> 0))"

lemma int_from_human_number:
  assumes "n < 2 ^ 64" and "u = [] \<or> is_alpha (hd u)"
  shows "int_from_human ovf (show_nat n @ u) =
     (let l = to_lowercase u; bits = contains_str l ''bit''
      in bind_outcome (mul_u64 ovf (of_nat n) ((if bits then 1000 else 1024) ^ human_pow l))
           (\<lambda>p. Done (p div (if bits then 8 else 1))))"
  using takeWhile_number [OF _ assms(2), of "show_nat n"] show_nat_is_digit assms(1)
  by (simp add: int_from_human_def parse_u64_def parse_unsigned_show_nat Let_def human_pow_def)

definition human_suffix :: "nat \<Rightarrow> string" where
  "human_suffix k = (if k = 0 then [] else [unit_names ! k])"

lemma suffix_table:
  "\<forall>k \<in> set [0, 1, 2, 3, 4, 5, 6].
     (human_suffix k = [] \<or> is_alpha (hd (human_suffix k))) \<and>
     human_pow (to_lowercase (human_suffix k)) = k \<and>
     \<not> contains_str (to_lowercase (human_suffix k)) ''bit''"
  by code_simp

lemma bit_suffix_table:
  "\<forall>k \<in> set [1, 2, 3, 4, 5, 6].
     is_alpha (hd (human_suffix k @ ''bit'')) \<and>
     human_pow (to_lowercase (human_suffix k @ ''bit'')) = k \<and>
     contains_str (to_lowercase (human_suffix k @ ''bit'')) ''bit''"
  by code_simp

lemma int_from_human_suffix:
  assumes "n < 2 ^ 64" and "k \<le> 6"
  shows "int_from_human ovf (show_nat n @ human_suffix k) =
           bind_outcome (mul_u64 ovf (of_nat n) (1024 ^ k)) Done"
proof -
  have "k \<in> set [0, 1, 2, 3, 4, 5, 6]"
    using assms(2) by auto
  from bspec [OF suffix_table this] show ?thesis
    using int_from_human_number [OF assms(1), of "human_suffix k" ovf]
    by (simp add: Let_def)
qed

lemma int_from_human_bit_suffix:
  assumes "n < 2 ^ 64" and "1 \<le> k" and "k \<le> 6"
  shows "int_from_human ovf (show_nat n @ human_suffix k @ ''bit'') =
           bind_outcome (mul_u64 ovf (of_nat n) (1000 ^ k)) (\<lambda>p. Done (p div 8))"
proof -
  have "k \<in> set [1, 2, 3, 4, 5, 6]"
    using assms(2,3) by auto
  from bspec [OF bit_suffix_table this] show ?thesis
    using int_from_human_number [OF assms(1), of "human_suffix k @ ''bit''" ovf]
    by (simp add: Let_def)
qed

lemma unat_mult_no_overflow:
  "n < 2 ^ 64 \<Longrightarrow> m < 2 ^ 64 \<Longrightarrow> unat (of_nat n :: u64) * unat (of_nat m :: u64) = n * m"
  by (simp add: unat_of_nat take_bit_eq_mod)

lemma mul_u64_of_nat:
  assumes "n < 2 ^ 64" and "m < 2 ^ 64"
  shows "mul_u64 ovf (of_nat n) (of_nat m) =
    (if ovf \<and> 2 ^ 64 \<le> n * m then Panicked ''attempt to multiply with overflow''
     else Done (of_nat (n * m)))"
  using unat_mult_no_overflow [OF assms] by (simp add: mul_u64_def)

lemma u64_of_nat_mod: "(of_nat (m mod 2 ^ 64) :: u64) = of_nat m"
  by (simp add: word_of_nat_eq_iff take_bit_eq_mod)

lemma pow_1024_less: "k \<le> 6 \<Longrightarrow> (1024 :: nat) ^ k < 2 ^ 64"
  using power_increasing [of k 6 "1024 :: nat"] by simp

lemma pow_1000_less: "k \<le> 6 \<Longrightarrow> (1000 :: nat) ^ k < 2 ^ 64"
  using power_increasing [of k 6 "1000 :: nat"] by simp

lemma int_from_human_1M: "int_from_human ovf ''1M'' = Done 1048576"
proof -
  have "show_nat 1 @ ''M'' = ''1M''" "is_alpha (hd ''M'')" "to_lowercase ''M'' = ''m''"
    "human_pow ''m'' = 2" "\<not> contains_str ''m'' ''bit''"
    by code_simp+
  then show ?thesis
    using int_from_human_number [of 1 "''M''" ovf] by (simp add: mul_u64_def Let_def)
qed

lemma int_from_human_0: "int_from_human ovf ''0'' = Done 0"
proof -
  have "show_nat 0 @ human_suffix 0 = ''0''"
    by code_simp
  then show ?thesis
    using int_from_human_suffix [of 0 0 ovf] by (simp add: mul_u64_def)
qed

lemma posix_engine:
  "to_lowercase ''posix'' = ''posix''" "before_sep ''posix'' = ''posix''"
  "after_sep ''posix'' = ''posix''" "engine_of ''posix'' = 1"
  by code_simp+

text \<open>The start-up of a plain two argument transfer, used by the witnesses.\<close>

definition plain_flags :: EScp_Args where
  "plain_flags = EScp_Args_default\<lparr>ea_source := [''a'', ''h:b'']\<rparr>"

lemma start_escp_plain:
  "\<exists>args flags' verbose.
     start_escp False (\<lambda>_. None) (Done Map.empty) plain_flags = Done (args, flags', verbose, False)"
  by (simp add: start_escp_def plain_flags_def EScp_Args_default_def split_destination_def Let_def
      apply_config_def apply_flags_def posix_engine int_from_human_1M int_from_human_0 set_modes_def
      set_verbose_def)

section \<open>Properties\<close>

text \<open>
  A number with a unit letter out of k, m, g, t, p, e is the number times the
  matching power of 1024; with the suffix bit after the letter it is the number times the
  power of 1000, divided by 8. Both hold in either build profile whenever the product fits in
  64 bits.
\<close>

theorem int_from_human_units:
  assumes "n < 2 ^ 64" and "k \<le> 6"
  shows "(n * 1024 ^ k < 2 ^ 64 \<longrightarrow>
           int_from_human ovf (show_nat n @ human_suffix k) = Done (of_nat (n * 1024 ^ k))) \<and>
         (1 \<le> k \<longrightarrow> n * 1000 ^ k < 2 ^ 64 \<longrightarrow>
           int_from_human ovf (show_nat n @ human_suffix k @ ''bit'')
             = Done (of_nat (n * 1000 ^ k div 8)))"
proof -
  have "(of_nat m :: u64) div 8 = of_nat (m div 8)" if "m < 2 ^ 64" for m
    using that by (simp add: word_arith_nat_div unat_of_nat take_bit_eq_mod)
  from this [of "n * 1000 ^ k"] show ?thesis
    using assms mul_u64_of_nat [OF assms(1) pow_1024_less [OF assms(2)], of ovf]
      mul_u64_of_nat [OF assms(1) pow_1000_less [OF assms(2)], of ovf]
    by (auto simp: int_from_human_suffix int_from_human_bit_suffix)
qed

theorem int_from_human_units_witness:
  "int_from_human False (show_nat 3 @ human_suffix 2) = Done (of_nat (3 * 1024 ^ 2)) \<and>
   int_from_human True (show_nat 1 @ human_suffix 1 @ ''bit'') = Done (of_nat (1 * 1000 ^ 1 div 8))"
  using int_from_human_units [of 3 2 False] int_from_human_units [of 1 1 True] by simp

text \<open>
  When the product does not fit in 64 bits the debug build panics and the release
  build silently returns it modulo 2\<open>^\<close>64; a prefix that is not a number yields 0.
\<close>

theorem int_from_human_overflow:
  assumes "n < 2 ^ 64" and "k \<le> 6" and "2 ^ 64 \<le> n * 1024 ^ k"
  shows "int_from_human True (show_nat n @ human_suffix k)
           = Panicked ''attempt to multiply with overflow'' \<and>
         int_from_human False (show_nat n @ human_suffix k)
           = Done (of_nat (n * 1024 ^ k mod 2 ^ 64))"
  using assms mul_u64_of_nat [OF assms(1) pow_1024_less [OF assms(2)]] u64_of_nat_mod [of "n * 1024 ^ k"]
  by (simp add: int_from_human_suffix)

text \<open>
  The comment above \<open>int_from_human\<close> promises that \<open>1kbit\<close> is 1000. The code
  divides by 8, so the result is 125 in either profile, while the other two examples of the
  comment hold.
\<close>

theorem int_from_human_comment_examples:
  "int_from_human ovf ''1kbit'' = Done 125 \<and> int_from_human ovf ''1'' = Done 1 \<and>
   int_from_human ovf ''1M'' = Done 1048576"
proof -
  have s: "show_nat 1 = ''1''" "human_suffix 1 = ''k''" "human_suffix 0 = []"
    by code_simp+
  show ?thesis
    using int_from_human_bit_suffix [of 1 1 ovf] int_from_human_suffix [of 1 0 ovf]
    unfolding s by (simp add: mul_u64_def int_from_human_1M)
qed

text \<open>
  Claim C33. Whatever the command line and the configuration file hold, when \<open>start_escp\<close>
  hands over to the sender or the receiver the argument block is well formed: the block size
  is at least 256 KiB and positive as a C int (a size given as 2G or 4G has wrapped and been
  raised to the minimum), both engines exist, and the copy of the CPU mask stayed inside its
  32 bytes.
\<close>

theorem start_escp_args_wf:
  assumes "start_escp ovf hex_decode config flags = Done (args, flags', verbose, server)"
  shows "args_wf args \<and> server = ea_server flags \<and>
         (ea_source flags \<noteq> [] \<longrightarrow> ea_source flags' @ [ea_destination flags'] = ea_source flags)"
proof -
  obtain c b where b: "apply_config hex_decode c args_new = Done b"
    "apply_flags ovf flags' 0 b = Done (args, verbose)" "flags' = split_destination flags"
    "server = da_do_server args"
    by (rule start_escp_Done [OF assms]) blast
  have "length (da_cpumask_bytes b) = 32 \<and> 0 \<le> da_cpumask_len b \<and> da_cpumask_len b \<le> 32 \<and>
      da_crypto_key b = replicate 16 0"
    using apply_config_arrays [OF b(1)] by (simp add: args_new_def)
  then show ?thesis
    using apply_flags_Done [OF b(2)] b(3,4) split_destination_source [of flags]
    by (simp add: args_wf_def)
qed

theorem start_escp_args_wf_witness:
  "\<exists>args flags' verbose.
     start_escp False (\<lambda>_. None) (Done Map.empty) plain_flags = Done (args, flags', verbose, False) \<and>
     args_wf args"
  using start_escp_plain start_escp_args_wf [of False "\<lambda>_. None" "Done Map.empty" plain_flags] by blast

text \<open>
  Checksums are off unless \<open>--writechecksum\<close> is given, and \<open>--nochecksum\<close> switches
  them off again: without either flag \<open>do_hash\<close> is 0. The documentation says that by default
  the sender and the receiver compute and compare a checksum.
\<close>

theorem start_escp_checksum:
  assumes "start_escp ovf hex_decode config flags = Done (args, flags', verbose, server)"
  shows "da_do_hash args = (if ea_writechecksum flags \<and> \<not> ea_nochecksum flags then 2 else 0)"
proof -
  obtain c b where b: "apply_config hex_decode c args_new = Done b"
    "apply_flags ovf flags' 0 b = Done (args, verbose)" "flags' = split_destination flags"
    by (rule start_escp_Done [OF assms]) blast
  have "da_do_hash b = 0"
    using apply_config_arrays [OF b(1)] by (simp add: args_new_def)
  then show ?thesis
    using apply_flags_Done(8) [OF b(2)] b(3) by simp
qed

theorem start_escp_checksum_witness:
  "\<exists>args flags' verbose.
     start_escp False (\<lambda>_. None) (Done Map.empty) plain_flags = Done (args, flags', verbose, False) \<and>
     da_do_hash args = 0"
proof -
  obtain args flags' verbose where
    s: "start_escp False (\<lambda>_. None) (Done Map.empty) plain_flags = Done (args, flags', verbose, False)"
    using start_escp_plain by blast
  from start_escp_checksum [OF s] s show ?thesis
    by (auto simp: plain_flags_def EScp_Args_default_def)
qed

end
