(* ===== verification/Destination.thy ===== *)
theory Destination
  imports Command_Line
begin

text \<open>
  How the sender reads its destination argument and reaches the remote host: \<open>parse_dest\<close>, the
  argument vector of the ssh process that \<open>escp_sender\<close> spawns, and the clock format of the
  progress line (\<open>convert_time\<close>), all of \<open>src/escp/sender.rs\<close>.
\<close>

section \<open>parse\_dest\<close>

record DestParts =
  dp_user :: "string option"
  dp_host :: "string option"
  dp_port :: "u16 option"
  dp_dest :: "string option"
  dp_error :: "string option"

definition err_host :: string where
  "err_host = ''Host not specified. Expected [user@]host:[path]''"

text \<open>The two ways the URI branch returns, given the user and path found so far.\<close>

definition dest_fail :: "string option \<Rightarrow> string option \<Rightarrow> u16 option \<Rightarrow> string \<Rightarrow> DestParts" where
  "dest_fail user dest port e =
     \<lparr>dp_user = user, dp_host = None, dp_port = port, dp_dest = dest, dp_error = Some e\<rparr>"

definition dest_finish :: "string option \<Rightarrow> string option \<Rightarrow> string \<Rightarrow> u16 option \<Rightarrow> DestParts" where
  "dest_finish user dest host port =
     (if host = [] then dest_fail user dest port err_host
      else \<lparr>dp_user = user, dp_host = Some host, dp_port = port, dp_dest = dest, dp_error = None\<rparr>)"

text \<open>URI style: the host part is a bracketed IPv6 address or a name, with an optional port.\<close>

definition parse_host_port :: "string option \<Rightarrow> string option \<Rightarrow> string \<Rightarrow> DestParts" where
  "parse_host_port user dest rem2 =
     (if starts_with rem2 ''['' then
        (case rsplit_once CHR '']'' rem2 of
           Some (host_part, port_part) \<Rightarrow>
             if port_part \<noteq> [] then
               (case Option.bind (strip_prefix '':'' port_part) parse_u16 of
                  Some p \<Rightarrow> dest_finish user dest (tl host_part) (Some p)
                | None \<Rightarrow> dest_fail user dest None ''Parsing port'')
             else dest_finish user dest (tl host_part) None
         | None \<Rightarrow> dest_fail user dest None ''Bracketed IPv6 address is malformed'')
      else
        (case rsplit_once CHR '':'' rem2 of
           Some (host_part, port_part) \<Rightarrow> dest_finish user dest host_part (parse_u16 port_part)
         | None \<Rightarrow> dest_finish user dest rem2 None))"

definition parse_dest_uri :: "string \<Rightarrow> DestParts" where
  "parse_dest_uri rem0 =
     (let (user, rem1) = (case rsplit_once CHR ''@'' rem0 of
                            Some (user_part, rest) \<Rightarrow> (Some user_part, rest)
                          | None \<Rightarrow> (None, rem0))
      in case split_once CHR ''/'' rem1 of
           Some (host_port_part, path_part) \<Rightarrow> parse_host_port user (Some path_part) host_port_part
         | None \<Rightarrow> parse_host_port user None rem1)"

text \<open>The form \<open>[user@]host:[path]\<close>.\<close>

definition parse_dest_scp :: "string \<Rightarrow> DestParts" where
  "parse_dest_scp input =
     (case rsplit_once CHR '':'' input of
        None \<Rightarrow> \<lparr>dp_user = None, dp_host = None, dp_port = None, dp_dest = None,
                 dp_error = Some err_host\<rparr>
      | Some (user_host_part, path) \<Rightarrow>
          let (user, host) = (case rsplit_once CHR ''@'' user_host_part of
                                Some (user_part, host_part) \<Rightarrow> (Some user_part, host_part)
                              | None \<Rightarrow> (None, user_host_part))
          in if host = [] then
               \<lparr>dp_user = user, dp_host = None, dp_port = None, dp_dest = None,
                dp_error = Some err_host\<rparr>
             else
               \<lparr>dp_user = user,
                dp_host = Some (case Option.bind (strip_prefix ''['' host) (strip_suffix '']'') of
                                  Some s \<Rightarrow> s | None \<Rightarrow> host),
                dp_port = None, dp_dest = Some path, dp_error = None\<rparr>)"

definition parse_dest :: "string \<Rightarrow> DestParts" where
  "parse_dest input =
     (if input = [] then
        \<lparr>dp_user = None, dp_host = None, dp_port = None, dp_dest = None,
         dp_error = Some ''Nothing to parse''\<rparr>
      else case strip_prefix ''scp://'' input of
             Some rem0 \<Rightarrow> parse_dest_uri rem0
           | None \<Rightarrow> parse_dest_scp input)"

text \<open>The start of \<open>escp_sender\<close>: without a host the program ends.\<close>

definition sender_target :: "string \<Rightarrow> (string \<times> string option \<times> u16 option \<times> string option) outcome" where
  "sender_target destination =
     (let p = parse_dest destination
      in case dp_host p of None \<Rightarrow> Exited (-1) | Some host \<Rightarrow> Done (host, dp_dest p, dp_port p, dp_user p))"

section \<open>The ssh command line\<close>

definition opt_arg :: "string \<Rightarrow> string \<Rightarrow> string list" where
  "opt_arg flag v = (if v \<noteq> [] then [flag, v] else [])"

definition ssh_target :: "string option \<Rightarrow> string \<Rightarrow> string" where
  "ssh_target user host = (case user of Some u \<Rightarrow> u @ ''@'' @ host | None \<Rightarrow> host)"

definition ssh_args :: "EScp_Args \<Rightarrow> string option \<Rightarrow> string \<Rightarrow> u16 option \<Rightarrow> string list" where
  "ssh_args flags user host ssh_port =
     (let port_str = (case ssh_port of Some p \<Rightarrow> show_nat (unat p)
                      | None \<Rightarrow> show_nat (unat (ea_ssh_port flags)))
      in [ea_ssh flags, ''-p'', port_str]
         @ opt_arg ''-i'' (ea_identity flags)
         @ [''-t'']
         @ opt_arg ''-o'' (ea_ssh_option flags)
         @ (if ea_ipv4 flags then [''-4''] else [])
         @ (if ea_ipv6 flags then [''-6''] else [])
         @ (if ea_batch_mode flags then [''-o'', ''BatchMode=True''] else [])
         @ opt_arg ''-F'' (ea_ssh_config flags)
         @ opt_arg ''-J'' (ea_jump_host flags)
         @ opt_arg ''-c'' (ea_cipher flags)
         @ (if ea_agent flags then [''-A''] else [])
         @ [ssh_target user host]
         @ (if ea_verbose flags then [''RUST_BACKTRACE=1 '' @ ea_escp flags, ''-v'']
            else [ea_escp flags])
         @ [''--server''])"

section \<open>Times for the progress line\<close>

text \<open>\<open>{:02}\<close>: at least two characters, padded with zeros after the sign.\<close>

definition fmt02 :: "int \<Rightarrow> string" where
  "fmt02 n = (if 0 \<le> n \<and> n < 10 then CHR ''0'' # show_int n else show_int n)"

definition trunc_div :: "int \<Rightarrow> int \<Rightarrow> int" where
  "trunc_div a b = sgn a * (\<bar>a\<bar> div b)"

definition trunc_rem :: "int \<Rightarrow> int \<Rightarrow> int" where
  "trunc_rem a b = a - trunc_div a b * b"

text \<open>
  The float enters through what the source derives from it: \<open>t\<close> is \<open>ti as i64\<close>, \<open>frac3\<close> and
  \<open>frac2\<close> are \<open>ti % 1.0\<close> printed with three and with two decimals.
\<close>

definition convert_time :: "i64 \<Rightarrow> string \<Rightarrow> string \<Rightarrow> bool \<Rightarrow> string outcome" where
  "convert_time t frac3 frac2 precise =
     (if \<not> precise then
        (if t > 3600 then
           Done (fmt02 (trunc_div t 3600) @ '':'' @ fmt02 (trunc_rem (trunc_div t 60) 60) @ '':''
                 @ fmt02 (trunc_rem t 60))
         else Done (fmt02 (trunc_div t 60) @ '':'' @ fmt02 (trunc_rem t 60)))
      else if length frac3 < 3 then Panicked ''split_at''
      else
        (let suffix = drop 3 frac3
         in if t < 60 then Done (show_int t @ ''.'' @ suffix @ ''s'')
            else if t < 3600 then
              Done (show_int (trunc_div t 60) @ '':'' @ show_int (trunc_rem t 60) @ ''.'' @ suffix)
            else Done (fmt02 (trunc_div t 3600) @ '':'' @ fmt02 (trunc_rem (trunc_div t 60) 60)
                       @ '':'' @ fmt02 (trunc_rem t 60) @ ''.'' @ frac2)))"

text \<open>A destination URI printed from its parts.\<close>

definition uri_text :: "string option \<Rightarrow> string \<Rightarrow> u16 option \<Rightarrow> string option \<Rightarrow> string" where
  "uri_text user h port path =
     ''scp://'' @ ssh_target user h
       @ (case port of Some p \<Rightarrow> CHR '':'' # show_nat (unat p) | None \<Rightarrow> [])
       @ (case path of Some p \<Rightarrow> CHR ''/'' # p | None \<Rightarrow> [])"

section \<open>Lemmas\<close>

lemma parse_host_port_error_iff:
  "dp_host (parse_host_port u d r) = None \<longleftrightarrow> dp_error (parse_host_port u d r) \<noteq> None"
  by (simp add: parse_host_port_def dest_finish_def dest_fail_def split: option.split prod.split)

lemma parse_dest_scp_error_iff:
  "dp_host (parse_dest_scp s) = None \<longleftrightarrow> dp_error (parse_dest_scp s) \<noteq> None"
  by (simp add: parse_dest_scp_def split: option.split prod.split)

lemma rsplit_once_append [simp]: "c \<notin> set b \<Longrightarrow> rsplit_once c (a @ c # b) = Some (a, b)"
  by (simp add: rsplit_once_Some_iff)

lemma split_once_append [simp]: "c \<notin> set a \<Longrightarrow> split_once c (a @ c # b) = Some (a, b)"
  by (simp add: split_once_Some_iff)

lemma split_absent [simp]:
  "c \<notin> set s \<Longrightarrow> rsplit_once c s = None" "c \<notin> set s \<Longrightarrow> split_once c s = None"
  by (simp_all add: rsplit_once_None_iff split_once_None_iff)

lemma strip_prefix_append [simp]: "strip_prefix p (p @ s) = Some s"
  by (simp add: strip_prefix_Some_iff)

lemma starts_with_singleton: "starts_with s [c] \<longleftrightarrow> s \<noteq> [] \<and> hd s = c"
  by (cases s) auto

lemma bracket_strip_unbracketed:
  "hd h \<noteq> CHR ''['' \<Longrightarrow> Option.bind (strip_prefix ''['' h) f = None"
  by (cases h) (auto simp: strip_prefix_def)

text \<open>A host name as the URI and the scp form accept it.\<close>

definition plain_host :: "string \<Rightarrow> bool" where
  "plain_host h \<longleftrightarrow>
     h \<noteq> [] \<and> CHR ''@'' \<notin> set h \<and> CHR '':'' \<notin> set h \<and> CHR ''/'' \<notin> set h \<and> CHR ''['' \<notin> set h"

lemma plain_host_hd: "plain_host h \<Longrightarrow> hd h \<noteq> CHR ''[''"
  by (cases h) (auto simp: plain_host_def)

lemma plain_host_not_Nil: "plain_host h \<Longrightarrow> h \<noteq> []"
  by (simp add: plain_host_def)

lemma ssh_target_None: "ssh_target None h = h"
  by (simp add: ssh_target_def)

lemma rsplit_target:
  "plain_host h \<Longrightarrow>
     rsplit_once CHR ''@'' (ssh_target user h) = map_option (\<lambda>u. (u, h)) user"
  by (cases user) (simp_all add: ssh_target_def plain_host_def rsplit_once_None_iff)

section \<open>Properties\<close>

text \<open>
  \<open>parse_dest\<close> yields no host exactly when it reports an error, so the test of
  \<open>escp_sender\<close> on the host alone never drops a destination that parsed and never continues
  with one that did not.
\<close>

theorem parse_dest_error_iff:
  "dp_host (parse_dest input) = None \<longleftrightarrow> dp_error (parse_dest input) \<noteq> None"
  by (simp add: parse_dest_def parse_dest_uri_def parse_host_port_error_iff parse_dest_scp_error_iff
      split: option.split prod.split)

text \<open>The sender exits exactly on the destinations that \<open>parse_dest\<close> reports an error for, and otherwise never without a host.\<close>

lemma sender_target_exits:
  "sender_target d = Exited (-1) \<longleftrightarrow> dp_error (parse_dest d) \<noteq> None"
  using parse_dest_error_iff [of d] by (auto simp: sender_target_def Let_def split: option.splits)



lemma digits_not_punct:
  "CHR ''@'' \<notin> set (show_nat n)" "CHR '':'' \<notin> set (show_nat n)" "CHR ''/'' \<notin> set (show_nat n)"
  by (auto dest!: show_nat_is_digit simp: is_digit_def)

lemma parse_host_port_plain:
  assumes "plain_host h"
  shows "parse_host_port user dest (h @ (case port of Some p \<Rightarrow> CHR '':'' # show_nat (unat p) | None \<Rightarrow> []))
    = \<lparr>dp_user = user, dp_host = Some h, dp_port = port, dp_dest = dest, dp_error = None\<rparr>"
proof -
  have "\<not> starts_with (h @ s) ''[''" "\<not> starts_with h ''[''" for s
    using plain_host_hd [OF assms] plain_host_not_Nil [OF assms]
    by (simp_all add: starts_with_singleton)
  then show ?thesis
    using assms by (cases port)
      (simp_all add: parse_host_port_def dest_finish_def plain_host_def rsplit_once_None_iff
        digits_not_punct parse_u16_show)
qed

lemma rsplit_target_rest:
  assumes "plain_host h" and "CHR ''@'' \<notin> set rest"
  shows "rsplit_once CHR ''@'' (ssh_target user h @ rest) = map_option (\<lambda>u. (u, h @ rest)) user"
  using assms
  by (cases user) (simp_all add: ssh_target_def plain_host_def rsplit_once_None_iff)

lemma parse_dest_uri_split:
  "rsplit_once CHR ''@'' s = map_option (\<lambda>u. (u, r)) user \<Longrightarrow> (user = None \<Longrightarrow> s = r) \<Longrightarrow>
   parse_dest_uri s =
     (case split_once CHR ''/'' r of
        Some (a, b) \<Rightarrow> parse_host_port user (Some b) a | None \<Rightarrow> parse_host_port user None r)"
  by (cases user) (auto simp: parse_dest_uri_def split: option.splits)

text \<open>
  The URI form round-trips: \<open>scp://[user@]host[:port][/path]\<close> parses back into its
  parts for every plain host, every port and every path without an at sign.
\<close>

theorem parse_dest_uri_roundtrip:
  assumes "plain_host h" and "\<And>p. path = Some p \<Longrightarrow> CHR ''@'' \<notin> set p"
  shows "parse_dest (uri_text user h port path) =
    \<lparr>dp_user = user, dp_host = Some h, dp_port = port, dp_dest = path, dp_error = None\<rparr>"
proof -
  let ?port = "case port of Some p \<Rightarrow> CHR '':'' # show_nat (unat p) | None \<Rightarrow> []"
  let ?path = "case path of Some p \<Rightarrow> CHR ''/'' # p | None \<Rightarrow> []"
  have np: "CHR ''@'' \<notin> set (?port @ ?path)" "CHR ''/'' \<notin> set (h @ ?port)"
    using assms by (auto simp: digits_not_punct plain_host_def split: option.splits)
  have "parse_dest_uri (ssh_target user h @ ?port @ ?path) =
    (case split_once CHR ''/'' ((h @ ?port) @ ?path) of
       Some (a, b) \<Rightarrow> parse_host_port user (Some b) a
     | None \<Rightarrow> parse_host_port user None ((h @ ?port) @ ?path))"
    using rsplit_target_rest [OF assms(1) np(1), of user]
    by (intro parse_dest_uri_split) (simp_all add: ssh_target_None)
  also have "\<dots> = parse_host_port user path (h @ ?port)"
  proof (cases path)
    case None
    then show ?thesis
      using np(2) split_once_None_iff [of "CHR ''/''" "h @ ?port"] by simp
  next
    case (Some p)
    then show ?thesis
      using np(2) split_once_append [of "CHR ''/''" "h @ ?port" p] by simp
  qed
  finally show ?thesis
    using parse_host_port_plain [OF assms(1)]
    by (simp add: parse_dest_def uri_text_def strip_prefix_def)
qed

theorem parse_dest_uri_roundtrip_witness:
  "parse_dest (uri_text (Some ''bob'') ''dtn1'' (Some 2222) (Some ''data/x'')) =
    \<lparr>dp_user = Some ''bob'', dp_host = Some ''dtn1'', dp_port = Some 2222,
     dp_dest = Some ''data/x'', dp_error = None\<rparr>"
  by (rule parse_dest_uri_roundtrip) (auto simp: plain_host_def)

text \<open>
  A path or a URI that contains the separator it is split on last is taken apart at
  the wrong place: the last colon of an scp destination ends the host, and an at sign in the
  path of a URI makes everything before it the user, although the comment says that the path
  starts at the first slash.
\<close>

theorem parse_dest_separator_in_path:
  "dp_host (parse_dest (''h:/tmp/a:b'')) = Some ''h:/tmp/a'' \<and>
   dp_dest (parse_dest (''h:/tmp/a:b'')) = Some ''b'' \<and>
   dp_user (parse_dest (''scp://h/d@x'')) = Some ''h/d'' \<and>
   dp_host (parse_dest (''scp://h/d@x'')) = Some ''x''"
  by code_simp

text \<open>
  The ssh process is asked for the port of the URI when there is one and for the
  \<open>-P\<close> port otherwise; the remote command is the last argument group, it is preceded by the
  login target, and it always ends with \<open>--server\<close>.
\<close>

theorem ssh_args_shape:
  "\<exists>opts cmd. ssh_args flags user host port =
     [ea_ssh flags, ''-p'', show_nat (unat (case port of Some p \<Rightarrow> p | None \<Rightarrow> ea_ssh_port flags))]
       @ opts @ [ssh_target user host] @ cmd @ [''--server''] \<and>
     cmd = (if ea_verbose flags then [''RUST_BACKTRACE=1 '' @ ea_escp flags, ''-v'']
            else [ea_escp flags]) \<and>
     ''-t'' \<in> set opts \<and>
     (ea_identity flags \<noteq> [] \<longrightarrow> take 2 opts = [''-i'', ea_identity flags])"
proof -
  define opts where "opts = opt_arg ''-i'' (ea_identity flags) @ [''-t'']
    @ opt_arg ''-o'' (ea_ssh_option flags) @ (if ea_ipv4 flags then [''-4''] else [])
    @ (if ea_ipv6 flags then [''-6''] else [])
    @ (if ea_batch_mode flags then [''-o'', ''BatchMode=True''] else [])
    @ opt_arg ''-F'' (ea_ssh_config flags) @ opt_arg ''-J'' (ea_jump_host flags)
    @ opt_arg ''-c'' (ea_cipher flags) @ (if ea_agent flags then [''-A''] else [])"
  have "ssh_args flags user host port =
     [ea_ssh flags, ''-p'', show_nat (unat (case port of Some p \<Rightarrow> p | None \<Rightarrow> ea_ssh_port flags))]
       @ opts @ [ssh_target user host]
       @ (if ea_verbose flags then [''RUST_BACKTRACE=1 '' @ ea_escp flags, ''-v'']
          else [ea_escp flags]) @ [''--server'']"
    by (simp add: ssh_args_def opts_def split: option.split)
  moreover have "''-t'' \<in> set opts"
    by (simp add: opts_def)
  moreover have "ea_identity flags \<noteq> [] \<longrightarrow> take 2 opts = [''-i'', ea_identity flags]"
    by (simp add: opts_def opt_arg_def)
  ultimately show ?thesis
    by blast
qed

text \<open>
  The precise clock drops the tenths of a second: of the three printed decimals only
  the last two follow the point, so 5.123 seconds is shown as 5.23s, and from an hour on the
  fraction is printed with its own leading zero and point.
\<close>

theorem convert_time_fraction:
  "convert_time 5 ''0.123'' ''0.12'' True = Done ''5.23s'' \<and>
   convert_time 65 ''0.987'' ''0.99'' True = Done ''1:5.87'' \<and>
   convert_time 3661 ''0.500'' ''0.50'' True = Done ''01:01:01.0.50'' \<and>
   convert_time 3661 ''0.500'' ''0.50'' False = Done ''01:01:01''"
  by code_simp

end
