(* ===== verification/Meta_Channel.thy ===== *)
theory Meta_Channel
  imports Wire_Header Flat_Tables
begin

text \<open>
  The metadata channel between sender and receiver: how file lists, file statuses and error
  messages become frames (\<open>send_file_complete\<close> and \<open>iterate_files\<close> of \<open>sender.rs\<close>,
  \<open>send_file_completions\<close> and \<open>send_file_error\<close> of \<open>receiver.rs\<close>, \<open>parse_error\<close> of
  \<open>logging.rs\<close>) and how the other side opens them. Compression is the \<open>zstd_safe\<close> crate, a
  parameter with the two facts its documentation states: a compressed block fits the
  destination it was given, and it decompresses to the original into any large enough buffer.
\<close>

section \<open>The codec\<close>

text \<open>
  \<open>cd_junk\<close> is what the rest of a fixed-size destination array holds after decompression; the
  sender hands the whole array to \<open>flatbuffers::root\<close>.
\<close>

record 't codec =
  cd_fb :: "'t fbapi"
  cd_compress :: "nat \<Rightarrow> u8 list \<Rightarrow> u8 list option"
  cd_decompress :: "nat \<Rightarrow> u8 list \<Rightarrow> u8 list option"
  cd_junk :: "u8 list"

definition zstd_laws :: "'t codec \<Rightarrow> bool" where
  "zstd_laws C \<longleftrightarrow>
     (\<forall>cap buf c. cd_compress C cap buf = Some c \<longrightarrow>
        length c \<le> cap \<and> (\<forall>cap'. length buf \<le> cap' \<longrightarrow> cd_decompress C cap' c = Some buf))"

definition codec_laws :: "'t codec \<Rightarrow> bool" where
  "codec_laws C \<longleftrightarrow> fb_laws (cd_fb C) \<and> zstd_laws C"

section \<open>Sending\<close>

definition send_compressed :: "'t codec \<Rightarrow> nat \<Rightarrow> u16 \<Rightarrow> u8 list \<Rightarrow> u8 list outcome" where
  "send_compressed C cap ty buf =
     bind_outcome (unwrap ''Compression failed'' (cd_compress C cap buf))
       (\<lambda>dst. Done (meta_frame (to_header (of_nat (length dst)) ty) dst))"

definition file_list_bytes :: "'t codec \<Rightarrow> ESCP_file_list \<Rightarrow> u8 list" where
  "file_list_bytes C fl = fb_finish (cd_fb C) (ESCP_file_list_create fl)"

text \<open>\<open>iterate_files\<close>: a list of more than 160 bytes is compressed.\<close>

definition send_file_spec :: "'t codec \<Rightarrow> ESCP_file_list \<Rightarrow> u8 list outcome" where
  "send_file_spec C fl =
     (let buf = file_list_bytes C fl
      in if length buf > 160 then send_compressed C 49152 (msg_file_spec OR msg_compressed) buf
         else Done (meta_frame (to_header (of_nat (length buf)) msg_file_spec) buf))"

text \<open>The end of \<open>send_file_complete\<close>, and of the two senders of \<open>receiver.rs\<close>.\<close>

definition send_block_counts :: "'t codec \<Rightarrow> ESCP_file_list \<Rightarrow> u8 list outcome" where
  "send_block_counts C fl =
     send_compressed C 49152 (msg_file_spec OR msg_compressed) (file_list_bytes C fl)"

definition send_file_stat :: "'t codec \<Rightarrow> nat \<Rightarrow> ESCP_file_list \<Rightarrow> u8 list outcome" where
  "send_file_stat C cap fl = send_compressed C cap msg_file_stat (file_list_bytes C fl)"

definition send_messages :: "'t codec \<Rightarrow> Message list \<Rightarrow> u8 list outcome" where
  "send_messages C ms =
     send_compressed C 8192 (msg_message OR msg_compressed)
       (fb_finish (cd_fb C) (Message_list_create (Some ms)))"

definition send_empty :: "u16 \<Rightarrow> u8 list" where
  "send_empty ty = meta_frame (to_header 0 ty) []"

section \<open>Receiving\<close>

text \<open>The receiver opens a frame: body, decompressed when the flag is set, and plain type.\<close>

definition rx_open :: "'t codec \<Rightarrow> u8 list \<Rightarrow> (u32 \<times> u16 \<times> u8 list) outcome" where
  "rx_open C ptr =
     bind_outcome (meta_open ptr) (\<lambda>(sz, t, c).
       if t AND msg_compressed = msg_compressed then
         bind_outcome (unwrap ''decompress failed'' (cd_decompress C 131072 c))
           (\<lambda>d. Done (sz, t AND NOT msg_compressed, d))
       else Done (sz, t, c))"

definition rx_file_list :: "'t codec \<Rightarrow> u8 list \<Rightarrow> ESCP_file_list outcome" where
  "rx_file_list C c =
     bind_outcome (unwrap ''InvalidFlatbuffer'' (fb_root (cd_fb C) c))
       (\<lambda>t. Done (ESCP_file_list_view (cd_fb C) t))"

text \<open>The sender's side: the body of a status frame and of an error message.\<close>

definition tx_body :: "'t codec \<Rightarrow> nat \<Rightarrow> u8 list \<Rightarrow> u8 list outcome" where
  "tx_body C cap ptr =
     bind_outcome (meta_open ptr) (\<lambda>(sz, t, c).
       bind_outcome (unwrap ''decompress failed'' (cd_decompress C cap c))
         (\<lambda>d. Done (d @ cd_junk C)))"

definition tx_file_list :: "'t codec \<Rightarrow> u8 list \<Rightarrow> ESCP_file_list outcome" where
  "tx_file_list C ptr = bind_outcome (tx_body C 131072 ptr) (rx_file_list C)"

definition tx_messages :: "'t codec \<Rightarrow> u8 list \<Rightarrow> Message list option outcome" where
  "tx_messages C ptr =
     bind_outcome (tx_body C 16384 ptr) (\<lambda>b.
     bind_outcome (unwrap ''InvalidFlatbuffer'' (fb_root (cd_fb C) b))
       (\<lambda>t. Done (Message_list_view (cd_fb C) t)))"

section \<open>Lemmas\<close>

lemma send_compressed_Done:
  assumes "zstd_laws C" and "send_compressed C cap ty buf = Done frame" and "cap < 2 ^ 32"
  obtains dst where "meta_open frame = Done (of_nat (length dst), ty, dst)"
    and "\<And>cap'. length buf \<le> cap' \<Longrightarrow> cd_decompress C cap' dst = Some buf"
proof -
  obtain dst where c: "cd_compress C cap buf = Some dst"
    and f: "frame = meta_frame (to_header (of_nat (length dst)) ty) dst"
    using assms(2) by (auto simp: send_compressed_def)
  then have "length dst \<le> cap" and d: "\<And>cap'. length buf \<le> cap' \<Longrightarrow> cd_decompress C cap' dst = Some buf"
    using assms(1) unfolding zstd_laws_def by blast+
  then have "meta_open frame = Done (of_nat (length dst), ty, dst)"
    using f assms(3) by (simp add: meta_open_frame)
  with d show thesis
    using that by blast
qed

lemma rx_file_list_bytes:
  assumes "fb_laws (cd_fb C)"
  shows "rx_file_list C (file_list_bytes C fl @ junk) = Done fl"
  using list_tab.root_view [OF assms, of fl junk]
  by (auto simp: rx_file_list_def file_list_bytes_def)

lemmas msg_type_defs =
  msg_file_spec_def msg_file_stat_def msg_message_def msg_compressed_def msg_keepalive_def
  msg_session_complete_def

lemma msg_type_flags [simp]:
  "(msg_file_spec OR msg_compressed) AND msg_compressed = msg_compressed"
  "(msg_file_spec OR msg_compressed) AND NOT msg_compressed = msg_file_spec"
  "msg_file_spec AND msg_compressed \<noteq> msg_compressed"
  "msg_file_stat AND msg_compressed \<noteq> msg_compressed"
  by (simp_all add: msg_type_defs)

text \<open>What the receiver reads from a frame: its plain type and the file list in it.\<close>

definition rx_read :: "'t codec \<Rightarrow> u8 list \<Rightarrow> (u16 \<times> ESCP_file_list) outcome" where
  "rx_read C ptr =
     bind_outcome (rx_open C ptr) (\<lambda>(sz, t, c). bind_outcome (rx_file_list C c) (\<lambda>fl. Done (t, fl)))"

lemma rx_read_compressed:
  assumes "codec_laws C" and "length (file_list_bytes C fl) \<le> 131072"
    and "send_compressed C 49152 (msg_file_spec OR msg_compressed) (file_list_bytes C fl) = Done frame"
  shows "rx_read C frame = Done (msg_file_spec, fl)"
proof -
  have z: "zstd_laws C" and f: "fb_laws (cd_fb C)"
    using assms(1) by (simp_all add: codec_laws_def)
  have cap: "(49152 :: nat) < 2 ^ 32" by simp
  obtain dst where "meta_open frame = Done (of_nat (length dst), msg_file_spec OR msg_compressed, dst)"
    and "cd_decompress C 131072 dst = Some (file_list_bytes C fl)"
    using send_compressed_Done [OF z assms(3) cap] assms(2) by blast
  then show ?thesis
    using rx_file_list_bytes [OF f, of fl "[]"] by (simp add: rx_read_def rx_open_def)
qed

section \<open>The contract of a link\<close>

text \<open>
  What each direction of the channel promises: a value that was sent is what the other side
  reads, provided it is small enough for the reader's buffer.
\<close>

locale meta_link =
  fixes send :: "'c \<Rightarrow> 'a \<Rightarrow> u8 list outcome"
    and recv :: "'c \<Rightarrow> u8 list \<Rightarrow> 'b outcome"
    and laws :: "'c \<Rightarrow> bool"
    and fits :: "'c \<Rightarrow> 'a \<Rightarrow> bool"
    and expect :: "'a \<Rightarrow> 'b"
  assumes recv_send: "laws C \<Longrightarrow> fits C a \<Longrightarrow> send C a = Done frame \<Longrightarrow> recv C frame = Done (expect a)"
begin

lemma stream_delivers:
  assumes "laws C" and "list_all2 (\<lambda>a frame. fits C a \<and> send C a = Done frame) xs frames"
  shows "map (recv C) frames = map (\<lambda>a. Done (expect a)) xs"
  using assms(2) by (induction rule: list_all2_induct) (auto simp: recv_send [OF assms(1)])

lemma send_inject:
  assumes "laws C" and "fits C a" and "fits C b" and "send C a = Done frame" and "send C b = Done frame"
  shows "expect a = expect b"
  using recv_send [OF assms(1,2,4)] recv_send [OF assms(1,3,5)] by simp

end

definition list_fits :: "'t codec \<Rightarrow> ESCP_file_list \<Rightarrow> bool" where
  "list_fits C fl \<longleftrightarrow> length (file_list_bytes C fl) \<le> 131072"

definition messages_fit :: "'t codec \<Rightarrow> Message list \<Rightarrow> bool" where
  "messages_fit C ms \<longleftrightarrow> length (fb_finish (cd_fb C) (Message_list_create (Some ms))) \<le> 16384"

interpretation spec_link: meta_link send_file_spec rx_read codec_laws list_fits "\<lambda>fl. (msg_file_spec, fl)"
proof
  fix C :: "'t codec" and fl frame
  assume laws: "codec_laws C" and fits: "list_fits C fl" and sent: "send_file_spec C fl = Done frame"
  show "rx_read C frame = Done (msg_file_spec, fl)"
  proof (cases "length (file_list_bytes C fl) > 160")
    case True
    then show ?thesis
      using rx_read_compressed [OF laws] fits sent by (simp add: list_fits_def send_file_spec_def Let_def)
  next
    case False
    then have "meta_open frame = Done (of_nat (length (file_list_bytes C fl)), msg_file_spec, file_list_bytes C fl)"
      using sent by (auto simp: send_file_spec_def Let_def meta_open_frame)
    then show ?thesis
      using laws rx_file_list_bytes [of C fl "[]"]
      by (simp add: rx_read_def rx_open_def codec_laws_def)
  qed
qed

interpretation count_link: meta_link send_block_counts rx_read codec_laws list_fits
  "\<lambda>fl. (msg_file_spec, fl)"
  by unfold_locales (auto simp: send_block_counts_def list_fits_def intro: rx_read_compressed)

lemma tx_body_send:
  assumes "zstd_laws C" and "send_compressed C cap ty buf = Done frame" and "cap < 2 ^ 32"
    and "length buf \<le> cap'"
  shows "tx_body C cap' frame = Done (buf @ cd_junk C)"
proof -
  obtain dst where "meta_open frame = Done (of_nat (length dst), ty, dst)"
    and "cd_decompress C cap' dst = Some buf"
    using send_compressed_Done [OF assms(1-3)] assms(4) by blast
  then show ?thesis
    by (simp add: tx_body_def)
qed

interpretation stat_link: meta_link "\<lambda>C. send_file_stat C 100000" tx_file_list codec_laws list_fits
  "\<lambda>fl. fl"
proof
  fix C :: "'t codec" and fl frame
  assume laws: "codec_laws C" and fits: "list_fits C fl" and sent: "send_file_stat C 100000 fl = Done frame"
  have "tx_body C 131072 frame = Done (file_list_bytes C fl @ cd_junk C)"
    using laws fits sent
    by (intro tx_body_send) (auto simp: codec_laws_def list_fits_def send_file_stat_def)
  then show "tx_file_list C frame = Done fl"
    using laws by (simp add: tx_file_list_def rx_file_list_bytes codec_laws_def)
qed

interpretation error_link: meta_link "\<lambda>C. send_file_stat C 1000" tx_file_list codec_laws list_fits
  "\<lambda>fl. fl"
proof
  fix C :: "'t codec" and fl frame
  assume laws: "codec_laws C" and fits: "list_fits C fl" and sent: "send_file_stat C 1000 fl = Done frame"
  have "tx_body C 131072 frame = Done (file_list_bytes C fl @ cd_junk C)"
    using laws fits sent
    by (intro tx_body_send) (auto simp: codec_laws_def list_fits_def send_file_stat_def)
  then show "tx_file_list C frame = Done fl"
    using laws by (simp add: tx_file_list_def rx_file_list_bytes codec_laws_def)
qed

interpretation message_link: meta_link send_messages tx_messages codec_laws messages_fit Some
proof
  fix C :: "'t codec" and ms frame
  assume laws: "codec_laws C" and fits: "messages_fit C ms" and sent: "send_messages C ms = Done frame"
  have "tx_body C 16384 frame = Done (fb_finish (cd_fb C) (Message_list_create (Some ms)) @ cd_junk C)"
    using laws fits sent
    by (intro tx_body_send) (auto simp: codec_laws_def messages_fit_def send_messages_def)
  then show "tx_messages C frame = Done (Some ms)"
    using msgs_tab.root_view [of "cd_fb C" "Some ms" "cd_junk C"] laws
    by (auto simp: tx_messages_def codec_laws_def)
qed

section \<open>The laws can be met\<close>

text \<open>
  A codec that copies its input, over a table interface that encodes chosen tables in a few
  bytes.
\<close>

definition copy_codec :: "fbpush list list \<Rightarrow> fbpush list codec" where
  "copy_codec exs =
     \<lparr>cd_fb = short_api exs,
      cd_compress = (\<lambda>cap b. if length b \<le> cap then Some b else None),
      cd_decompress = (\<lambda>cap b. if length b \<le> cap then Some b else None), cd_junk = [0]\<rparr>"

lemma copy_codec_laws: "codec_laws (copy_codec exs)"
  by (auto simp: codec_laws_def zstd_laws_def copy_codec_def fb_laws_short)

lemma copy_codec_bytes [simp]:
  "file_list_bytes (copy_codec (ESCP_file_list_create fl # exs)) fl = [0]"
  "list_fits (copy_codec (ESCP_file_list_create fl # exs)) fl"
  "cd_compress (copy_codec exs') = (\<lambda>cap b. if length b \<le> cap then Some b else None)"
  by (simp_all add: file_list_bytes_def list_fits_def copy_codec_def short_api_def short_index_def)

definition demo_list :: ESCP_file_list where
  "demo_list = ESCP_file_listArgs_default
     \<lparr>fl_root := Some ''/dst'', fl_files := Some [FileArgs_default\<lparr>f_fino := 7, f_name := Some ''a''\<rparr>]\<rparr>"

section \<open>Properties\<close>

text \<open>
  Claim C26. Both kinds of file list that the sender emits, the specification of new files
  (compressed or not) and the block counts of finished ones, arrive at the receiver as the same
  plain message type with the same contents, frame by frame and in order, as long as each list
  fits the receiver's buffer of 131072 bytes.
\<close>

theorem file_lists_delivered:
  assumes "codec_laws C"
    and "list_all2 (\<lambda>fl frame. list_fits C fl \<and>
      (send_file_spec C fl = Done frame \<or> send_block_counts C fl = Done frame)) fls frames"
  shows "map (rx_read C) frames = map (\<lambda>fl. Done (msg_file_spec, fl)) fls"
  using assms(2)
  by (induction rule: list_all2_induct)
    (auto intro: spec_link.recv_send [OF assms(1)] count_link.recv_send [OF assms(1)])

theorem file_lists_delivered_witness:
  "map (rx_read (copy_codec [ESCP_file_list_create demo_list]))
     [meta_frame (to_header 1 msg_file_spec) [0],
      meta_frame (to_header 1 (msg_file_spec OR msg_compressed)) [0]]
   = [Done (msg_file_spec, demo_list), Done (msg_file_spec, demo_list)]"
proof -
  let ?C = "copy_codec [ESCP_file_list_create demo_list]"
  have "send_file_spec ?C demo_list = Done (meta_frame (to_header 1 msg_file_spec) [0])"
    and "send_block_counts ?C demo_list = Done (meta_frame (to_header 1 (msg_file_spec OR msg_compressed)) [0])"
    by (simp_all add: send_file_spec_def send_block_counts_def send_compressed_def)
  then show ?thesis
    using file_lists_delivered [OF copy_codec_laws, of "[ESCP_file_list_create demo_list]"
        "[demo_list, demo_list]"
        "[meta_frame (to_header 1 msg_file_spec) [0],
          meta_frame (to_header 1 (msg_file_spec OR msg_compressed)) [0]]"] by simp
qed

text \<open>
  Claim C27. The receiver's statuses, single errors and error messages arrive at the sender
  unchanged, although the sender reads them out of fixed-size arrays whose tail is whatever
  was there before.
\<close>

theorem statuses_delivered:
  assumes "codec_laws C"
  shows "(list_fits C fl \<longrightarrow> send_file_stat C 100000 fl = Done frame \<longrightarrow> tx_file_list C frame = Done fl) \<and>
    (list_fits C fl \<longrightarrow> send_file_stat C 1000 fl = Done frame \<longrightarrow> tx_file_list C frame = Done fl) \<and>
    (messages_fit C ms \<longrightarrow> send_messages C ms = Done frame \<longrightarrow> tx_messages C frame = Done (Some ms))"
  using stat_link.recv_send [OF assms] error_link.recv_send [OF assms]
    message_link.recv_send [OF assms] by blast

theorem statuses_delivered_witness:
  "tx_file_list (copy_codec [ESCP_file_list_create demo_list]) (meta_frame (to_header 1 msg_file_stat) [0])
   = Done demo_list"
  using statuses_delivered [OF copy_codec_laws, of "[ESCP_file_list_create demo_list]" demo_list
      "meta_frame (to_header 1 msg_file_stat) [0]" "[]"]
  by (simp add: send_file_stat_def send_compressed_def)

end
