(* ===== verification/File_Check.thy ===== *)
theory File_Check
  imports Meta_Channel "HOL-Library.Multiset"
begin

text \<open>
  How the sender learns that its files arrived: \<open>fc_worker\<close> (\<open>src/escp.rs\<close>) distributes the
  completions of the I/O workers over two channels, \<open>handle_msg_from_receiver\<close> compares the
  checksums the receiver reports with them, \<open>send_file_complete\<close> tells the receiver the block
  counts, and \<open>file_check\<close> runs the two (\<open>src/escp/sender.rs\<close>).

  A channel is the list of items sent so far with a flag for a dropped sending end. A receive
  on an empty open channel times out; where the source then tries again, the function has not
  returned on the items sent so far, which is the result \<open>Waiting\<close>.
\<close>

section \<open>State\<close>

text \<open>The fields of \<open>struct fc_info_struct\<close> that the Rust side uses.\<close>

record fc_info =
  fc_file_no :: u64
  fc_blocks :: u64
  fc_crc :: u32

record tx_check =
  ck_hm :: "fino \<Rightarrow> (i64 \<times> string) option"
  ck_files_ok :: nat
  ck_fc :: "(fino \<times> u32) list"
  ck_fc2 :: "(fino \<times> u64) list"
  ck_closed :: bool
  ck_inbox :: "u8 list list"
  ck_sent :: "u8 list list"

section \<open>fc\_worker\<close>

fun fc_worker :: "fc_info list \<Rightarrow> tx_check \<Rightarrow> tx_check" where
  "fc_worker [] s = s"
| "fc_worker (fc # fcs) s =
     (if fc_file_no fc = 0 then s\<lparr>ck_closed := True\<rparr>
      else fc_worker fcs (s\<lparr>ck_fc := ck_fc s @ [(fc_file_no fc, fc_crc fc)],
                            ck_fc2 := ck_fc2 s @ [(fc_file_no fc, fc_blocks fc)]\<rparr>))"

section \<open>handle\_msg\_from\_receiver\<close>

datatype wait_result = Found | Disconnected | Waiting_crc

text \<open>A checksum arrives: the name under the file number is kept.\<close>

definition put_crc ::
    "fino \<Rightarrow> u32 \<Rightarrow> (fino \<Rightarrow> (i64 \<times> string) option) \<Rightarrow> fino \<Rightarrow> (i64 \<times> string) option" where
  "put_crc f crc hm = hm(f \<mapsto> (uint crc, case hm f of Some (_, n) \<Rightarrow> n | None \<Rightarrow> []))"

definition has_crc :: "(fino \<Rightarrow> (i64 \<times> string) option) \<Rightarrow> fino \<Rightarrow> bool" where
  "has_crc hm f = (case hm f of Some (c, _) \<Rightarrow> c \<noteq> -1 | None \<Rightarrow> False)"

text \<open>The inner loop: until the map has the checksum of \<open>rx_fino\<close>.\<close>

fun wait_crc ::
    "bool \<Rightarrow> fino \<Rightarrow> (fino \<times> u32) list \<Rightarrow> (fino \<Rightarrow> (i64 \<times> string) option)
       \<Rightarrow> wait_result \<times> (fino \<times> u32) list \<times> (fino \<Rightarrow> (i64 \<times> string) option)" where
  "wait_crc closed rx_fino [] hm =
     (if has_crc hm rx_fino then (Found, [], hm)
      else (if closed then Disconnected else Waiting_crc, [], hm))"
| "wait_crc closed rx_fino ((tx_fino, crc) # items) hm =
     (if has_crc hm rx_fino then (Found, (tx_fino, crc) # items, hm)
      else let hm1 = put_crc tx_fino crc hm
           in if rx_fino = tx_fino then (Found, items, hm1)
              else wait_crc closed rx_fino items hm1)"

datatype check_result = Returned i64 | Waiting

text \<open>
  One entry of a status list. An error number ends the process; file number 0 with checksum 0
  confirms an empty file; otherwise the two checksums must agree.
\<close>

datatype entry_result = Confirmed | Mismatch | Lost | Blocked

definition check_entry :: "File \<Rightarrow> tx_check \<Rightarrow> (entry_result \<times> tx_check) outcome" where
  "check_entry e s =
     (if f_errno e > 0 then
        bind_outcome (unwrap ''unwrap on None'' (f_errmsg e)) (\<lambda>_.
        bind_outcome (unwrap ''unwrap on None'' (f_name e)) (\<lambda>_. Exited 1))
      else if f_fino e = 0 \<and> f_crc e = 0 then
        Done (Confirmed, s\<lparr>ck_files_ok := ck_files_ok s + 1\<rparr>)
      else
        (let (r, items, hm) = wait_crc (ck_closed s) (f_fino e) (ck_fc s) (ck_hm s);
             s1 = s\<lparr>ck_fc := items, ck_hm := hm\<rparr>
         in case r of
              Disconnected \<Rightarrow> Done (Lost, s1)
            | Waiting_crc \<Rightarrow> Done (Blocked, s1)
            | Found \<Rightarrow>
                bind_outcome (unwrap ''unwrap on None'' (hm (f_fino e))) (\<lambda>(crc, _).
                  if i64_as_u32 crc \<noteq> f_crc e then Done (Mismatch, s1)
                  else Done (Confirmed, s1\<lparr>ck_files_ok := ck_files_ok s + 1,
                                           ck_hm := hm(f_fino e := None)\<rparr>))))"

fun check_entries :: "File list \<Rightarrow> tx_check \<Rightarrow> (check_result \<times> tx_check) outcome" where
  "check_entries [] s = Done (Returned 1, s)"
| "check_entries (e # es) s =
     bind_outcome (check_entry e s) (\<lambda>(r, s1).
       case r of
         Confirmed \<Rightarrow> check_entries es s1
       | Mismatch \<Rightarrow> Done (Returned (-1), s1)
       | Lost \<Rightarrow> Done (Returned (-1), s1)
       | Blocked \<Rightarrow> Done (Waiting, s1))"

text \<open>
  A message other than a status: keepalives and unknown types are ignored, an error message
  of the receiver ends the process after it is printed.
\<close>

fun print_messages :: "Message list \<Rightarrow> unit outcome" where
  "print_messages [] = Done ()"
| "print_messages (m # ms) =
     bind_outcome (unwrap ''unwrap on None'' (m_code m)) (\<lambda>_.
     bind_outcome (unwrap ''unwrap on None'' (m_message m)) (\<lambda>_. print_messages ms))"

definition handle_other ::
    "'t codec \<Rightarrow> u16 \<Rightarrow> u8 list \<Rightarrow> tx_check \<Rightarrow> (check_result \<times> tx_check) outcome" where
  "handle_other C t ptr s =
     (if t \<noteq> msg_keepalive \<and> t AND 0x1f = msg_message then
        bind_outcome (tx_messages C ptr) (\<lambda>ml.
        bind_outcome (unwrap ''unwrap on None'' ml) (\<lambda>ms.
        bind_outcome (print_messages ms) (\<lambda>_. Exited 1)))
      else Done (Returned 1, s))"

text \<open>The message stays at the head of the inbox until \<open>meta_complete\<close>.\<close>

definition handle_msg_from_receiver ::
    "'t codec \<Rightarrow> tx_check \<Rightarrow> (check_result \<times> tx_check) outcome" where
  "handle_msg_from_receiver C s =
     (case ck_inbox s of
        [] \<Rightarrow> Done (Returned 0, s)
      | ptr # rest \<Rightarrow>
          bind_outcome (meta_open ptr) (\<lambda>(sz, t, c).
            if t \<noteq> msg_file_stat then handle_other C t ptr (s\<lparr>ck_inbox := rest\<rparr>)
            else bind_outcome (tx_file_list C ptr) (\<lambda>fs.
                 bind_outcome (unwrap ''unwrap on None'' (fl_files fs)) (\<lambda>es.
                 bind_outcome (check_entries es s) (\<lambda>(r, s1).
                   Done (r, if r = Returned 1 then s1\<lparr>ck_inbox := rest\<rparr> else s1))))))"

section \<open>send\_file\_complete\<close>

definition complete_batch :: nat where "complete_batch = 2601"

definition block_count_entry :: "fino \<times> u64 \<Rightarrow> File" where
  "block_count_entry = (\<lambda>(a, b). FileArgs_default\<lparr>f_fino := a, f_blocks := u64_as_i64 b\<rparr>)"

definition block_count_list :: "(fino \<times> u64) list \<Rightarrow> ESCP_file_list" where
  "block_count_list v =
     ESCP_file_listArgs_default\<lparr>fl_files := Some (map block_count_entry (sort_key fst v))\<rparr>"

text \<open>
  Items are taken until a timeout or until there are 2601 of them. A dropped channel that runs
  empty first makes the function return with what it collected.
\<close>

definition send_file_complete :: "'t codec \<Rightarrow> tx_check \<Rightarrow> tx_check outcome" where
  "send_file_complete C s =
     (let v = take complete_batch (ck_fc2 s);
          s1 = s\<lparr>ck_fc2 := drop complete_batch (ck_fc2 s)\<rparr>
      in if length v < complete_batch \<and> ck_closed s then Done s1
         else if v = [] then Done s1
         else bind_outcome (send_block_counts C (block_count_list v))
                (\<lambda>frame. Done (s1\<lparr>ck_sent := ck_sent s1 @ [frame]\<rparr>)))"

section \<open>file\_check\<close>

text \<open>
  \<open>time_left\<close> tells whether the deadline is still ahead after the message was handled. The
  sleep at the end has no effect on the state.
\<close>

definition file_check :: "'t codec \<Rightarrow> bool \<Rightarrow> tx_check \<Rightarrow> (check_result \<times> tx_check) outcome" where
  "file_check C time_left s =
     bind_outcome (handle_msg_from_receiver C s) (\<lambda>(res, s1).
       case res of
         Waiting \<Rightarrow> Done (Waiting, s1)
       | Returned r \<Rightarrow>
           if r < 0 then Done (Returned 0, s1)
           else if r = 0 \<and> time_left then
             bind_outcome (send_file_complete C s1) (\<lambda>s2. Done (Returned 1, s2))
           else Done (Returned 1, s1))"

section \<open>What the sender expects\<close>

text \<open>
  The checksum that a status of file \<open>f\<close> will be compared with: the one already in the map, or
  the one waiting in the channel.
\<close>

definition expects ::
    "(fino \<Rightarrow> (i64 \<times> string) option) \<Rightarrow> (fino \<times> u32) list \<Rightarrow> fino \<Rightarrow> u32 option" where
  "expects hm items f = (if has_crc hm f then Some (i64_as_u32 (fst (the (hm f)))) else map_of items f)"

definition expected :: "tx_check \<Rightarrow> fino \<Rightarrow> u32 option" where
  "expected s = expects (ck_hm s) (ck_fc s)"

text \<open>Each file completes once: a checksum still in the channel is not in the map.\<close>

definition fresh_items :: "(fino \<Rightarrow> (i64 \<times> string) option) \<Rightarrow> (fino \<times> u32) list \<Rightarrow> bool" where
  "fresh_items hm items \<longleftrightarrow> distinct (map fst items) \<and> (\<forall>g \<in> fst ` set items. \<not> has_crc hm g)"

definition fc_fresh :: "tx_check \<Rightarrow> bool" where
  "fc_fresh s \<longleftrightarrow> fresh_items (ck_hm s) (ck_fc s)"

text \<open>A list of statuses without errors, each for a file of its own.\<close>

definition plain_statuses :: "File list \<Rightarrow> bool" where
  "plain_statuses es \<longleftrightarrow>
     distinct (map f_fino es) \<and> (\<forall>e \<in> set es. f_fino e \<noteq> 0 \<and> f_errno e \<le> 0)"

section \<open>Lemmas\<close>

lemma fc_worker_eq:
  "fc_worker fcs s =
     s\<lparr>ck_fc := ck_fc s @ map (\<lambda>fc. (fc_file_no fc, fc_crc fc)) (takeWhile (\<lambda>fc. fc_file_no fc \<noteq> 0) fcs),
       ck_fc2 := ck_fc2 s @ map (\<lambda>fc. (fc_file_no fc, fc_blocks fc)) (takeWhile (\<lambda>fc. fc_file_no fc \<noteq> 0) fcs),
       ck_closed := (ck_closed s \<or> (\<exists>fc \<in> set fcs. fc_file_no fc = 0))\<rparr>"
  by (induction fcs s rule: fc_worker.induct) simp_all

lemma has_crc_put [simp]: "has_crc (put_crc t c hm) g \<longleftrightarrow> g = t \<or> has_crc hm g"
proof -
  have "uint c \<noteq> -1"
    using uint_ge_0 [of c] by linarith
  then show ?thesis
    by (auto simp: has_crc_def put_crc_def)
qed

lemma expects_put:
  assumes "fresh_items hm ((t, c) # items)"
  shows "expects (put_crc t c hm) items = expects hm ((t, c) # items)"
proof
  fix g
  show "expects (put_crc t c hm) items g = expects hm ((t, c) # items) g"
    using assms by (auto simp: expects_def fresh_items_def) (auto simp: put_crc_def)
qed

lemma wait_crc_spec:
  assumes "fresh_items hm items"
  shows "(\<exists>c items' hm'. expects hm items f = Some c \<and> wait_crc closed f items hm = (Found, items', hm') \<and>
      has_crc hm' f \<and> i64_as_u32 (fst (the (hm' f))) = c \<and>
      fresh_items hm' items' \<and> expects hm' items' = expects hm items) \<or>
    (\<exists>hm'. expects hm items f = None \<and>
      wait_crc closed f items hm = (if closed then Disconnected else Waiting_crc, [], hm'))"
  using assms
proof (induction closed f items hm rule: wait_crc.induct)
  case (1 closed f hm)
  then show ?case by (simp add: expects_def)
next
  case (2 closed f t c items hm)
  show ?case
  proof (cases "has_crc hm f")
    case True
    then show ?thesis
      using 2 by (simp add: expects_def)
  next
    case False
    have fr: "fresh_items (put_crc t c hm) items"
      using "2.prems" by (auto simp: fresh_items_def)
    note ex = expects_put [OF "2.prems"]
    show ?thesis
    proof (cases "f = t")
      case True
      moreover have "i64_as_u32 (fst (the (put_crc t c hm t))) = c"
        by (simp add: put_crc_def)
      moreover have "expects hm ((t, c) # items) t = Some c"
        using True False by (simp add: expects_def)
      ultimately show ?thesis
        using False fr ex by simp
    next
      case neq: False
      then have "wait_crc closed f ((t, c) # items) hm = wait_crc closed f items (put_crc t c hm)"
        using False by (simp add: Let_def)
      then show ?thesis
        using "2.IH" [OF False refl neq fr] ex by (simp only:)
    qed
  qed
qed

text \<open>One status, by what is expected of its file.\<close>

lemma check_entry_match:
  assumes "fc_fresh s" and "f_errno e \<le> 0" and "f_fino e \<noteq> 0" and "expected s (f_fino e) = Some (f_crc e)"
  shows "\<exists>s'. check_entry e s = Done (Confirmed, s') \<and> fc_fresh s' \<and> ck_files_ok s' = ck_files_ok s + 1 \<and>
    expected s' = (expected s)(f_fino e := None) \<and> ck_closed s' = ck_closed s"
proof -
  obtain items hm where w: "wait_crc (ck_closed s) (f_fino e) (ck_fc s) (ck_hm s) = (Found, items, hm)"
    "has_crc hm (f_fino e)" "i64_as_u32 (fst (the (hm (f_fino e)))) = f_crc e"
    "fresh_items hm items" "expects hm items = expected s"
    using wait_crc_spec [of "ck_hm s" "ck_fc s" "f_fino e" "ck_closed s"] assms
    by (auto simp: fc_fresh_def expected_def)
  obtain c n where cn: "hm (f_fino e) = Some (c, n)"
    using w(2) by (auto simp: has_crc_def split: option.splits)
  let ?s = "s\<lparr>ck_fc := items, ck_hm := hm(f_fino e := None), ck_files_ok := ck_files_ok s + 1\<rparr>"
  have "check_entry e s = Done (Confirmed, ?s)"
    using w cn assms(2,3) by (simp add: check_entry_def)
  moreover have hc: "has_crc (hm(f_fino e := None)) g \<longleftrightarrow> g \<noteq> f_fino e \<and> has_crc hm g" for g
    by (simp add: has_crc_def)
  have "f_fino e \<notin> fst ` set items"
    using w(2,4) by (auto simp: fresh_items_def)
  then have "expected ?s = (expects hm items)(f_fino e := None)"
    by (auto simp: expected_def expects_def hc fun_eq_iff map_of_eq_None_iff)
  moreover have "fc_fresh ?s"
    using w(4) by (auto simp: fc_fresh_def fresh_items_def hc)
  ultimately show ?thesis
    using w(5) by (intro exI [of _ ?s]) simp
qed

lemma check_entry_mismatch:
  assumes "fc_fresh s" and "f_errno e \<le> 0" and "f_fino e \<noteq> 0" and "expected s (f_fino e) = Some c"
    and "c \<noteq> f_crc e"
  shows "\<exists>s'. check_entry e s = Done (Mismatch, s') \<and> ck_files_ok s' = ck_files_ok s"
proof -
  obtain items hm where w: "wait_crc (ck_closed s) (f_fino e) (ck_fc s) (ck_hm s) = (Found, items, hm)"
    "has_crc hm (f_fino e)" "i64_as_u32 (fst (the (hm (f_fino e)))) = c"
    using wait_crc_spec [of "ck_hm s" "ck_fc s" "f_fino e" "ck_closed s"] assms
    by (auto simp: fc_fresh_def expected_def)
  obtain x n where "hm (f_fino e) = Some (x, n)"
    using w(2) by (auto simp: has_crc_def split: option.splits)
  then show ?thesis
    using w assms(2,3,5) by (simp add: check_entry_def)
qed

lemma check_entry_unknown:
  assumes "fc_fresh s" and "f_errno e \<le> 0" and "f_fino e \<noteq> 0" and "expected s (f_fino e) = None"
  shows "\<exists>s'. check_entry e s = Done (if ck_closed s then Lost else Blocked, s') \<and>
    ck_files_ok s' = ck_files_ok s"
  using wait_crc_spec [of "ck_hm s" "ck_fc s" "f_fino e" "ck_closed s"] assms
  by (auto simp: fc_fresh_def expected_def check_entry_def)

text \<open>A list of statuses whose files are all known.\<close>

lemma check_entries_spec:
  assumes "fc_fresh s" and "plain_statuses es" and "\<forall>e \<in> set es. expected s (f_fino e) \<noteq> None"
  shows "\<exists>s'. check_entries es s =
      Done (Returned (if \<forall>e \<in> set es. expected s (f_fino e) = Some (f_crc e) then 1 else -1), s') \<and>
    ((\<forall>e \<in> set es. expected s (f_fino e) = Some (f_crc e)) \<longrightarrow>
       ck_files_ok s' = ck_files_ok s + length es \<and> fc_fresh s' \<and>
       expected s' = (\<lambda>f. if f \<in> f_fino ` set es then None else expected s f))"
  using assms
proof (induction es arbitrary: s)
  case Nil
  then show ?case by simp
next
  case (Cons e es)
  have e: "f_errno e \<le> 0" "f_fino e \<noteq> 0" and es: "plain_statuses es" and new: "f_fino e \<notin> f_fino ` set es"
    using Cons.prems(2) by (auto simp: plain_statuses_def)
  obtain c where c: "expected s (f_fino e) = Some c"
    using Cons.prems(3) by auto
  show ?case
  proof (cases "c = f_crc e")
    case False
    then show ?thesis
      using check_entry_mismatch [OF Cons.prems(1) e c False] c by auto
  next
    case True
    then obtain s1 where s1: "check_entry e s = Done (Confirmed, s1)" "fc_fresh s1"
      "ck_files_ok s1 = ck_files_ok s + 1" "expected s1 = (expected s)(f_fino e := None)"
      using check_entry_match [OF Cons.prems(1) e] c by blast
    have same: "expected s1 (f_fino x) = expected s (f_fino x)" if "x \<in> set es" for x
    proof -
      have "f_fino x \<noteq> f_fino e"
        using new that by (metis image_eqI)
      with s1(4) show ?thesis by simp
    qed
    then have "\<forall>x \<in> set es. expected s1 (f_fino x) \<noteq> None"
      using Cons.prems(3) by simp
    from Cons.IH [OF s1(2) es this] obtain s' where
      s': "check_entries es s1 = Done (Returned (if \<forall>e \<in> set es. expected s (f_fino e) = Some (f_crc e) then 1 else -1), s')"
      "(\<forall>e \<in> set es. expected s (f_fino e) = Some (f_crc e)) \<longrightarrow>
         ck_files_ok s' = ck_files_ok s1 + length es \<and> fc_fresh s' \<and>
         expected s' = (\<lambda>f. if f \<in> f_fino ` set es then None else expected s1 f)"
      using same by auto
    show ?thesis
      using s1 s' c True by (intro exI [of _ s']) (auto simp: fun_eq_iff)
  qed
qed

lemma handle_status_frame:
  assumes "codec_laws C" and "list_fits C fl" and "fl_files fl = Some es"
    and "send_file_stat C cap fl = Done frame" and "cap \<in> {1000, 100000}"
    and "ck_inbox s = frame # rest"
  shows "handle_msg_from_receiver C s =
    bind_outcome (check_entries es s) (\<lambda>(r, s1).
      Done (r, if r = Returned 1 then s1\<lparr>ck_inbox := rest\<rparr> else s1))"
proof -
  have z: "zstd_laws C"
    using assms(1) by (simp add: codec_laws_def)
  have "cap < 2 ^ 32"
    using assms(5) by auto
  then obtain dst where "meta_open frame = Done (of_nat (length dst), msg_file_stat, dst)"
    using send_compressed_Done [OF z] assms(4) unfolding send_file_stat_def by metis
  moreover have "tx_file_list C frame = Done fl"
    using assms(4,5) stat_link.recv_send [OF assms(1,2)] error_link.recv_send [OF assms(1,2)] by auto
  ultimately show ?thesis
    using assms(3,6) by (simp add: handle_msg_from_receiver_def)
qed

lemma send_file_complete_open:
  assumes "\<not> ck_closed s" and "ck_fc2 s \<noteq> []"
  shows "send_file_complete C s =
    bind_outcome (send_block_counts C (block_count_list (take complete_batch (ck_fc2 s))))
      (\<lambda>frame. Done (s\<lparr>ck_fc2 := drop complete_batch (ck_fc2 s), ck_sent := ck_sent s @ [frame]\<rparr>))"
  using assms by (simp add: send_file_complete_def complete_batch_def)

section \<open>A small check\<close>

definition demo_status :: File where
  "demo_status = FileArgs_default\<lparr>f_fino := 7, f_crc := 0xAB\<rparr>"

definition demo_check :: tx_check where
  "demo_check =
     \<lparr>ck_hm = [7 \<mapsto> (-1, ''a'')], ck_files_ok = 0, ck_fc = [(3, 5), (7, 0xAB)], ck_fc2 = [(7, 1), (3, 2)],
      ck_closed = False, ck_inbox = [], ck_sent = []\<rparr>"

definition demo_error_entry :: File where
  "demo_error_entry =
     FileArgs_default\<lparr>f_fino := 7, f_name := Some ''a'', f_errmsg := Some [], f_errno := 13\<rparr>"

definition demo_error :: ESCP_file_list where
  "demo_error = ESCP_file_listArgs_default\<lparr>fl_files := Some [demo_error_entry], fl_fc_stat := True\<rparr>"

lemma demo_check_facts:
  "fc_fresh demo_check" "plain_statuses [demo_status]"
  "expected demo_check 7 = Some 0xAB" "f_fino demo_status = 7" "f_crc demo_status = 0xAB"
  by (simp_all add: demo_check_def demo_status_def fc_fresh_def fresh_items_def has_crc_def
      plain_statuses_def FileArgs_default_def expected_def expects_def)

section \<open>Properties\<close>

text \<open>
  Claim C11. Statuses are checked exactly: for a list of statuses of different files whose
  checksums the sender knows, already stored or still in the channel, handling it returns 1
  and confirms every file when all reported checksums are the expected ones, and returns -1
  when one of them differs. Confirmed files are forgotten, all others keep their checksum.
\<close>

theorem statuses_checked_exactly:
  assumes "fc_fresh s" and "plain_statuses es" and "\<forall>e \<in> set es. expected s (f_fino e) \<noteq> None"
  shows "\<exists>s'. check_entries es s =
      Done (Returned (if \<forall>e \<in> set es. expected s (f_fino e) = Some (f_crc e) then 1 else -1), s') \<and>
    ((\<forall>e \<in> set es. expected s (f_fino e) = Some (f_crc e)) \<longrightarrow>
       ck_files_ok s' = ck_files_ok s + length es \<and>
       expected s' = (\<lambda>f. if f \<in> f_fino ` set es then None else expected s f))"
  using check_entries_spec [OF assms] by blast

theorem statuses_checked_exactly_witness:
  "\<exists>s'. check_entries [demo_status] demo_check = Done (Returned 1, s') \<and> ck_files_ok s' = 1"
  using statuses_checked_exactly [of demo_check "[demo_status]"] demo_check_facts
  by (auto simp: demo_check_def)

text \<open>
  A file is never counted twice: after its status was confirmed, a second status of
  the same file is not confirmed on the checksums received so far; it waits, or fails when the
  channel is gone, and the count of good files stays.
\<close>

theorem status_not_counted_twice:
  assumes "fc_fresh s" and "f_errno e \<le> 0" and "f_fino e \<noteq> 0"
    and "check_entry e s = Done (Confirmed, s1)" and "f_fino e' = f_fino e" and "f_errno e' \<le> 0"
  shows "\<exists>s2. check_entry e' s1 = Done (if ck_closed s then Lost else Blocked, s2) \<and>
    ck_files_ok s2 = ck_files_ok s + 1"
proof -
  have "expected s (f_fino e) = Some (f_crc e)"
  proof (cases "expected s (f_fino e)")
    case None
    then show ?thesis
      using check_entry_unknown [OF assms(1-3)] assms(4) by (auto split: if_splits)
  next
    case (Some c)
    then show ?thesis
      using check_entry_mismatch [OF assms(1-3) Some] assms(4) by auto
  qed
  from check_entry_match [OF assms(1-3) this] assms(4) have
    "fc_fresh s1" "ck_files_ok s1 = ck_files_ok s + 1" "expected s1 (f_fino e) = None"
    "ck_closed s1 = ck_closed s"
    by auto
  then show ?thesis
    using check_entry_unknown [of s1 e'] assms(3,5,6) by auto
qed

text \<open>
  A receiver that could not write a file stops the sender: when the status list the
  receiver framed carries an error number with its name and message, handling it exits the
  process with code 1.
\<close>

theorem receiver_error_stops_sender:
  assumes "codec_laws C" and "list_fits C fl" and "fl_files fl = Some (e # es)"
    and "send_file_stat C 1000 fl = Done frame" and "ck_inbox s = frame # rest"
    and "f_errno e > 0" and "f_name e = Some n" and "f_errmsg e = Some m"
  shows "handle_msg_from_receiver C s = Exited 1"
  using handle_status_frame [OF assms(1-4) _ assms(5)] assms(6-8)
  by (simp add: check_entry_def)

theorem receiver_error_stops_sender_witness:
  "handle_msg_from_receiver (copy_codec [ESCP_file_list_create demo_error])
     (demo_check\<lparr>ck_inbox := [meta_frame (to_header 1 msg_file_stat) [0]]\<rparr>) = Exited 1"
proof (rule receiver_error_stops_sender [OF copy_codec_laws])
  show "list_fits (copy_codec [ESCP_file_list_create demo_error]) demo_error"
    by simp
  show "fl_files demo_error = Some [demo_error_entry]"
    by (simp add: demo_error_def ESCP_file_listArgs_default_def)
  show "send_file_stat (copy_codec [ESCP_file_list_create demo_error]) 1000 demo_error
      = Done (meta_frame (to_header 1 msg_file_stat) [0])"
    by (simp add: send_file_stat_def send_compressed_def)
  show "f_name demo_error_entry = Some ''a''" "f_errmsg demo_error_entry = Some []" "f_errno demo_error_entry > 0"
    by (simp_all add: demo_error_entry_def)
qed simp

text \<open>
  Claim C28. Block counts reach the receiver sorted by file number and complete: what
  \<open>send_file_complete\<close> takes from an open channel, at most 2601 items, is what the receiver
  decodes, in ascending order of file number, and the rest stays in the channel.
\<close>

theorem block_counts_sent:
  assumes "codec_laws C" and "\<not> ck_closed s" and "ck_fc2 s \<noteq> []"
    and "list_fits C (block_count_list (take complete_batch (ck_fc2 s)))"
    and "send_file_complete C s = Done s'"
  shows "\<exists>frame v. ck_sent s' = ck_sent s @ [frame] \<and> v \<noteq> [] \<and> length v \<le> 2601 \<and>
    sorted (map fst v) \<and> mset (ck_fc2 s) = mset v + mset (ck_fc2 s') \<and>
    rx_read C frame = Done (msg_file_spec,
      ESCP_file_listArgs_default\<lparr>fl_files := Some (map block_count_entry v)\<rparr>)"
proof -
  let ?v = "take complete_batch (ck_fc2 s)"
  obtain frame where f: "send_block_counts C (block_count_list ?v) = Done frame"
    and s': "s' = s\<lparr>ck_fc2 := drop complete_batch (ck_fc2 s), ck_sent := ck_sent s @ [frame]\<rparr>"
    using assms(5) unfolding send_file_complete_open [OF assms(2,3)] by auto
  have "rx_read C frame = Done (msg_file_spec, block_count_list ?v)"
    by (rule count_link.recv_send [OF assms(1,4) f])
  moreover have "mset (ck_fc2 s) = mset (sort_key fst ?v) + mset (ck_fc2 s')"
    by (simp add: s') (metis append_take_drop_id mset_append)
  moreover have "sort_key fst ?v \<noteq> []"
  proof -
    have "length (sort_key fst ?v) = length ?v" by simp
    moreover have "?v \<noteq> []" using assms(3) by (simp add: complete_batch_def)
    ultimately show ?thesis by (metis length_0_conv)
  qed
  ultimately show ?thesis
    by (intro exI [of _ frame] exI [of _ "sort_key fst ?v"])
      (simp add: s' block_count_list_def complete_batch_def)
qed

theorem block_counts_sent_witness:
  "\<exists>s' frame. \<exists>v :: (fino \<times> u64) list.
     send_file_complete (copy_codec [ESCP_file_list_create (block_count_list [(7, 1), (3, 2)])])
       demo_check = Done s' \<and> ck_sent s' = [frame] \<and> sorted (map fst v) \<and> mset [(7, 1), (3, 2)] = mset v"
proof -
  let ?C = "copy_codec [ESCP_file_list_create (block_count_list [(7, 1), (3, 2)])]"
  have t: "take complete_batch (ck_fc2 demo_check) = [(7, 1), (3, 2)]" "\<not> ck_closed demo_check"
    "ck_fc2 demo_check \<noteq> []" "ck_sent demo_check = []" "ck_fc2 demo_check = [(7, 1), (3, 2)]"
    "drop complete_batch (ck_fc2 demo_check) = []"
    by (simp_all add: demo_check_def complete_batch_def)
  have s': "\<exists>frame. send_file_complete ?C demo_check = Done (demo_check\<lparr>ck_fc2 := [], ck_sent := [frame]\<rparr>)"
    unfolding send_file_complete_open [OF t(2,3)] t(1,6) t(4)
    by (simp add: send_block_counts_def send_compressed_def) blast
  then obtain frame where s': "send_file_complete ?C demo_check = Done (demo_check\<lparr>ck_fc2 := [], ck_sent := [frame]\<rparr>)"
    by blast
  from block_counts_sent [OF copy_codec_laws t(2,3) _ s'] show ?thesis
    using s' t by auto
qed

text \<open>
  A dropped completion channel loses block counts: when \<open>fc_worker\<close> has ended and
  fewer than 2601 items are left, \<open>send_file_complete\<close> takes all of them out of the channel and
  returns without sending any.
\<close>

theorem block_counts_lost_on_disconnect:
  "ck_closed s \<Longrightarrow> length (ck_fc2 s) < 2601 \<Longrightarrow>
   send_file_complete C s = Done (s\<lparr>ck_fc2 := []\<rparr>)"
  by (simp add: send_file_complete_def complete_batch_def)

end
