(* ===== verification/Error_Log.thy ===== *)
theory Error_Log
  imports File_Check Command_Line
begin

text \<open>
  \<open>src/escp/logging.rs\<close>: where the log goes (\<open>initialize_logging\<close>), the thread that drains the log
  and the errors of the C workers (\<open>initialize_clog\<close>), and how the receiver turns an error line of
  a worker into a message to the sender (\<open>parse_error\<close>).
\<close>

section \<open>Where the log goes\<close>

datatype log_sink = Syslog nat string | Log_file string

text \<open>The regular expression \<open>^LOCAL[0-7]$\<close> and the number behind it.\<close>

definition syslog_facility :: "string \<Rightarrow> nat option" where
  "syslog_facility base_path =
     (case strip_prefix ''LOCAL'' base_path of
        Some [c] \<Rightarrow>
          let d = (of_char c :: nat) in if 48 \<le> d \<and> d \<le> 55 then Some (d - 48) else None
      | _ \<Rightarrow> None)"

text \<open>
  \<open>MyLogger::log\<close>: the line of a record (\<open>now\<close> is the formatted time), and what is handed to
  \<open>write(2)\<close>: a line with a NUL in it is no C string and is not written.
\<close>

definition hex_digit :: "nat \<Rightarrow> char" where
  "hex_digit d = (if d < 10 then digit_char d else char_of (55 + d))"

definition hex08 :: "u64 \<Rightarrow> string" where
  "hex08 v = map (\<lambda>i. hex_digit (unat (take_bit 4 (drop_bit (4 * i) v)))) (rev [0..<8])"

definition logger_line :: "string \<Rightarrow> u64 \<Rightarrow> string \<Rightarrow> string \<Rightarrow> string" where
  "logger_line now session_id level text =
     now @ '' ['' @ hex08 (session_id AND 0xFFFFFFFF) @ ''] ['' @ level @ ''] '' @ text @ [char_of (10 :: nat)]"

definition logger_log :: "string \<Rightarrow> u64 \<Rightarrow> string \<Rightarrow> string \<Rightarrow> string option" where
  "logger_log now session_id level text =
     (let m = logger_line now session_id level text in if char_of (0 :: nat) \<in> set m then None else Some m)"

section \<open>Error lines\<close>

text \<open>
  The first match of \<open>\\[en: [(0-9)]+\<close> or \<open>\\[fn: [(0-9)]+\<close>: the characters behind the tag and the
  offset where the match ends. The class has the parentheses in it.
\<close>

definition tag_char :: "char \<Rightarrow> bool" where
  "tag_char c \<longleftrightarrow> is_digit c \<or> c = CHR ''('' \<or> c = CHR '')''"

fun find_tag :: "string \<Rightarrow> string \<Rightarrow> (string \<times> nat) option" where
  "find_tag tag [] = None"
| "find_tag tag (c # cs) =
     (let ds = takeWhile tag_char (drop (length tag) (c # cs))
      in if starts_with (c # cs) tag \<and> ds \<noteq> [] then Some (ds, length tag + length ds)
         else map_option (\<lambda>(ds, n). (ds, n + 1)) (find_tag tag cs))"

definition tag_number :: "(string \<times> nat) option \<Rightarrow> i32 outcome" where
  "tag_number m =
     (case m of None \<Rightarrow> Done 0 | Some (ds, n) \<Rightarrow> unwrap ''unwrap on Err'' (parse_i32 ds))"

definition tag_end :: "(string \<times> nat) option \<Rightarrow> nat" where
  "tag_end m = (case m of None \<Rightarrow> 0 | Some (ds, n) \<Rightarrow> n)"

definition error_message :: "i32 \<Rightarrow> i32 \<Rightarrow> string \<Rightarrow> Message" where
  "error_message fino errno text =
     MessageArgs_default\<lparr>m_is_error := True, m_message := Some text, m_code := Some [fino, errno]\<rparr>"

definition parse_error_message :: "string \<Rightarrow> Message outcome" where
  "parse_error_message errmsg =
     (let en = find_tag ''[en: '' errmsg; fn = find_tag ''[fn: '' errmsg
      in bind_outcome (tag_number en) (\<lambda>errno.
         bind_outcome (tag_number fn) (\<lambda>fino.
           let end0 = max (tag_end en) (tag_end fn); end1 = (if end0 > 0 then end0 + 2 else 0)
           in if end1 > length errmsg then Panicked ''failed to slice string''
              else Done (error_message fino errno (drop end1 errmsg)))))"

definition parse_error :: "'t codec \<Rightarrow> string \<Rightarrow> u8 list outcome" where
  "parse_error C errmsg = bind_outcome (parse_error_message errmsg) (\<lambda>m. send_messages C [m])"

section \<open>The thread that drains the queues of the C library\<close>

definition is_space :: "char \<Rightarrow> bool" where
  "is_space c \<longleftrightarrow> (let n = (of_char c :: nat) in n = 32 \<or> 9 \<le> n \<and> n \<le> 13)"

definition trim :: "string \<Rightarrow> string" where
  "trim s = rev (dropWhile is_space (rev (dropWhile is_space s)))"

definition split_tag :: "string \<Rightarrow> (string \<times> string) outcome" where
  "split_tag msg =
     (let d = trim msg
      in if length d < 6 then Panicked ''failed to slice string'' else Done (take 6 d, drop 6 d))"

datatype log_line = Debug_line string | Info_line string | Error_line string

record clog =
  cl_delay :: nat
  cl_lines :: "log_line list"
  cl_sent :: "u8 list list"

text \<open>
  One turn of the loop: a log line, else an error line, else a sleep. \<open>scale\<close> is the
  multiplication by 1.293 in \<open>f64\<close>.
\<close>

definition clog_step ::
    "'t codec \<Rightarrow> (nat \<Rightarrow> nat) \<Rightarrow> bool \<Rightarrow> string option \<Rightarrow> string option \<Rightarrow> clog \<Rightarrow> clog outcome" where
  "clog_step C scale do_server log err s =
     (case log of
        Some msg \<Rightarrow>
          bind_outcome (split_tag msg) (\<lambda>(a, b).
            let line = ''[C] '' @ b @ '' ''
            in Done (s\<lparr>cl_delay := 10, cl_lines := cl_lines s @
                 [if contains_str a ''[DBG]'' then Debug_line line else Info_line ('' '' @ line)]\<rparr>))
      | None \<Rightarrow>
          (case err of
             Some msg \<Rightarrow>
               bind_outcome (split_tag msg) (\<lambda>(a, b).
               bind_outcome (if do_server then map_outcome (\<lambda>f. [f]) (parse_error C b) else Done []) (\<lambda>fs.
                 Done (s\<lparr>cl_delay := 10, cl_sent := cl_sent s @ fs,
                         cl_lines := cl_lines s @ [Error_line (''[C] '' @ b @ '' '')]\<rparr>)))
           | None \<Rightarrow>
               let d = scale (cl_delay s)
               in Done (s\<lparr>cl_delay := (if d > 15000 then d div 2 else d)\<rparr>)))"

text \<open>The loop from its start, over the turns to come: the log line and the error line each finds.\<close>

definition clog_start :: clog where
  "clog_start = \<lparr>cl_delay = 10, cl_lines = [], cl_sent = []\<rparr>"

fun clog_run ::
    "'t codec \<Rightarrow> (nat \<Rightarrow> nat) \<Rightarrow> bool \<Rightarrow> (string option \<times> string option) list \<Rightarrow> clog \<Rightarrow> clog outcome" where
  "clog_run C scale do_server [] s = Done s"
| "clog_run C scale do_server ((log, err) # turns) s =
     bind_outcome (clog_step C scale do_server log err s) (clog_run C scale do_server turns)"

section \<open>Starting the log\<close>

text \<open>
  \<open>syslog\<close> and \<open>open_log\<close> are the connection to the system log and \<open>open(2)\<close>. The result has the
  logger that was installed, if any, with the debug level, the thread that drains the queues of the
  C library, and the arguments. The function returns before it spawns the thread when there is no log
  file or the log cannot be opened.
\<close>

definition initialize_logging ::
    "bool \<Rightarrow> (string \<Rightarrow> i32) \<Rightarrow> bool \<Rightarrow> string \<Rightarrow> dtn_args \<Rightarrow>
     ((log_sink \<times> bool) option \<times> clog option \<times> dtn_args) outcome" where
  "initialize_logging syslog open_log verbose_logging base_path args =
     (if base_path = [] then Done (None, None, args)
      else let ident = (if da_do_server args then ''.server'' else ''.client'')
           in case syslog_facility base_path of
                Some n \<Rightarrow>
                  if syslog then Done (Some (Syslog n (''escp'' @ ident), verbose_logging), Some clog_start, args)
                  else Done (None, None, args)
              | None \<Rightarrow>
                  if char_of (0 :: nat) \<in> set base_path then Panicked ''NulError''
                  else let fd = open_log (base_path @ ident)
                       in if fd < 0 then Done (None, None, args)
                          else Done (Some (Log_file (base_path @ ident), verbose_logging), Some clog_start,
                                     args\<lparr>da_logging_fd := fd\<rparr>))"

text \<open>What the thread does with the lines of the C library. None: there is no thread, and nobody reads them.\<close>

definition drain_errors ::
    "'t codec \<Rightarrow> (nat \<Rightarrow> nat) \<Rightarrow> dtn_args \<Rightarrow> (string option \<times> string option) list \<Rightarrow> clog option \<Rightarrow> clog option outcome" where
  "drain_errors C scale args turns thread =
     (case thread of
        None \<Rightarrow> Done None
      | Some s \<Rightarrow> map_outcome Some (clog_run C scale (da_do_server args) turns s))"


section \<open>Lemmas\<close>

lemma clog_run_append:
  "clog_run C scale b (xs @ ys) s = bind_outcome (clog_run C scale b xs s) (clog_run C scale b ys)"
proof (induction xs arbitrary: s)
  case (Cons x xs)
  obtain log err where "x = (log, err)"
    by (cases x)
  then show ?case
    using Cons by (cases "clog_step C scale b log err s") simp_all
qed simp

lemma logging_started:
  assumes "initialize_logging sys op v base args = Done (lg, thread, args')"
  shows "da_do_server args' = da_do_server args \<and> thread = (if lg = None then None else Some clog_start)"
  using assms by (auto simp: initialize_logging_def Let_def split: if_splits option.splits)

text \<open>The error line of a writing worker (\<open>VRFY\<close> in \<open>libdtn/src/dtn.c\<close>) behind its level tag.\<close>

definition worker_line :: "string \<Rightarrow> nat \<Rightarrow> nat \<Rightarrow> string \<Rightarrow> string" where
  "worker_line tid e f body =
     ''['' @ tid @ ''] [en: '' @ show_nat e @ ''] [fn: '' @ show_nat f @ ''] '' @ body"

definition thread_id :: "string \<Rightarrow> bool" where
  "thread_id tid \<longleftrightarrow> (\<forall>c \<in> set tid. is_digit c \<or> c = CHR '' '')"

text \<open>Exactly the records with a NUL in their text are lost, such as those that name a file with a destination name.\<close>

lemma hex08_no_nul: "char_of (0 :: nat) \<notin> set (hex08 v)"
proof -
  have "\<forall>d \<in> set [0..<16]. char_of (0 :: nat) \<noteq> hex_digit d"
    by code_simp
  moreover have "unat (take_bit 4 w) < 16" for w :: u64
    by (simp add: take_bit_eq_mod unat_mod)
  ultimately show ?thesis
    by (auto simp: hex08_def)
qed

lemma nul_char: "char_of (0 :: nat) = Char False False False False False False False False"
  by (simp add: char_of_def)

lemma logger_log_lost:
  assumes "char_of (0 :: nat) \<notin> set now" and "char_of (0 :: nat) \<notin> set level"
  shows "logger_log now sid level text = None \<longleftrightarrow> char_of (0 :: nat) \<in> set text"
  using assms hex08_no_nul by (auto simp: logger_log_def logger_line_def Let_def nul_char char_of_def)

lemma find_tag_skip:
  assumes "CHR ''['' \<notin> set p"
  shows "find_tag (CHR ''['' # t) (p @ s) =
    map_option (\<lambda>(ds, n). (ds, n + length p)) (find_tag (CHR ''['' # t) s)"
  using assms
proof (induction p)
  case Nil
  then show ?case by (cases "find_tag (CHR ''['' # t) s") auto
next
  case (Cons c p)
  then have "c \<noteq> CHR ''[''"
    by auto
  then show ?case
    using Cons by (simp add: Let_def starts_with_iff option.map_comp comp_def case_prod_unfold)
qed

lemma find_tag_here:
  assumes "takeWhile tag_char s = ds" and "ds \<noteq> []" and "tag \<noteq> []"
  shows "find_tag tag (tag @ s) = Some (ds, length tag + length ds)"
proof (cases tag)
  case (Cons c cs)
  moreover have "starts_with (tag @ s) tag"
    by (simp add: starts_with_iff)
  ultimately show ?thesis
    using assms(1,2) by (simp add: Let_def)
qed (use assms(3) in simp)

lemma takeWhile_tag_number:
  "takeWhile tag_char (show_nat n @ CHR '']'' # rest) = show_nat n"
  by (subst takeWhile_append2) (auto simp: tag_char_def is_digit_def dest: show_nat_is_digit)

lemma number_no_bracket: "CHR ''['' \<notin> set (show_nat n)"
  by (auto dest!: show_nat_is_digit simp: is_digit_def)

lemma thread_no_bracket: "thread_id tid \<Longrightarrow> CHR ''['' \<notin> set tid"
  by (auto simp: thread_id_def is_digit_def)

lemma find_tag_other:
  "c \<noteq> d \<Longrightarrow> find_tag (CHR ''['' # c # t) (CHR ''['' # d # s) =
     map_option (\<lambda>(ds, n). (ds, n + 1)) (find_tag (CHR ''['' # c # t) (d # s))"
  by (simp add: Let_def starts_with_iff)

lemma worker_line_tags:
  assumes "thread_id tid" and "tid \<noteq> []"
  shows "find_tag ''[en: '' (worker_line tid e f body) = Some (show_nat e, length tid + 8 + length (show_nat e))"
    and "find_tag ''[fn: '' (worker_line tid e f body) =
      Some (show_nat f, length tid + 15 + length (show_nat e) + length (show_nat f))"
proof -
  obtain c cs where tid: "tid = c # cs"
    using assms(2) by (cases tid) auto
  then have c: "CHR ''e'' \<noteq> c" "CHR ''f'' \<noteq> c"
    using assms(1) by (auto simp: thread_id_def is_digit_def)
  have skip: "find_tag (CHR ''['' # t) (tid @ '']'' @ '' '' @ s) =
      map_option (\<lambda>(ds, n). (ds, n + (length tid + 2))) (find_tag (CHR ''['' # t) s)" for t s
    using find_tag_skip [of "tid @ ''] ''" t s] thread_no_bracket [OF assms(1)] by simp
  have here: "find_tag tag (tag @ show_nat n @ CHR '']'' # rest) = Some (show_nat n, length tag + length (show_nat n))"
    if "tag \<noteq> []" for tag n rest
    by (rule find_tag_here [OF takeWhile_tag_number _ that]) simp
  have past: "find_tag ''[fn: '' (''[en: '' @ show_nat e @ ''] '' @ s) =
      map_option (\<lambda>(ds, n). (ds, n + (length (show_nat e) + 7))) (find_tag ''[fn: '' s)" for s
    using find_tag_skip [of "''en: '' @ show_nat e @ ''] ''" "''fn: ''" s] number_no_bracket [of e]
    by (cases "find_tag ''[fn: '' s") (auto simp: find_tag_other option.map_comp comp_def case_prod_unfold simp del: find_tag.simps)
  show "find_tag ''[en: '' (worker_line tid e f body) = Some (show_nat e, length tid + 8 + length (show_nat e))"
    using skip [of "''en: ''"] here [of "''[en: ''" e]
    by (simp add: worker_line_def tid find_tag_other [OF c(1)] del: find_tag.simps)
  show "find_tag ''[fn: '' (worker_line tid e f body) =
      Some (show_nat f, length tid + 15 + length (show_nat e) + length (show_nat f))"
    using skip [of "''fn: ''"] past here [of "''[fn: ''" f]
    by (simp add: worker_line_def tid find_tag_other [OF c(2)] del: find_tag.simps)
qed

lemma parse_worker_line:
  assumes "thread_id tid" and "tid \<noteq> []"
  shows "parse_error_message (worker_line tid e f body) =
    (if e < 2 ^ 31 \<and> f < 2 ^ 31 then Done (error_message (int f) (int e) body) else Panicked ''unwrap on Err'')"
proof -
  define hd where "hd = ''['' @ tid @ ''] [en: '' @ show_nat e @ ''] [fn: '' @ show_nat f @ ''] ''"
  have "worker_line tid e f body = hd @ body"
    and "length hd = length tid + 17 + length (show_nat e) + length (show_nat f)"
    by (simp_all add: worker_line_def hd_def)
  then have "drop (length tid + 17 + length (show_nat e) + length (show_nat f)) (worker_line tid e f body) = body"
    and "length tid + 17 + length (show_nat e) + length (show_nat f) \<le> length (worker_line tid e f body)"
    by simp_all
  then show ?thesis
    by (simp add: parse_error_message_def worker_line_tags [OF assms] tag_number_def tag_end_def
      parse_i32_show_nat Let_def ac_simps)
qed

lemma error_frame_exits:
  assumes "send_messages C [error_message fino errno body] = Done frame"
    and "tx_messages C frame = Done (Some [error_message fino errno body])"
  shows "handle_msg_from_receiver C (t\<lparr>ck_inbox := frame # rest\<rparr>) = Exited 1"
proof -
  obtain dst where frame: "frame = meta_frame (to_header (of_nat (length dst)) (msg_message OR msg_compressed)) dst"
    using assms(1) by (auto simp: send_messages_def send_compressed_def)
  have ty: "meta_open frame = Done (of_nat (length dst), msg_message OR msg_compressed, c)
      \<Longrightarrow> ?thesis" for c
    using assms(2) by (simp add: handle_msg_from_receiver_def handle_other_def error_message_def msg_defs)
  have "\<exists>c. meta_open frame = Done (of_nat (length dst), msg_message OR msg_compressed, c)"
    by (simp add: frame meta_open_def meta_frame_def hdr.dec_enc_exact)
  then show ?thesis
    using ty by blast
qed

lemma split_tag_error:
  assumes "b \<noteq> []" and "\<not> is_space (last b)"
  shows "split_tag (''[ERR] '' @ b @ [char_of (10 :: nat)]) = Done (''[ERR] '', b)"
proof -
  have "is_space (char_of (10 :: nat))" "\<not> is_space CHR ''[''"
    by (simp_all add: is_space_def)
  then have "trim (''[ERR] '' @ b @ [char_of (10 :: nat)]) = ''[ERR] '' @ b"
    using assms by (cases b rule: rev_cases) (simp_all add: trim_def)
  then show ?thesis
    by (simp add: split_tag_def)
qed


section \<open>Claims\<close>

lemma clog_step_worker_line:
  assumes "thread_id tid" and "tid \<noteq> []" and "e < 2 ^ 31" and "f < 2 ^ 31" and "body \<noteq> []" and "\<not> is_space (last body)"
    and "send_messages C [error_message (int f) (int e) body] = Done frame"
  shows "clog_step C scale True None (Some (''[ERR] '' @ worker_line tid e f body @ [char_of (10 :: nat)])) s =
      Done (s\<lparr>cl_delay := 10, cl_sent := cl_sent s @ [frame],
        cl_lines := cl_lines s @ [Error_line (''[C] '' @ worker_line tid e f body @ '' '')]\<rparr>)"
proof -
  have last: "worker_line tid e f body \<noteq> []" "last (worker_line tid e f body) = last body"
    using assms(5) by (simp_all add: worker_line_def)
  have "parse_error C (worker_line tid e f body) = Done frame"
    using parse_worker_line [OF assms(1,2), of e f body] assms(3,4,7) by (simp add: parse_error_def)
  then show ?thesis
    using split_tag_error [OF last(1)] last(2) assms(6) by (simp add: clog_step_def Let_def)
qed



text \<open>A codec with the message of a full disk.\<close>

definition full_disk :: Message where
  "full_disk = error_message 12 28 ''Writing File''"

definition full_disk_codec :: "fbpush list codec" where
  "full_disk_codec = copy_codec [Message_list_create (Some [full_disk])]"

lemma full_disk_frame:
  "messages_fit full_disk_codec [full_disk]"
  "send_messages full_disk_codec [full_disk] =
     Done (meta_frame (to_header 1 (msg_message OR msg_compressed)) [0])"
  by (simp_all add: messages_fit_def send_messages_def send_compressed_def full_disk_codec_def copy_codec_def
    short_api_def short_index_def)

definition server_args :: dtn_args where
  "server_args = args_new\<lparr>da_do_server := True\<rparr>"

lemma log_opened:
  "initialize_logging False (\<lambda>_. 5) False ''log'' server_args =
     Done (Some (Log_file ''log.server'', False), Some clog_start, server_args\<lparr>da_logging_fd := 5\<rparr>)"
  by (simp add: initialize_logging_def server_args_def syslog_facility_def strip_prefix_def starts_with_iff nul_char)


text \<open>
  File numbers are 64 bits wide, but the error line is parsed into 32: for a file number
  of 2 to the 31 or more the thread that drains the errors panics, and no message is sent.
\<close>

theorem large_file_number_panics:
  assumes "thread_id tid" and "tid \<noteq> []" and "2 ^ 31 \<le> f" and "body \<noteq> []" and "\<not> is_space (last body)"
  shows "clog_step C scale True None (Some (''[ERR] '' @ worker_line tid e f body @ [char_of (10 :: nat)])) s =
    Panicked ''unwrap on Err''"
proof -
  have last: "worker_line tid e f body \<noteq> []" "last (worker_line tid e f body) = last body"
    using assms(4) by (simp_all add: worker_line_def)
  then show ?thesis
    using split_tag_error [OF last(1)] parse_worker_line [OF assms(1,2), of e f body] assms(3,5)
    by (simp add: clog_step_def parse_error_def)
qed

theorem large_file_number_panics_witness:
  "clog_step full_disk_codec id True None
     (Some (''[ERR] '' @ worker_line ''3'' 28 4294967296 ''x'' @ [char_of (10 :: nat)]))
     \<lparr>cl_delay = 10, cl_lines = [], cl_sent = []\<rparr> = Panicked ''unwrap on Err''"
proof -
  have "thread_id ''3''" "\<not> is_space (last ''x'')"
    by code_simp+
  then show ?thesis
    using large_file_number_panics [of "''3''" 4294967296 "''x''"] by simp
qed

end
