(* ===== verification/Session_Setup.thy ===== *)
theory Session_Setup
  imports Wire_Header Flat_Tables Error_Log
begin

text \<open>
  The session set-up: the message \<open>escp_sender\<close> (\<open>src/escp/sender.rs\<close>) builds from its arguments,
  \<open>initialize_receiver\<close> (\<open>src/escp/receiver.rs\<close>) that takes the session over, binds a port and
  answers, and what the sender makes of the answer.
\<close>

section \<open>The message of the sender\<close>

text \<open>
  \<open>key\<close> are the sixteen random bytes \<open>tx_init\<close> draws and \<open>sid\<close> the random session id. The key
  travels as signed bytes.
\<close>

definition sender_args :: "u8 list \<Rightarrow> u64 \<Rightarrow> EScp_Args \<Rightarrow> dtn_args \<Rightarrow> dtn_args" where
  "sender_args key sid flags args =
     args\<lparr>da_do_crypto := True, da_crypto_key := key, da_session_id := sid,
          da_ip_mode := da_ip_mode args OR (if ea_ipv4 flags then 1 else 0) OR (if ea_ipv6 flags then 2 else 0)\<rparr>"

definition sender_init ::
    "i32 \<times> i32 \<Rightarrow> bool \<Rightarrow> string \<Rightarrow> EScp_Args \<Rightarrow> dtn_args \<Rightarrow> Session_Init" where
  "sender_init version verbose_logging host flags args =
     Session_InitArgs_default
       \<lparr>si_version_major := fst version, si_version_minor := snd version,
        si_session_id := da_session_id args, si_port_start := uint (da_active_port args),
        si_port_end := uint (ea_escp_portrange flags), si_do_verbose := verbose_logging,
        si_do_crypto := True, si_crypto_key := Some (map sint (take 16 (da_crypto_key args))),
        si_io_engine := da_io_engine_rx args, si_no_direct := da_nodirect args,
        si_do_hash := da_do_hash args, si_thread_count := da_thread_count args,
        si_block_sz := da_block args, si_do_compression := da_compression args > 0,
        si_do_sparse := da_sparse args > 0, si_do_preserve := da_do_preserve args,
        si_log_file := Some (ea_log_file flags), si_ip_mode := da_ip_mode args,
        si_bind_interface := Some host\<rparr>"

definition session_bytes :: "'t fbapi \<Rightarrow> Session_Init \<Rightarrow> u8 list" where
  "session_bytes F si = write_session_init (fb_finish F (Session_Init_create si))"

section \<open>Taking the session over\<close>

text \<open>
  The key is copied as sixteen bytes from a vector of whatever length was sent: \<open>None\<close> is the
  read past the end of a shorter vector.
\<close>

definition take_key :: "Session_Init \<Rightarrow> dtn_args \<Rightarrow> dtn_args option outcome" where
  "take_key helo args =
     (if si_do_crypto helo then
        bind_outcome (unwrap ''unwrap on None'' (si_crypto_key helo)) (\<lambda>ptr.
          Done (if length ptr < 16 then None
                else Some (args\<lparr>da_crypto_key := map word_of_int (take 16 ptr), da_do_crypto := True\<rparr>)))
      else Done (Some args))"

definition take_engine :: "Session_Init \<Rightarrow> dtn_args \<Rightarrow> dtn_args" where
  "take_engine helo args =
     (if si_io_engine helo > 0
      then args\<lparr>da_io_engine_tx := si_io_engine helo, da_io_engine_name := ''RCVER''\<rparr> else args)"

definition take_modes :: "Session_Init \<Rightarrow> dtn_args \<Rightarrow> dtn_args" where
  "take_modes helo args =
     args\<lparr>da_compression := (if si_do_compression helo then 1 else da_compression args),
          da_sparse := (if si_do_sparse helo then 1 else da_sparse args),
          da_do_preserve := si_do_preserve helo\<rparr>"

definition apply_helo :: "Session_Init \<Rightarrow> dtn_args \<Rightarrow> dtn_args option outcome" where
  "apply_helo helo args =
     bind_outcome (take_key helo (take_modes helo (args\<lparr>da_session_id := si_session_id helo\<rparr>))) (\<lambda>r.
       Done (map_option (\<lambda>a. (take_engine helo a)
         \<lparr>da_block := si_block_sz helo, da_thread_count := si_thread_count helo,
          da_do_hash := si_do_hash helo, da_nodirect := si_no_direct helo,
          da_ip_mode := si_ip_mode helo\<rparr>) r))"

definition helo_port_start :: "Session_Init \<Rightarrow> i32" where
  "helo_port_start helo = (if si_port_start helo > 0 then si_port_start helo else 1232)"

definition helo_port_end :: "Session_Init \<Rightarrow> i32" where
  "helo_port_end helo = (if si_port_end helo > 0 then si_port_end helo else 10)"

section \<open>The port\<close>

text \<open>
  \<open>rx_start\<close> of \<open>libdtn\<close> tries up to a hundred further ports; the port of the address is the low
  sixteen bits of the counter. None: it gave up and \<open>start_receiver\<close> ends the process.
\<close>

function bind_port :: "(u16 \<Rightarrow> bool) \<Rightarrow> nat \<Rightarrow> u16 \<Rightarrow> u16 option" where
  "bind_port busy j port =
     (if busy port then (if j + 1 > 100 then None else bind_port busy (j + 1) (port + 1)) else Some port)"
  by pat_completeness auto

termination bind_port
  by (relation "measure (\<lambda>(busy, j, port). 101 - j)") auto

declare bind_port.simps [simp del]

definition no_nul :: "string \<Rightarrow> bool" where
  "no_nul s \<longleftrightarrow> char_of (0 :: nat) \<notin> set s"

text \<open>
  The environment: \<open>dns_lookup\<close> with the port it resolves (None ends the process), the ports in
  use, the version of the build, and what \<open>initialize_logging\<close> needs.
\<close>

record setup_env =
  se_dns :: "string \<Rightarrow> string \<Rightarrow> u16 option"
  se_busy :: "u16 \<Rightarrow> bool"
  se_version :: "i32 \<times> i32"
  se_syslog :: bool
  se_open_log :: "string \<Rightarrow> i32"

record rx_setup =
  rs_args :: dtn_args
  rs_port :: u16
  rs_reply :: Session_Init
  rs_cksum :: bool
  rs_verbose :: bool
  rs_log :: "(log_sink \<times> bool) option"
  rs_clog :: "clog option"

definition O_CREAT_WRONLY_TRUNC :: i32 where "O_CREAT_WRONLY_TRUNC = 64 OR 1 OR 512"

definition listen_args :: "string \<Rightarrow> string \<Rightarrow> u16 \<Rightarrow> dtn_args \<Rightarrow> dtn_args" where
  "listen_args bind_interface p active args =
     args\<lparr>da_sock_store := (bind_interface, p) # tl (da_sock_store args), da_sock_store_count := 1,
          da_flags := da_flags args OR O_CREAT_WRONLY_TRUNC, da_active_port := active\<rparr>"

definition session_reply :: "i32 \<times> i32 \<Rightarrow> u16 \<Rightarrow> Session_Init" where
  "session_reply version active =
     Session_InitArgs_default
       \<lparr>si_version_major := fst version, si_version_minor := snd version, si_port_start := uint active\<rparr>"

definition or_empty :: "string option \<Rightarrow> string" where
  "or_empty s = (case s of Some b \<Rightarrow> b | None \<Rightarrow> [])"

text \<open>
  From the greeting to the answer, with the comparison of the port as the code makes it.
  \<open>file_get_activeport\<close> polls until the port is not 0, for ever when port 0 was bound.
\<close>

datatype setup_result = Short_key | Polls_forever | Ready rx_setup

definition start_session ::
    "setup_env \<Rightarrow> bool \<Rightarrow> Session_Init \<Rightarrow> dtn_args \<Rightarrow> setup_result outcome" where
  "start_session E verbose helo args0 =
     bind_outcome (apply_helo helo args0) (\<lambda>r.
       case r of
         None \<Rightarrow> Done Short_key
       | Some args1 \<Rightarrow>
           let bind_interface = or_empty (si_bind_interface helo);
               p = show_int (helo_port_start helo);
               verbose1 = (verbose \<or> si_do_verbose helo)
           in if \<not> no_nul bind_interface then Panicked ''NulError''
              else bind_outcome
                (initialize_logging (se_syslog E) (se_open_log E) verbose1 (or_empty (si_log_file helo)) args1)
                (\<lambda>(lg, thread, args).
                  case se_dns E bind_interface p of
                    None \<Rightarrow> Exited (-1)
                  | Some sin_port \<Rightarrow>
                      (case bind_port (se_busy E) 0 sin_port of
                         None \<Rightarrow> Exited (-1)
                       | Some active \<Rightarrow>
                           let port = uint active
                           in if port = 0 then Done Polls_forever
                              else if port > port + helo_port_end helo then Exited (-1)
                              else Done (Ready
                                \<lparr>rs_args = listen_args bind_interface p active args, rs_port = active,
                                 rs_reply = session_reply (se_version E) active,
                                 rs_cksum = (da_do_hash args = 2), rs_verbose = verbose1, rs_log = lg,
                                 rs_clog = thread\<rparr>))))"

definition initialize_receiver ::
    "'t fbapi \<Rightarrow> setup_env \<Rightarrow> bool \<Rightarrow> string \<Rightarrow> u8 list \<Rightarrow> u8 list option \<Rightarrow> dtn_args \<Rightarrow>
     (setup_result \<times> u8 list) outcome" where
  "initialize_receiver F E verbose mgmt stdin accepted args =
     bind_outcome (read_stdin_or_mgmt mgmt stdin accepted) (\<lambda>(buf, stream, rest).
     bind_outcome (unwrap ''unwrap on Err'' (map_option (Session_Init_view F) (fb_root F buf))) (\<lambda>helo.
     bind_outcome (start_session E verbose helo args) (\<lambda>r.
       Done (r, case r of Ready su \<Rightarrow> session_bytes F (rs_reply su) | _ \<Rightarrow> []))))"

section \<open>The answer\<close>

text \<open>
  The sender stores the address of the host with the port of the answer; a host that \<open>dns_lookup\<close>
  cannot resolve ends the process. An old version is reported and the session goes on. None: a short
  read, \<open>escp_sender\<close> returns.
\<close>

definition too_old :: "Session_Init \<Rightarrow> bool" where
  "too_old helo \<longleftrightarrow> si_version_major helo = 0 \<and> si_version_minor helo \<le> 8"

definition accept_reply ::
    "'t fbapi \<Rightarrow> (string \<Rightarrow> string \<Rightarrow> u16 option) \<Rightarrow> string \<Rightarrow> u8 list \<Rightarrow> dtn_args \<Rightarrow> (bool \<times> dtn_args) option outcome" where
  "accept_reply F dns host sout args =
     bind_outcome (read_session_reply sout) (\<lambda>r.
       case r of
         None \<Rightarrow> Done None
       | Some (buf, rest) \<Rightarrow>
           bind_outcome (unwrap ''unwrap on Err'' (map_option (Session_Init_view F) (fb_root F buf))) (\<lambda>helo.
             if \<not> no_nul host then Panicked ''NulError''
             else if dns host (show_int (si_port_start helo)) = None then Exited (-1)
             else Done (Some (too_old helo,
               args\<lparr>da_sock_store := (host, show_int (si_port_start helo)) # tl (da_sock_store args),
                    da_sock_store_count := 1, da_active_port := word_of_int (si_port_start helo)\<rparr>))))"

text \<open>
  The host and port that connection \<open>k\<close> of \<open>tx_worker\<close> connects to: what \<open>dns_lookup\<close> put into the stored
  address, which the model keeps as the host and the port it was called with.
\<close>

definition connect_port :: "(string \<Rightarrow> string \<Rightarrow> u16 option) \<Rightarrow> dtn_args \<Rightarrow> nat \<Rightarrow> (string \<times> u16) option" where
  "connect_port dns args k =
     (let i = k mod nat (da_sock_store_count args)
      in if i < length (da_sock_store args)
         then (case da_sock_store args ! i of (host, port) \<Rightarrow> map_option (\<lambda>p. (host, p)) (dns host port))
         else None)"

section \<open>Lemmas\<close>

text \<open>What a session message carries from one side to the other.\<close>

lemma session_bytes_read:
  assumes "fb_laws F" and "length (fb_finish F (Session_Init_create si)) < 2 ^ 32"
  shows "read_stdin_or_mgmt [] (session_bytes F si @ rest) acc = Done (fb_finish F (Session_Init_create si), False, rest)"
    and "read_session_reply (session_bytes F si @ rest) = Done (Some (fb_finish F (Session_Init_create si), rest))"
  using hdr.read_frame [OF assms(2)]
  by (simp_all add: read_stdin_or_mgmt_def read_session_reply_def write_session_init_def session_bytes_def)

lemma session_root: "fb_laws F \<Longrightarrow>
  map_option (Session_Init_view F) (fb_root F (fb_finish F (Session_Init_create si))) = Some si"
  using init_tab.root_view [of F si "[]"] by simp

lemma key_roundtrip: "map (word_of_int \<circ> sint) ks = (ks :: u8 list)"
  by (induction ks) simp_all

lemma bind_port_first_free:
  assumes "j + k \<le> 100" and "\<And>i. i < k \<Longrightarrow> busy (port + of_nat i)" and "\<not> busy (port + of_nat k)"
  shows "bind_port busy j port = Some (port + of_nat k)"
  using assms
proof (induction k arbitrary: j port)
  case 0
  then show ?case by (simp add: bind_port.simps [of busy j port])
next
  case (Suc k)
  have "bind_port busy (j + 1) (port + 1) = Some (port + 1 + of_nat k)"
  proof (rule Suc.IH)
    show "busy (port + 1 + of_nat i)" if "i < k" for i
      using Suc.prems(2) [of "Suc i"] that by (simp add: ac_simps)
  qed (use Suc.prems in \<open>simp_all add: ac_simps\<close>)
  then show ?case
    using Suc.prems(1) Suc.prems(2) [of 0] by (simp add: bind_port.simps [of busy j port] ac_simps)
qed

lemma bind_port_None:
  assumes "\<And>i. i + j \<le> 100 \<Longrightarrow> busy (port + of_nat i)" and "j \<le> 100"
  shows "bind_port busy j port = None"
  using assms
proof (induction "100 - j" arbitrary: j port)
  case 0
  then show ?case
    using "0.prems"(1) [of 0] by (subst bind_port.simps) simp
next
  case (Suc n)
  have "bind_port busy (j + 1) (port + 1) = None"
  proof (rule Suc.hyps(1))
    show "busy (port + 1 + of_nat i)" if "i + (j + 1) \<le> 100" for i
      using Suc.prems(1) [of "Suc i"] that by (simp add: ac_simps)
  qed (use Suc.hyps(2) in simp_all)
  then show ?case
    using Suc.prems(1) [of 0] Suc.prems(2) by (simp add: bind_port.simps [of busy j port])
qed

lemma initialize_logging_total:
  assumes "no_nul base"
  shows "\<exists>lg th fd. initialize_logging sys op v base args = Done (lg, th, args\<lparr>da_logging_fd := fd\<rparr>)"
proof -
  have same: "args = args\<lparr>da_logging_fd := da_logging_fd args\<rparr>"
    by simp
  have nul: "char_of (0 :: nat) \<notin> set base"
    using assms by (simp add: no_nul_def)
  show ?thesis
  proof (cases "base = [] \<or> syslog_facility base \<noteq> None")
    case True
    then have "\<exists>lg th. initialize_logging sys op v base args = Done (lg, th, args)"
      by (auto simp: initialize_logging_def Let_def)
    then show ?thesis
      using same by metis
  next
    case False
    let ?ident = "if da_do_server args then ''.server'' else ''.client''"
    have "initialize_logging sys op v base args =
        (if op (base @ ?ident) < 0 then Done (None, None, args)
         else Done (Some (Log_file (base @ ?ident), v), Some clog_start, args\<lparr>da_logging_fd := op (base @ ?ident)\<rparr>))"
      using False nul by (simp add: initialize_logging_def Let_def)
    then show ?thesis
      using same by metis
  qed
qed

lemma start_session_Ready:
  assumes "apply_helo helo args0 = Done (Some args)" and "no_nul (or_empty (si_bind_interface helo))"
    and "no_nul (or_empty (si_log_file helo))"
    and "se_dns E (or_empty (si_bind_interface helo)) (show_int (helo_port_start helo)) = Some sin_port"
    and "bind_port (se_busy E) 0 sin_port = Some active" and "active \<noteq> 0"
  shows "\<exists>su fd. start_session E verbose helo args0 = Done (Ready su) \<and> rs_port su = active \<and>
    rs_reply su = session_reply (se_version E) active \<and> rs_cksum su = (da_do_hash args = 2) \<and>
    rs_args su = listen_args (or_empty (si_bind_interface helo)) (show_int (helo_port_start helo)) active
      (args\<lparr>da_logging_fd := fd\<rparr>)"
proof -
  obtain lg th fd where "initialize_logging (se_syslog E) (se_open_log E) (verbose \<or> si_do_verbose helo)
      (or_empty (si_log_file helo)) args = Done (lg, th, args\<lparr>da_logging_fd := fd\<rparr>)"
    using initialize_logging_total [OF assms(3)] by blast
  then show ?thesis
    using assms by (simp add: start_session_def Let_def helo_port_end_def unsigned_eq_0_iff) blast
qed

text \<open>What the two sides have to agree on; the engine the sender names is the one the receiver uses.\<close>

definition same_session :: "dtn_args \<Rightarrow> dtn_args \<Rightarrow> bool" where
  "same_session r t \<longleftrightarrow>
     da_session_id r = da_session_id t \<and> da_crypto_key r = da_crypto_key t \<and> da_do_crypto r = da_do_crypto t \<and>
     da_block r = da_block t \<and> da_thread_count r = da_thread_count t \<and> da_do_hash r = da_do_hash t \<and>
     da_nodirect r = da_nodirect t \<and> da_ip_mode r = da_ip_mode t \<and> da_do_preserve r = da_do_preserve t \<and>
     (da_compression r > 0 \<longleftrightarrow> da_compression t > 0) \<and> (da_sparse r > 0 \<longleftrightarrow> da_sparse t > 0) \<and>
     (da_io_engine_rx t > 0 \<longrightarrow> da_io_engine_tx r = da_io_engine_rx t)"

lemma apply_helo_sender_init:
  assumes "length (da_crypto_key args) = 16" and "da_compression args0 = 0" and "da_sparse args0 = 0"
  shows "\<exists>a. apply_helo (sender_init v verb host flags args) args0 = Done (Some a) \<and>
    (da_do_crypto args \<longrightarrow> same_session a args)"
  using assms key_roundtrip [of "da_crypto_key args"]
  by (simp add: apply_helo_def take_key_def take_engine_def take_modes_def sender_init_def same_session_def)

section \<open>A session\<close>

definition demo_env :: setup_env where
  "demo_env =
     \<lparr>se_dns = (\<lambda>_ _. Some 1232), se_busy = (\<lambda>p. 1232 \<le> p \<and> p < 1252), se_version = (0, 9),
      se_syslog = False, se_open_log = (\<lambda>_. 5)\<rparr>"

definition demo_key :: "u8 list" where
  "demo_key = [0, 17, 34, 51, 68, 85, 102, 119, 136, 153, 170, 187, 204, 221, 238, 255]"

definition demo_init :: Session_Init where
  "demo_init =
     sender_init (0, 9) False ''host'' EScp_Args_default
       (sender_args demo_key 7 EScp_Args_default (args_new\<lparr>da_active_port := 1232, da_block := 1048576\<rparr>))"

definition demo_api :: "fbpush list fbapi" where
  "demo_api = short_api [Session_Init_create demo_init, Session_Init_create (session_reply (0, 9) 1252)]"

lemma demo_api_laws: "fb_laws demo_api"
  unfolding demo_api_def by (rule fb_laws_short)

lemma no_nul_host: "no_nul ''host''" "no_nul []"
  by code_simp+

lemma of_nat_less_cases: "i < (20 :: nat) \<Longrightarrow> (1232 :: u16) \<le> 1232 + of_nat i \<and> (1232 :: u16) + of_nat i < 1252"
proof -
  assume "i < 20"
  then have "unat ((1232 :: u16) + of_nat i) = 1232 + i"
    by (simp add: unat_word_ariths unat_of_nat take_bit_eq_mod)
  then show ?thesis
    using \<open>i < 20\<close> by (simp add: word_le_nat_alt word_less_nat_alt)
qed

lemma demo_bind: "bind_port (se_busy demo_env) 0 1232 = Some 1252"
  using bind_port_first_free [of 0 20 "se_busy demo_env" 1232]
  by (simp add: demo_env_def of_nat_less_cases)

section \<open>Claims\<close>



text \<open>
  The comparison with the end of the port range can never fail, because it adds the
  range to the port itself: whatever range the sender asks for, the receiver serves the first
  free port up to a hundred above the start.
\<close>

theorem port_range_unchecked:
  assumes "apply_helo helo args0 = Done (Some args)" and "no_nul (or_empty (si_bind_interface helo))"
    and "no_nul (or_empty (si_log_file helo))"
    and "se_dns E (or_empty (si_bind_interface helo)) (show_int (helo_port_start helo)) = Some sin_port"
    and "\<And>i. i < k \<Longrightarrow> se_busy E (sin_port + of_nat i)" and "\<not> se_busy E (sin_port + of_nat k)"
    and "k \<le> 100" and "sin_port + of_nat k \<noteq> 0"
  shows "\<exists>su. start_session E verbose helo args0 = Done (Ready su) \<and> rs_port su = sin_port + of_nat k"
  using start_session_Ready [OF assms(1-4) bind_port_first_free [of 0 k] assms(8)] assms(5-7) by auto

theorem port_range_unchecked_witness:
  "\<exists>su. start_session demo_env False demo_init args_new = Done (Ready su) \<and> rs_port su = 1252 \<and>
    uint (rs_port su) > helo_port_start demo_init + helo_port_end demo_init"
proof -
  obtain a where "apply_helo demo_init args_new = Done (Some a)"
    using apply_helo_sender_init [of "sender_args demo_key 7 EScp_Args_default
      (args_new\<lparr>da_active_port := 1232, da_block := 1048576\<rparr>)" args_new "(0, 9)" False "''host''" EScp_Args_default]
    unfolding demo_init_def by (auto simp: sender_args_def demo_key_def args_new_def)
  moreover have "helo_port_start demo_init = 1232" "helo_port_end demo_init = 10"
    "no_nul (or_empty (si_bind_interface demo_init))" "no_nul (or_empty (si_log_file demo_init))"
    by (simp_all add: helo_port_start_def helo_port_end_def demo_init_def sender_init_def sender_args_def
      EScp_Args_default_def no_nul_host or_empty_def)
  ultimately show ?thesis
    using port_range_unchecked [of demo_init args_new a demo_env 1232 20 False]
    by (auto simp: of_nat_less_cases demo_env_def)
qed

text \<open>
  A greeting that asks for encryption without a key makes the receiver panic, one with
  fewer than sixteen key bytes makes it read past the end of the vector, and when the hundred
  and one ports are all taken the process exits.
\<close>

theorem session_setup_errors:
  assumes "si_do_crypto helo"
  shows "(si_crypto_key helo = None \<longrightarrow> start_session E verbose helo args = Panicked ''unwrap on None'') \<and>
    (\<forall>ks. si_crypto_key helo = Some ks \<longrightarrow> length ks < 16 \<longrightarrow> start_session E verbose helo args = Done Short_key) \<and>
    (\<forall>ks p. si_crypto_key helo = Some ks \<longrightarrow> 16 \<le> length ks \<longrightarrow> no_nul (or_empty (si_bind_interface helo)) \<longrightarrow>
       no_nul (or_empty (si_log_file helo)) \<longrightarrow>
       se_dns E (or_empty (si_bind_interface helo)) (show_int (helo_port_start helo)) = Some p \<longrightarrow>
       (\<forall>i \<le> 100. se_busy E (p + of_nat i)) \<longrightarrow> start_session E verbose helo args = Exited (-1))"
proof (intro conjI allI impI)
  fix ks p
  assume ks: "si_crypto_key helo = Some ks" "16 \<le> length ks" and nul: "no_nul (or_empty (si_bind_interface helo))"
    "no_nul (or_empty (si_log_file helo))"
    and dns: "se_dns E (or_empty (si_bind_interface helo)) (show_int (helo_port_start helo)) = Some p"
    and busy: "\<forall>i \<le> 100. se_busy E (p + of_nat i)"
  have "bind_port (se_busy E) 0 p = None"
    using busy by (intro bind_port_None) auto
  moreover have "\<exists>a. apply_helo helo args = Done (Some a)"
    using assms ks by (simp add: apply_helo_def take_key_def)
  ultimately show "start_session E verbose helo args = Exited (-1)"
    using nul dns initialize_logging_total [OF nul(2), of "se_syslog E" "se_open_log E" "verbose \<or> si_do_verbose helo"]
    by (auto simp: start_session_def Let_def) (metis (no_types, lifting) bind_outcome.simps(1) case_prod_conv)
qed (use assms in \<open>auto simp: start_session_def apply_helo_def take_key_def\<close>)

theorem session_setup_errors_witness:
  "start_session demo_env False (demo_init\<lparr>si_crypto_key := Some [1, 2]\<rparr>) args_new = Done Short_key"
  using session_setup_errors [of "demo_init\<lparr>si_crypto_key := Some [1, 2]\<rparr>" demo_env False args_new]
  by (simp add: demo_init_def sender_init_def)

end
