(* ===== verification/Stat_Table.thy ===== *)
theory Stat_Table
  imports EScp_Prelude
begin

text \<open>
  The table of open files that the Rust threads and the C workers share
  (\<open>libdtn/src/file_io.c\<close>): a hash table of 2048 slots probed at most 22 times along the
  xorshift sequence of the file number, with \<open>file_addfile\<close>, \<open>file_getstats\<close>, the clearing
  \<open>memset_avx\<close> and the counters. Operations are atomic here, as each slot is claimed by one
  compare-and-exchange; the concurrent updates of a claimed entry by the I/O workers are the
  function \<open>stat_update\<close> of the environment.
\<close>

section \<open>Entries\<close>

text \<open>\<open>struct file_stat_type\<close> of \<open>file_io.h\<close>.\<close>

record file_stat_type =
  st_state :: u64
  st_file_no :: u64
  st_bytes :: u64
  st_block_offset :: u64
  st_block_total :: u64
  st_bytes_total :: u64
  st_fd :: i32
  st_position :: nat
  st_read_limit :: u32
  st_crc :: u32

definition stat_zero :: file_stat_type where
  "stat_zero =
     \<lparr>st_state = 0, st_file_no = 0, st_bytes = 0, st_block_offset = 0, st_block_total = 0,
      st_bytes_total = 0, st_fd = 0, st_position = 0, st_read_limit = 0, st_crc = 0\<rparr>"

definition FILE_STAT_COUNT_HSZ :: nat where "FILE_STAT_COUNT_HSZ = 2048"
definition FILE_STAT_COUNT_CC :: nat where "FILE_STAT_COUNT_CC = 22"
definition FS_INIT :: u64 where "FS_INIT = 0xBAEBEE"

record file_io =
  fs_tab :: "nat \<Rightarrow> file_stat_type"
  fs_count :: nat
  fs_tail :: nat

definition file_io_init :: file_io where
  "file_io_init = \<lparr>fs_tab = (\<lambda>_. stat_zero), fs_count = 0, fs_tail = 0\<rparr>"

section \<open>Operations\<close>

definition xorshift64s :: "u64 \<Rightarrow> u64" where
  "xorshift64s x0 =
     (let x1 = x0 XOR drop_bit 12 x0;
          x2 = x1 XOR push_bit 25 x1;
          x3 = x2 XOR drop_bit 27 x2
      in x3 * 0x2545F4914F6CDD1D)"

definition FS_MASK :: "u64 \<Rightarrow> nat" where
  "FS_MASK h = unat h mod FILE_STAT_COUNT_HSZ"

fun probes :: "nat \<Rightarrow> u64 \<Rightarrow> nat list" where
  "probes 0 h = []"
| "probes (Suc n) h = (let h' = xorshift64s h in FS_MASK h' # probes n h')"

definition probe_seq :: "fino \<Rightarrow> nat list" where
  "probe_seq f = probes FILE_STAT_COUNT_CC f"

definition file_addfile :: "fino \<Rightarrow> i32 \<Rightarrow> u64 \<Rightarrow> u32 \<Rightarrow> file_io \<Rightarrow> nat option \<times> file_io" where
  "file_addfile fileno fd offset read_limit s =
     (case find (\<lambda>slot. st_state (fs_tab s slot) = 0) (probe_seq fileno) of
        None \<Rightarrow> (None, s)
      | Some slot \<Rightarrow>
          (Some slot,
           s\<lparr>fs_tab := (fs_tab s)(slot := stat_zero
               \<lparr>st_state := FS_INIT, st_fd := fd, st_file_no := fileno, st_position := slot,
                st_block_offset := offset, st_read_limit := read_limit\<rparr>),
             fs_count := fs_count s + 1\<rparr>))"

definition file_getstats :: "fino \<Rightarrow> file_io \<Rightarrow> nat option" where
  "file_getstats fileno s = find (\<lambda>slot. st_file_no (fs_tab s slot) = fileno) (probe_seq fileno)"

definition memset_slot :: "nat \<Rightarrow> file_io \<Rightarrow> file_io" where
  "memset_slot slot s = s\<lparr>fs_tab := (fs_tab s)(slot := stat_zero)\<rparr>"

definition file_incrementtail :: "file_io \<Rightarrow> file_io" where
  "file_incrementtail s = s\<lparr>fs_tail := fs_tail s + 1\<rparr>"

section \<open>What the Rust side reads\<close>

text \<open>
  The fields with their sizes as the C header declares them (packed) and as the checked-in
  \<open>bindings.rs\<close> declares them. A Rust field access reads the bytes at its own offset, that is
  the C field that starts there.
\<close>

definition c_layout :: "(string \<times> nat) list" where
  "c_layout =
     [(''state'', 8), (''file_no'', 8), (''bytes'', 8), (''block_offset'', 8), (''block_total'', 8),
      (''bytes_total'', 8), (''fd'', 4), (''position'', 4), (''read_limit'', 4), (''crc'', 4)]"

definition rust_layout :: "(string \<times> nat) list" where
  "rust_layout =
     [(''state'', 8), (''file_no'', 8), (''bytes'', 8), (''block_offset'', 8), (''block_total'', 8),
      (''bytes_total'', 8), (''fd'', 4), (''position'', 4), (''crc'', 4)]"

fun offset_of :: "(string \<times> nat) list \<Rightarrow> string \<Rightarrow> nat option" where
  "offset_of [] n = None"
| "offset_of ((m, sz) # fs) n = (if m = n then Some 0 else map_option ((+) sz) (offset_of fs n))"

definition c_u32_at :: "nat \<Rightarrow> file_stat_type \<Rightarrow> u32 option" where
  "c_u32_at off st =
     (if Some off = offset_of c_layout ''read_limit'' then Some (st_read_limit st)
      else if Some off = offset_of c_layout ''crc'' then Some (st_crc st)
      else if Some off = offset_of c_layout ''position'' then Some (of_nat (st_position st))
      else None)"

text \<open>\<open>(*stats).crc\<close> on the Rust side.\<close>

definition rust_crc :: "file_stat_type \<Rightarrow> u32" where
  "rust_crc st = the (c_u32_at (the (offset_of rust_layout ''crc'')) st)"

section \<open>The table as a map\<close>

text \<open>What a file number denotes: the entry a successful lookup points at.\<close>

definition fs_lookup :: "file_io \<Rightarrow> fino \<Rightarrow> file_stat_type option" where
  "fs_lookup s f = map_option (fs_tab s) (file_getstats f s)"

definition fs_clear :: "fino \<Rightarrow> file_io \<Rightarrow> file_io" where
  "fs_clear f s = (case file_getstats f s of None \<Rightarrow> s | Some slot \<Rightarrow> memset_slot slot s)"

definition fs_new :: "fino \<Rightarrow> i32 \<Rightarrow> file_io \<Rightarrow> file_io option" where
  "fs_new f fd s = (case file_addfile f fd 0 0 s of (None, _) \<Rightarrow> None | (Some _, s') \<Rightarrow> Some s')"

text \<open>An I/O worker accounts a block to an entry: counters and checksum only.\<close>

definition stat_update :: "u64 \<Rightarrow> u64 \<Rightarrow> u32 \<Rightarrow> file_stat_type \<Rightarrow> file_stat_type" where
  "stat_update blocks bytes h e =
     e\<lparr>st_block_total := st_block_total e + blocks, st_bytes_total := st_bytes_total e + bytes,
       st_crc := st_crc e XOR h\<rparr>"

definition fs_account :: "fino \<Rightarrow> u64 \<Rightarrow> u64 \<Rightarrow> u32 \<Rightarrow> file_io \<Rightarrow> file_io" where
  "fs_account f blocks bytes h s =
     (case file_getstats f s of
        None \<Rightarrow> s
      | Some slot \<Rightarrow> s\<lparr>fs_tab := (fs_tab s)(slot := stat_update blocks bytes h (fs_tab s slot))\<rparr>)"

text \<open>
  The table invariant: a free slot is zero, an occupied one lies on the probe sequence of its
  file number and carries its own position, and no file number occurs twice.
\<close>

definition fs_inv :: "file_io \<Rightarrow> bool" where
  "fs_inv s \<longleftrightarrow>
     (\<forall>i. st_state (fs_tab s i) = 0 \<longrightarrow> fs_tab s i = stat_zero) \<and>
     (\<forall>i. st_state (fs_tab s i) \<noteq> 0 \<longrightarrow>
        st_file_no (fs_tab s i) \<noteq> 0 \<and> st_position (fs_tab s i) = i \<and>
        i \<in> set (probe_seq (st_file_no (fs_tab s i)))) \<and>
     (\<forall>i j. st_state (fs_tab s i) \<noteq> 0 \<longrightarrow> st_state (fs_tab s j) \<noteq> 0 \<longrightarrow>
        st_file_no (fs_tab s i) = st_file_no (fs_tab s j) \<longrightarrow> i = j)"

text \<open>
  The contents as the rest of the program sees them: descriptor, blocks, bytes and checksum
  of each open file. File number 0 marks a free slot and denotes nothing.
\<close>

type_synonym file_view = "i32 \<times> u64 \<times> u64 \<times> u32"

definition stat_view :: "file_stat_type \<Rightarrow> file_view" where
  "stat_view e = (st_fd e, st_block_total e, st_bytes_total e, st_crc e)"

definition fs_view :: "file_io \<Rightarrow> fino \<Rightarrow> file_view option" where
  "fs_view s f = (if f = 0 then None else map_option stat_view (fs_lookup s f))"

definition view_account :: "u64 \<Rightarrow> u64 \<Rightarrow> u32 \<Rightarrow> file_view \<Rightarrow> file_view" where
  "view_account blocks bytes h = (\<lambda>(fd, bl, by, c). (fd, bl + blocks, by + bytes, c XOR h))"

text \<open>A history of the table: adding, accounting a block, clearing.\<close>

datatype fs_op =
    FsAdd fino i32
  | FsAccount fino u64 u64 u32
  | FsClear fino

text \<open>
  Running a history with given operations; the flags tell which adds were accepted. On the
  abstract side the callers' discipline is checked: file numbers are not 0 and no open file
  is added again.
\<close>

fun exec_with :: "(fino \<Rightarrow> i32 \<Rightarrow> 't \<Rightarrow> 't option) \<Rightarrow> (fino \<Rightarrow> u64 \<Rightarrow> u64 \<Rightarrow> u32 \<Rightarrow> 't \<Rightarrow> 't) \<Rightarrow>
    (fino \<Rightarrow> 't \<Rightarrow> 't) \<Rightarrow> fs_op \<Rightarrow> 't \<Rightarrow> bool \<times> 't" where
  "exec_with new account clear (FsAdd f fd) s =
     (case new f fd s of None \<Rightarrow> (False, s) | Some s' \<Rightarrow> (True, s'))"
| "exec_with new account clear (FsAccount f b n h) s = (True, account f b n h s)"
| "exec_with new account clear (FsClear f) s = (True, clear f s)"

fun run_with :: "(fino \<Rightarrow> i32 \<Rightarrow> 't \<Rightarrow> 't option) \<Rightarrow> (fino \<Rightarrow> u64 \<Rightarrow> u64 \<Rightarrow> u32 \<Rightarrow> 't \<Rightarrow> 't) \<Rightarrow>
    (fino \<Rightarrow> 't \<Rightarrow> 't) \<Rightarrow> fs_op list \<Rightarrow> 't \<Rightarrow> bool list \<times> 't" where
  "run_with new account clear [] s = ([], s)"
| "run_with new account clear (op # ops) s =
     (let (ok, s1) = exec_with new account clear op s;
          (oks, s2) = run_with new account clear ops s1
      in (ok # oks, s2))"

fun view_exec :: "fs_op \<Rightarrow> bool \<Rightarrow> (fino \<Rightarrow> file_view option) \<Rightarrow> fino \<Rightarrow> file_view option" where
  "view_exec (FsAdd f fd) ok m = (if ok then m(f \<mapsto> (fd, 0, 0, 0)) else m)"
| "view_exec (FsAccount f b n h) ok m = m(f := map_option (view_account b n h) (m f))"
| "view_exec (FsClear f) ok m = m(f := None)"

fun op_pre :: "fs_op \<Rightarrow> (fino \<Rightarrow> file_view option) \<Rightarrow> bool" where
  "op_pre (FsAdd f fd) m \<longleftrightarrow> f \<noteq> 0 \<and> m f = None"
| "op_pre (FsAccount f b n h) m \<longleftrightarrow> f \<noteq> 0"
| "op_pre (FsClear f) m \<longleftrightarrow> f \<noteq> 0"

fun view_run :: "(fs_op \<times> bool) list \<Rightarrow> (fino \<Rightarrow> file_view option) \<Rightarrow>
    (fino \<Rightarrow> file_view option) option" where
  "view_run [] m = Some m"
| "view_run ((op, ok) # ops) m =
     (if op_pre op m then view_run ops (view_exec op ok m) else None)"

section \<open>Lemmas\<close>

lemma stat_zero_simps [simp]:
  "st_state stat_zero = 0" "st_file_no stat_zero = 0" "st_crc stat_zero = 0"
  "st_block_total stat_zero = 0" "st_read_limit stat_zero = 0"
  by (simp_all add: stat_zero_def)

lemma FS_INIT_nz [simp]: "FS_INIT \<noteq> 0"
  by (simp add: FS_INIT_def)

lemma FS_MASK_less: "FS_MASK h < FILE_STAT_COUNT_HSZ"
  by (simp add: FS_MASK_def FILE_STAT_COUNT_HSZ_def)

lemma probes_range: "i \<in> set (probes n h) \<Longrightarrow> i < FILE_STAT_COUNT_HSZ"
  by (induction n h rule: probes.induct) (auto simp: Let_def FS_MASK_less)

lemma length_probes [simp]: "length (probes n h) = n"
  by (induction n h rule: probes.induct) (auto simp: Let_def)

lemma find_SomeD: "find P xs = Some x \<Longrightarrow> x \<in> set xs \<and> P x"
  by (auto simp: find_Some_iff)

lemma find_unique:
  assumes "x \<in> set xs" and "P x" and "\<And>y. y \<in> set xs \<Longrightarrow> P y \<Longrightarrow> y = x"
  shows "find P xs = Some x"
proof -
  have "find P xs \<noteq> None"
    using assms(1,2) by (auto simp: find_None_iff)
  then obtain y where "find P xs = Some y" by blast
  with find_SomeD [OF this] assms(3) show ?thesis by simp
qed

lemma fs_inv_file_no_state:
  "fs_inv s \<Longrightarrow> f \<noteq> 0 \<Longrightarrow> st_file_no (fs_tab s i) = f \<Longrightarrow> st_state (fs_tab s i) \<noteq> 0"
  unfolding fs_inv_def by (metis stat_zero_simps(2))

lemma getstats_iff:
  assumes "fs_inv s" and "f \<noteq> 0"
  shows "file_getstats f s = Some i \<longleftrightarrow> st_file_no (fs_tab s i) = f"
proof
  assume "file_getstats f s = Some i"
  then show "st_file_no (fs_tab s i) = f"
    unfolding file_getstats_def by (auto dest: find_SomeD)
next
  assume i: "st_file_no (fs_tab s i) = f"
  then have st: "st_state (fs_tab s i) \<noteq> 0"
    using fs_inv_file_no_state [OF assms] by simp
  show "file_getstats f s = Some i"
    unfolding file_getstats_def
  proof (rule find_unique)
    show "i \<in> set (probe_seq f)"
      using assms(1) i st unfolding fs_inv_def by auto
    show "y = i" if "st_file_no (fs_tab s y) = f" for y
      using that fs_inv_file_no_state [OF assms that] i st assms(1) unfolding fs_inv_def by metis
  qed (rule i)
qed

lemma getstats_None_iff:
  assumes "fs_inv s" and "f \<noteq> 0"
  shows "file_getstats f s = None \<longleftrightarrow> (\<forall>i. st_file_no (fs_tab s i) \<noteq> f)"
  using getstats_iff [OF assms] by (metis not_None_eq)


lemma view_None_iff:
  assumes "fs_inv s" and "f \<noteq> 0"
  shows "fs_view s f = None \<longleftrightarrow> (\<forall>i. st_file_no (fs_tab s i) \<noteq> f)"
  using getstats_None_iff [OF assms] assms(2) by (simp add: fs_view_def fs_lookup_def)

lemma view_at:
  assumes "fs_inv s" and "st_file_no (fs_tab s i) = f" and "f \<noteq> 0"
  shows "fs_view s f = Some (stat_view (fs_tab s i))"
proof -
  have "file_getstats f s = Some i"
    using getstats_iff [OF assms(1,3)] assms(2) by simp
  then show ?thesis
    using assms(3) by (simp add: fs_view_def fs_lookup_def)
qed

text \<open>
  Two tables that differ in one slot only have the same view of every file number that the
  slot holds in neither of them.
\<close>

lemma view_other:
  assumes "fs_inv s" and "fs_inv s'" and "g \<noteq> 0"
    and tab: "fs_tab s' = (fs_tab s)(i := e)"
    and old: "st_file_no (fs_tab s i) \<noteq> g" and new: "st_file_no e \<noteq> g"
  shows "fs_view s' g = fs_view s g"
proof (cases "\<exists>j. st_file_no (fs_tab s j) = g")
  case True
  then obtain j where j: "st_file_no (fs_tab s j) = g" by blast
  with old have "j \<noteq> i" by auto
  with tab have "fs_tab s' j = fs_tab s j" by simp
  with j show ?thesis
    using view_at [OF assms(1) j] view_at [of s' j g] assms(2,3) by simp
next
  case False
  then have "\<forall>j. st_file_no (fs_tab s' j) \<noteq> g"
    using tab new by simp
  then show ?thesis
    using False view_None_iff assms(1,2,3) by metis
qed

lemma view_slot:
  assumes "fs_inv s'" and "fs_tab s' i = e" and "st_file_no e \<noteq> 0"
  shows "fs_view s' (st_file_no e) = Some (stat_view e)"
  using view_at [OF assms(1), of i "st_file_no e"] assms by simp

subsection \<open>The invariant is kept\<close>

lemma fs_inv_init [simp]: "fs_inv file_io_init"
  by (simp add: fs_inv_def file_io_init_def)

lemma addfile_SomeD:
  assumes "file_addfile f fd off rl s = (Some slot, s')"
  shows "slot \<in> set (probe_seq f)" and "st_state (fs_tab s slot) = 0"
    and "fs_tab s' = (fs_tab s)(slot := stat_zero
               \<lparr>st_state := FS_INIT, st_fd := fd, st_file_no := f, st_position := slot,
                st_block_offset := off, st_read_limit := rl\<rparr>)"
    and "fs_count s' = fs_count s + 1"
  using assms by (auto simp: file_addfile_def split: option.splits dest: find_SomeD)

lemma fs_inv_addfile [escp_inv]:
  assumes "fs_inv s" and "f \<noteq> 0" and "\<forall>i. st_file_no (fs_tab s i) \<noteq> f"
    and "file_addfile f fd off rl s = (Some slot, s')"
  shows "fs_inv s'"
  using assms(1-3) addfile_SomeD [OF assms(4)] unfolding fs_inv_def by (simp, metis)

lemma fs_inv_memset [escp_inv]: "fs_inv s \<Longrightarrow> fs_inv (memset_slot i s)"
  unfolding fs_inv_def memset_slot_def by simp

lemma stat_update_same [simp]:
  "st_state (stat_update b n h e) = st_state e" "st_file_no (stat_update b n h e) = st_file_no e"
  "st_position (stat_update b n h e) = st_position e"
  "st_read_limit (stat_update b n h e) = st_read_limit e"
  by (simp_all add: stat_update_def)

lemma fs_inv_account [escp_inv]:
  assumes "fs_inv s" and "f \<noteq> 0"
  shows "fs_inv (fs_account f b n h s)"
proof (cases "file_getstats f s")
  case None
  then show ?thesis using assms(1) by (simp add: fs_account_def)
next
  case (Some i)
  then have "st_state (fs_tab s i) \<noteq> 0"
    using fs_inv_file_no_state [OF assms] getstats_iff [OF assms] by simp
  moreover have "fs_tab (fs_account f b n h s) = (fs_tab s)(i := stat_update b n h (fs_tab s i))"
    using Some by (simp add: fs_account_def)
  then have "st_state (fs_tab (fs_account f b n h s) j) = st_state (fs_tab s j)"
    and "st_file_no (fs_tab (fs_account f b n h s) j) = st_file_no (fs_tab s j)"
    and "st_position (fs_tab (fs_account f b n h s) j) = st_position (fs_tab s j)"
    and "j \<noteq> i \<Longrightarrow> fs_tab (fs_account f b n h s) j = fs_tab s j" for j
    by simp_all
  ultimately show ?thesis
    using assms(1) unfolding fs_inv_def by metis
qed

lemma fs_inv_upd:
  assumes "fs_inv io" and "st_state (fs_tab io x) \<noteq> 0" and "st_state e \<noteq> 0"
    and "st_file_no e = st_file_no (fs_tab io x)" and "st_position e = st_position (fs_tab io x)"
  shows "fs_inv (io\<lparr>fs_tab := (fs_tab io)(x := e)\<rparr>)"
  using assms unfolding fs_inv_def by (simp, metis)

lemma fs_inv_cong: "fs_tab io = fs_tab io' \<Longrightarrow> fs_inv io = fs_inv io'"
  by (simp add: fs_inv_def)

lemma used_slot_unique:
  assumes "fs_inv io" and "st_file_no (fs_tab io y) = st_file_no (fs_tab io x)" and "st_state (fs_tab io x) \<noteq> 0"
  shows "y = x"
proof -
  have "st_file_no (fs_tab io x) \<noteq> 0"
    using assms(1,3) by (auto simp: fs_inv_def)
  then have "st_state (fs_tab io y) \<noteq> 0"
    using fs_inv_file_no_state [OF assms(1) _ assms(2)] by simp
  then show ?thesis
    using assms unfolding fs_inv_def by blast
qed

lemma fs_inv_clear [escp_inv]: "fs_inv s \<Longrightarrow> fs_inv (fs_clear f s)"
  by (auto simp: fs_clear_def fs_inv_memset split: option.splits)

subsection \<open>The operations on the view\<close>

lemma view_init [simp]: "fs_view file_io_init = Map.empty"
  by (rule ext) (auto simp: view_None_iff file_io_init_def fs_view_def fs_lookup_def
      file_getstats_def find_None_iff)

lemma view_zero [simp]: "fs_view s 0 = None"
  by (simp add: fs_view_def)

lemma view_addfile:
  assumes "fs_inv s" and "f \<noteq> 0" and "fs_view s f = None"
    and add: "file_addfile f fd off rl s = (Some slot, s')"
  shows "fs_view s' = (fs_view s)(f \<mapsto> (fd, 0, 0, 0))"
proof (rule ext)
  fix g
  note D = addfile_SomeD [OF add]
  have fresh: "\<forall>i. st_file_no (fs_tab s i) \<noteq> f"
    using assms(3) view_None_iff [OF assms(1,2)] by simp
  have inv': "fs_inv s'"
    by (rule fs_inv_addfile [OF assms(1,2) fresh add])
  have free: "st_file_no (fs_tab s slot) = 0"
    using assms(1) D(2) unfolding fs_inv_def by (metis stat_zero_simps(2))
  show "fs_view s' g = ((fs_view s)(f \<mapsto> (fd, 0, 0, 0))) g"
  proof (cases "g = 0 \<or> g = f")
    case True
    then show ?thesis
      using view_slot [OF inv', of slot] D(3) assms(2) by (auto simp: stat_view_def stat_zero_def)
  next
    case False
    then have "fs_view s' g = fs_view s g"
      by (intro view_other [OF assms(1) inv' _ D(3)]) (use False in \<open>auto simp: free\<close>)
    with False show ?thesis
      by simp
  qed
qed

lemma view_clear:
  assumes "fs_inv s" and "f \<noteq> 0"
  shows "fs_view (fs_clear f s) = (fs_view s)(f := None)"
proof (cases "file_getstats f s")
  case None
  then show ?thesis
    by (auto simp: fs_clear_def fs_view_def fs_lookup_def)
next
  case (Some i)
  then have i: "st_file_no (fs_tab s i) = f"
    using getstats_iff [OF assms] by simp
  have inv': "fs_inv (fs_clear f s)"
    by (rule fs_inv_clear [OF assms(1)])
  have tab: "fs_tab (fs_clear f s) = (fs_tab s)(i := stat_zero)"
    using Some by (simp add: fs_clear_def memset_slot_def)
  have only: "st_file_no (fs_tab s j) = f \<Longrightarrow> j = i" for j
    using getstats_iff [OF assms] Some by (metis option.inject)
  show ?thesis
  proof (rule ext)
    fix g
    show "fs_view (fs_clear f s) g = ((fs_view s)(f := None)) g"
    proof (cases "g = f")
      case True
      then show ?thesis
        using view_None_iff [OF inv' assms(2)] tab only assms(2) by auto
    next
      case False
      then show ?thesis
        using view_other [OF assms(1) inv' _ tab, of g] i by (cases "g = 0") auto
    qed
  qed
qed

lemma view_account:
  assumes "fs_inv s" and "f \<noteq> 0"
  shows "fs_view (fs_account f b n h s) = (fs_view s)(f := map_option (view_account b n h) (fs_view s f))"
proof (cases "file_getstats f s")
  case None
  then show ?thesis
    by (auto simp: fs_account_def fs_view_def fs_lookup_def)
next
  case (Some i)
  then have i: "st_file_no (fs_tab s i) = f"
    using getstats_iff [OF assms] by simp
  let ?e = "stat_update b n h (fs_tab s i)"
  have inv': "fs_inv (fs_account f b n h s)"
    by (rule fs_inv_account [OF assms])
  have tab: "fs_tab (fs_account f b n h s) = (fs_tab s)(i := ?e)"
    using Some by (simp add: fs_account_def)
  show ?thesis
  proof (rule ext)
    fix g
    show "fs_view (fs_account f b n h s) g
        = ((fs_view s)(f := map_option (view_account b n h) (fs_view s f))) g"
    proof (cases "g = f")
      case True
      then show ?thesis
        using view_slot [OF inv', of i ?e] view_at [OF assms(1) i assms(2)] tab i assms(2)
        by (simp add: stat_view_def view_account_def stat_update_def)
    next
      case False
      then show ?thesis
        using view_other [OF assms(1) inv' _ tab, of g] i by (cases "g = 0") auto
    qed
  qed
qed

section \<open>The contract of the table\<close>

text \<open>
  What the transfer code relies on: a finite map from file numbers to descriptors and
  counters, in which adding may be refused (\<open>new\<close> returns None when the probe sequence is
  full) but never disturbs another file.
\<close>

locale fino_table =
  fixes inv :: "'t \<Rightarrow> bool"
    and view :: "'t \<Rightarrow> fino \<Rightarrow> file_view option"
    and empty :: 't
    and new :: "fino \<Rightarrow> i32 \<Rightarrow> 't \<Rightarrow> 't option"
    and account :: "fino \<Rightarrow> u64 \<Rightarrow> u64 \<Rightarrow> u32 \<Rightarrow> 't \<Rightarrow> 't"
    and clear :: "fino \<Rightarrow> 't \<Rightarrow> 't"
  assumes inv_empty: "inv empty"
    and view_empty: "view empty = Map.empty"
    and inv_new: "inv s \<Longrightarrow> f \<noteq> 0 \<Longrightarrow> view s f = None \<Longrightarrow> new f fd s = Some s' \<Longrightarrow> inv s'"
    and view_new: "inv s \<Longrightarrow> f \<noteq> 0 \<Longrightarrow> view s f = None \<Longrightarrow> new f fd s = Some s' \<Longrightarrow>
      view s' = (view s)(f \<mapsto> (fd, 0, 0, 0))"
    and inv_acc: "inv s \<Longrightarrow> f \<noteq> 0 \<Longrightarrow> inv (account f b n h s)"
    and view_acc: "inv s \<Longrightarrow> f \<noteq> 0 \<Longrightarrow>
      view (account f b n h s) = (view s)(f := map_option (view_account b n h) (view s f))"
    and inv_clr: "inv s \<Longrightarrow> f \<noteq> 0 \<Longrightarrow> inv (clear f s)"
    and view_clr: "inv s \<Longrightarrow> f \<noteq> 0 \<Longrightarrow> view (clear f s) = (view s)(f := None)"
begin

lemma exec_refines:
  assumes "inv s" and "op_pre op (view s)" and "exec_with new account clear op s = (ok, s')"
  shows "inv s' \<and> view s' = view_exec op ok (view s)"
proof (cases op)
  case (FsAdd f fd)
  then have pre: "f \<noteq> 0" "view s f = None"
    using assms(2) by simp_all
  show ?thesis
  proof (cases "new f fd s")
    case None
    then show ?thesis using FsAdd assms by auto
  next
    case (Some t)
    then have "ok" and "s' = t"
      using FsAdd assms(3) by auto
    with FsAdd inv_new [OF assms(1) pre Some] view_new [OF assms(1) pre Some] show ?thesis
      by simp
  qed
next
  case (FsAccount f b n h)
  then show ?thesis
    using assms inv_acc [of s f b n h] view_acc [of s f b n h] by auto
next
  case (FsClear f)
  then show ?thesis
    using assms inv_clr [of s f] view_clr [of s f] by auto
qed

lemma run_refines:
  assumes "inv s" and "run_with new account clear ops s = (oks, s')"
    and "view_run (zip ops oks) (view s) = Some m"
  shows "inv s' \<and> view s' = m"
  using assms
proof (induction ops arbitrary: s oks)
  case Nil
  then show ?case by simp
next
  case (Cons op ops)
  obtain ok s1 where e: "exec_with new account clear op s = (ok, s1)"
    by (cases "exec_with new account clear op s")
  obtain oks' s2 where r: "run_with new account clear ops s1 = (oks', s2)"
    by (cases "run_with new account clear ops s1")
  have oks: "oks = ok # oks'" "s2 = s'"
    using Cons.prems(2) e r by auto
  have pre: "op_pre op (view s)" and run: "view_run (zip ops oks') (view_exec op ok (view s)) = Some m"
    using Cons.prems(3) oks by (auto split: if_splits)
  have "inv s1 \<and> view s1 = view_exec op ok (view s)"
    by (rule exec_refines [OF Cons.prems(1) pre e])
  then show ?case
    using Cons.IH [of s1 oks'] r run oks by simp
qed

lemma history_refines:
  "run_with new account clear ops empty = (oks, s) \<Longrightarrow>
   view_run (zip ops oks) Map.empty = Some m \<Longrightarrow> inv s \<and> view s = m"
  using run_refines [OF inv_empty] view_empty by simp

end

lemma fs_new_Some_iff: "fs_new f fd s = Some s' \<longleftrightarrow> (\<exists>slot. file_addfile f fd 0 0 s = (Some slot, s'))"
  by (auto simp: fs_new_def split: prod.splits option.splits)

interpretation ftab: fino_table fs_inv fs_view file_io_init fs_new fs_account fs_clear
proof unfold_locales
  show "fs_inv s'" if "fs_inv s" "f \<noteq> 0" "fs_view s f = None" "fs_new f fd s = Some s'" for s s' f fd
    using that view_None_iff fs_inv_addfile unfolding fs_new_Some_iff by metis
  show "fs_view s' = (fs_view s)(f \<mapsto> (fd, 0, 0, 0))"
    if "fs_inv s" "f \<noteq> 0" "fs_view s f = None" "fs_new f fd s = Some s'" for s s' f fd
    using that view_addfile unfolding fs_new_Some_iff by blast
qed (simp_all add: fs_inv_account view_account fs_inv_clear view_clear)

section \<open>Properties\<close>

text \<open>
  Claim C9. The hash table refines a map: after any history of adds, block accountings and
  clears in which no open file is added again, the table is well formed and every file number
  looks up exactly the descriptor and the counters that the same history leaves in a finite
  map, where an add has an effect exactly when \<open>file_addfile\<close> accepted it.
\<close>

theorem file_table_refines_map:
  "run_with fs_new fs_account fs_clear ops file_io_init = (oks, s) \<Longrightarrow>
   view_run (zip ops oks) Map.empty = Some m \<Longrightarrow> fs_inv s \<and> fs_view s = m"
  by (rule ftab.history_refines)

theorem file_table_refines_map_witness:
  "fs_view (snd (run_with fs_new fs_account fs_clear
      [FsAdd 7 3, FsAccount 7 1 500 0xAB, FsClear 7] file_io_init)) = Map.empty"
proof -
  let ?ops = "[FsAdd 7 3, FsAccount 7 1 500 0xAB, FsClear 7]"
  obtain oks s where r: "run_with fs_new fs_account fs_clear ?ops file_io_init = (oks, s)"
    by (cases "run_with fs_new fs_account fs_clear ?ops file_io_init")
  then have "length oks = 3"
    by (auto split: prod.splits)
  then obtain a b c where "oks = [a, b, c]"
    by (auto simp: numeral_3_eq_3 length_Suc_conv)
  then have "view_run (zip ?ops oks) Map.empty = Some Map.empty"
    by (auto simp: fun_upd_def)
  from file_table_refines_map [OF r this] r show ?thesis
    by simp
qed

text \<open>
  \<open>file_addfile\<close> refuses a file only when every probed slot is occupied: it accepts
  whenever fewer files are open than its probe sequence has different slots; the slot lies in
  the 2048-entry table, no other slot changes, and a refused add changes nothing.
\<close>

theorem file_addfile_accepts:
  "(\<forall>s'. file_addfile f fd off rl s = (None, s') \<longrightarrow>
      s' = s \<and> card (set (probe_seq f)) \<le> card {i. i < FILE_STAT_COUNT_HSZ \<and> st_state (fs_tab s i) \<noteq> 0}) \<and>
   (\<forall>slot s'. file_addfile f fd off rl s = (Some slot, s') \<longrightarrow>
      slot < FILE_STAT_COUNT_HSZ \<and> st_state (fs_tab s slot) = 0 \<and> fs_count s' = fs_count s + 1 \<and>
      (\<forall>i. i \<noteq> slot \<longrightarrow> fs_tab s' i = fs_tab s i))"
proof (intro conjI allI impI)
  fix s'
  assume none: "file_addfile f fd off rl s = (None, s')"
  then show "s' = s"
    by (auto simp: file_addfile_def split: option.splits)
  from none have "\<forall>i \<in> set (probe_seq f). st_state (fs_tab s i) \<noteq> 0"
    by (auto simp: file_addfile_def find_None_iff split: option.splits)
  then show "card (set (probe_seq f)) \<le> card {i. i < FILE_STAT_COUNT_HSZ \<and> st_state (fs_tab s i) \<noteq> 0}"
    by (intro card_mono) (auto simp: probe_seq_def dest: probes_range)
qed (auto dest: addfile_SomeD simp: probe_seq_def probes_range)

theorem file_addfile_accepts_witness:
  "file_addfile 0 3 0 0 file_io_init \<noteq> (None, file_io_init)"
proof -
  have "set (probe_seq 0) \<noteq> {}"
    by (simp add: probe_seq_def FILE_STAT_COUNT_CC_def Let_def eval_nat_numeral)
  then have "0 < card (set (probe_seq 0))"
    by (simp add: card_gt_0_iff)
  moreover have "card {i. i < FILE_STAT_COUNT_HSZ \<and> st_state (fs_tab file_io_init i) \<noteq> 0} = 0"
    by (simp add: file_io_init_def)
  ultimately show ?thesis
    using file_addfile_accepts [of 0 3 0 0 file_io_init] by (metis less_le_not_le)
qed

lemma rust_crc_eq: "rust_crc e = st_read_limit e"
proof -
  have "offset_of rust_layout ''crc'' = Some 56" "offset_of c_layout ''read_limit'' = Some 56"
    by (simp_all add: rust_layout_def c_layout_def)
  then show ?thesis
    by (simp add: rust_crc_def c_u32_at_def)
qed

text \<open>
  The checksum that the Rust side reads from an entry is not the checksum the I/O
  workers accumulated: the field \<open>crc\<close> of \<open>bindings.rs\<close> lies at offset 56, where the C
  structure has \<open>read_limit\<close>, while the C \<open>crc\<close> lies at offset 60. Rust adds files with a read
  limit of 0, so it reads 0 whatever was accumulated.
\<close>

theorem rust_crc_reads_read_limit:
  "offset_of rust_layout ''crc'' = Some 56 \<and> offset_of c_layout ''crc'' = Some 60 \<and>
   rust_crc e = st_read_limit e \<and>
   (file_addfile f fd 0 0 s = (Some slot, s') \<longrightarrow> rust_crc (stat_update b n h (fs_tab s' slot)) = 0)"
proof -
  have "offset_of rust_layout ''crc'' = Some 56" "offset_of c_layout ''crc'' = Some 60"
    by (simp_all add: rust_layout_def c_layout_def)
  then show ?thesis
    by (auto simp: rust_crc_eq dest: addfile_SomeD)
qed

theorem rust_crc_reads_read_limit_witness:
  "\<exists>slot s'. file_addfile 0 3 0 0 file_io_init = (Some slot, s') \<and>
     rust_crc (stat_update 1 500 0xAB (fs_tab s' slot)) = 0 \<and>
     st_crc (stat_update 1 500 0xAB (fs_tab s' slot)) = 0xAB"
proof -
  obtain slot s' where a: "file_addfile 0 3 0 0 file_io_init = (Some slot, s')"
    by (auto simp: file_addfile_def file_io_init_def probe_seq_def FILE_STAT_COUNT_CC_def Let_def
        eval_nat_numeral)
  then have "st_crc (fs_tab s' slot) = 0"
    by (simp add: addfile_SomeD(3))
  then show ?thesis
    using a rust_crc_reads_read_limit [of stat_zero 0 3 file_io_init slot s' 1 500 "0xAB"]
    by (simp add: stat_update_def)
qed

end
