(* ===== verification/Receiver.thy ===== *)
theory Receiver
  imports Meta_Channel Command_Line Stat_Table "HOL-Library.Multiset"
begin

text \<open>
  The receiving side (\<open>src/escp/receiver.rs\<close>): the queues and the hash map of
  \<open>escp_receiver\<close>, \<open>add_file\<close>, \<open>close_file\<close>, \<open>send_file_completions\<close>, \<open>send_file_error\<close>,
  the handling of the sender's messages and the main loop. The operating system and the C
  workers are parameters: a record of operations on a world of arbitrary type. The loop is a
  step function; the run of the program interleaves its steps with the accounting of blocks
  by the I/O workers.
\<close>

section \<open>State\<close>

record FileInformation =
  fi_path :: string
  fi_fino :: fino
  fi_sz :: i64
  fi_blocks :: i64
  fi_fd :: i32
  fi_mode :: u32
  fi_uid :: u32
  fi_gid :: u32
  fi_atim_sec :: i64
  fi_atim_nano :: i64
  fi_mtim_sec :: i64
  fi_mtim_nano :: i64
  fi_crc :: u32

definition FileInformation_default :: FileInformation where
  "FileInformation_default =
     \<lparr>fi_path = [], fi_fino = 0, fi_sz = 0, fi_blocks = -1, fi_fd = 0, fi_mode = 0, fi_uid = 0,
      fi_gid = 0, fi_atim_sec = 0, fi_atim_nano = 0, fi_mtim_sec = 0, fi_mtim_nano = 0, fi_crc = 0\<rparr>"

text \<open>
  The operations the receiver calls: \<open>open\<close> returns a descriptor and the error number of the
  thread, \<open>preserve\<close>, \<open>truncate\<close> and \<open>close_fd\<close> are the function pointers of the I/O engine,
  \<open>meta_recv\<close> returns a frame or null.
\<close>

record 'w rx_os =
  os_open :: "string \<Rightarrow> i32 \<Rightarrow> 'w \<Rightarrow> (i32 \<times> i32) \<times> 'w"
  os_create_dir_all :: "string \<Rightarrow> 'w \<Rightarrow> 'w"
  os_preserve :: "i32 \<Rightarrow> FileInformation \<Rightarrow> 'w \<Rightarrow> 'w"
  os_truncate :: "i32 \<Rightarrow> i64 \<Rightarrow> 'w \<Rightarrow> 'w"
  os_close_fd :: "i32 \<Rightarrow> 'w \<Rightarrow> 'w"
  os_meta_recv :: "'w \<Rightarrow> u8 list option \<times> 'w"
  os_meta_complete :: "'w \<Rightarrow> 'w"
  os_threads_finished :: "'w \<Rightarrow> u64"
  os_sleep :: "nat \<Rightarrow> 'w \<Rightarrow> 'w"
  os_scale :: "nat \<Rightarrow> nat"

record 'w rx =
  rx_args :: dtn_args
  rx_add :: "fino list"
  rx_close :: "fino list"
  rx_hash :: "fino \<Rightarrow> FileInformation option"
  rx_complete :: "FileInformation list"
  rx_count_in :: nat
  rx_count_out :: nat
  rx_transfer_complete :: bool
  rx_timeout :: nat
  rx_tab :: file_io
  rx_sent :: "u8 list list"
  rx_world :: 'w

section \<open>Paths\<close>

text \<open>
  The name of a file: with a destination name the sender joins the two with a NUL, and the
  receiver tries the destination name first and the joined path when that is a directory.
\<close>

definition open_paths :: "string \<Rightarrow> string \<times> string option" where
  "open_paths p =
     (case split_on (char_of (0 :: nat)) p of
        a # b # _ \<Rightarrow> (a, Some (path_join a b))
      | _ \<Rightarrow> (p, None))"

section \<open>add\_file\<close>

datatype add_result = Added | Stop i64

definition EINVAL :: i32 where "EINVAL = 22"
definition EISDIR :: i32 where "EISDIR = 21"
definition ENOENT :: i32 where "ENOENT = 2"
definition EMFILE :: i32 where "EMFILE = 24"

text \<open>
  An opened file: its descriptor is stored, its attributes are set, and it enters the table,
  which may refuse it (the file then stays in the queue).
\<close>

definition enter_file ::
    "'w rx_os \<Rightarrow> fino \<Rightarrow> FileInformation \<Rightarrow> i32 \<Rightarrow> 'w rx \<Rightarrow> add_result \<times> 'w rx" where
  "enter_file os f i fd s =
     (let i1 = i\<lparr>fi_fd := fd\<rparr>;
          s1 = s\<lparr>rx_hash := (rx_hash s)(f \<mapsto> i1)\<rparr>;
          s2 = (if da_do_preserve (rx_args s)
                then s1\<lparr>rx_world := os_preserve os fd i1 (rx_world s1)\<rparr> else s1)
      in case file_addfile (fi_fino i) fd 0 0 (rx_tab s2) of
           (None, _) \<Rightarrow> (Stop 0, s2)
         | (Some _, tab) \<Rightarrow> (Added, s2\<lparr>rx_tab := tab, rx_add := tl (rx_add s2)\<rparr>))"

definition call_open :: "'w rx_os \<Rightarrow> string \<Rightarrow> 'w rx \<Rightarrow> (i32 \<times> i32) \<times> 'w rx" where
  "call_open os fp s =
     (let flags = (if da_nodirect (rx_args s) then da_flags (rx_args s)
                   else da_flags (rx_args s) OR O_DIRECT);
          (r, w) = os_open os fp flags (rx_world s)
      in (r, s\<lparr>rx_world := w\<rparr>))"

text \<open>The attempts of \<open>for _ in 1..5\<close>; the first argument counts what is left of them.\<close>

fun open_attempts ::
    "nat \<Rightarrow> 'w rx_os \<Rightarrow> string \<Rightarrow> string option \<Rightarrow> fino \<Rightarrow> FileInformation \<Rightarrow> 'w rx
       \<Rightarrow> (add_result \<times> 'w rx) outcome" where
  "open_attempts 0 os fp alt f i s = Done (Stop 0, s)"
| "open_attempts (Suc n) os fp alt f i s =
     (let ((fd, errno), s1) = call_open os fp s
      in if \<not> da_nodirect (rx_args s) \<and> fd = -1 \<and> errno = EINVAL then
           open_attempts n os fp alt f i (s1\<lparr>rx_args := (rx_args s1)\<lparr>da_nodirect := True\<rparr>\<rparr>)
         else if fd = -1 \<and> errno = EISDIR \<and> alt \<noteq> None \<and> alt \<noteq> Some fp then
           open_attempts n os (the alt) alt f i s1
         else if fd < 1 then
           (if errno = ENOENT then
              (case path_parent (fi_path i) of
                 None \<Rightarrow> Panicked ''unwrap on None''
               | Some dir_path \<Rightarrow>
                   open_attempts n os fp alt f i
                     (s1\<lparr>rx_world := os_create_dir_all os dir_path (rx_world s1)\<rparr>))
            else if errno \<noteq> EMFILE then Done (Stop errno, s1)
            else Done (Stop 0, s1))
         else Done (enter_file os f i fd s1))"

fun add_loop :: "'w rx_os \<Rightarrow> fino list \<Rightarrow> nat \<Rightarrow> 'w rx \<Rightarrow> ((nat \<times> i64) \<times> 'w rx) outcome" where
  "add_loop os [] filecount s = Done ((filecount, 0), s)"
| "add_loop os (f # fs) filecount s =
     bind_outcome (unwrap ''unwrap on None'' (rx_hash s f)) (\<lambda>i.
       let (fp, alt_fp) = open_paths (fi_path i)
       in bind_outcome (open_attempts 4 os fp alt_fp f i s) (\<lambda>(r, s1).
            case r of
              Added \<Rightarrow> add_loop os fs (filecount + 1) s1
            | Stop code \<Rightarrow> Done ((filecount, code), s1)))"

definition add_file :: "'w rx_os \<Rightarrow> 'w rx \<Rightarrow> ((nat \<times> i64) \<times> 'w rx) outcome" where
  "add_file os s = add_loop os (rx_add s) 0 s"

section \<open>close\_file\<close>

text \<open>
  The front file is closed when it is in the table, its block count is known, and the workers
  have written that many blocks; otherwise the loop ends.
\<close>

definition finish_file :: "'w rx_os \<Rightarrow> fino \<Rightarrow> nat \<Rightarrow> FileInformation \<Rightarrow> 'w rx \<Rightarrow> 'w rx" where
  "finish_file os f slot fi s =
     (let w1 = os_truncate os (fi_fd fi) (fi_sz fi) (rx_world s);
          w2 = (if da_do_preserve (rx_args s) then os_preserve os (fi_fd fi) fi w1 else w1);
          w3 = os_close_fd os (fi_fd fi) w2
      in s\<lparr>rx_world := w3, rx_hash := (rx_hash s)(f := None), rx_close := tl (rx_close s),
           rx_tab := file_incrementtail (memset_slot slot (rx_tab s))\<rparr>)"

fun close_loop ::
    "'w rx_os \<Rightarrow> fino list \<Rightarrow> FileInformation list \<Rightarrow> 'w rx \<Rightarrow> (FileInformation list \<times> 'w rx) outcome" where
  "close_loop os [] ret s = Done (ret, s)"
| "close_loop os (f # fs) ret s =
     (case file_getstats f (rx_tab s) of
        None \<Rightarrow> Done (ret, s)
      | Some slot \<Rightarrow>
          bind_outcome (unwrap ''unwrap on None'' (rx_hash s f)) (\<lambda>fi.
            let stats = fs_tab (rx_tab s) slot
            in if fi_blocks fi < 0 then Done (ret, s)
               else if u64_as_i64 (st_block_total stats) < fi_blocks fi then Done (ret, s)
               else close_loop os fs (ret @ [fi\<lparr>fi_crc := rust_crc stats\<rparr>]) (finish_file os f slot fi s)))"

definition close_file :: "'w rx_os \<Rightarrow> 'w rx \<Rightarrow> (FileInformation list \<times> 'w rx) outcome" where
  "close_file os s = close_loop os (rx_close s) [] s"

section \<open>Status messages\<close>

definition completion_entry :: "FileInformation \<Rightarrow> File" where
  "completion_entry fi = FileArgs_default\<lparr>f_fino := fi_fino fi, f_crc := fi_crc fi\<rparr>"

definition completion_list :: "FileInformation list \<Rightarrow> ESCP_file_list" where
  "completion_list fis =
     ESCP_file_listArgs_default\<lparr>fl_files := Some (map completion_entry fis), fl_fc_stat := True\<rparr>"

definition completion_batch :: nat where "completion_batch = 4096"

text \<open>Entries are popped from the end, at most 4096 of them.\<close>

definition send_file_completions :: "'t codec \<Rightarrow> 'w rx \<Rightarrow> (bool \<times> 'w rx) outcome" where
  "send_file_completions C s =
     (if rx_complete s = [] then Done (False, s)
      else let popped = take completion_batch (rev (rx_complete s));
               rest = rev (drop completion_batch (rev (rx_complete s)))
           in bind_outcome (send_file_stat C 100000 (completion_list popped)) (\<lambda>frame.
                Done (True, s\<lparr>rx_complete := rest, rx_sent := rx_sent s @ [frame]\<rparr>)))"

definition send_file_error :: "'t codec \<Rightarrow> fino \<Rightarrow> string \<Rightarrow> string \<Rightarrow> i32 \<Rightarrow> 'w rx \<Rightarrow> 'w rx outcome" where
  "send_file_error C fino name errmsg errno s =
     bind_outcome
       (send_file_stat C 1000
          (ESCP_file_listArgs_default
             \<lparr>fl_files := Some [FileArgs_default\<lparr>f_fino := fino, f_name := Some name,
                                                  f_errmsg := Some errmsg, f_errno := errno\<rparr>],
              fl_fc_stat := True\<rparr>))
       (\<lambda>frame. Done (s\<lparr>rx_sent := rx_sent s @ [frame]\<rparr>))"

section \<open>Messages from the sender\<close>

definition entry_or_default :: "(fino \<Rightarrow> FileInformation option) \<Rightarrow> fino \<Rightarrow> FileInformation" where
  "entry_or_default h f = (case h f of Some a \<Rightarrow> a | None \<Rightarrow> FileInformation_default)"

definition full_path :: "string \<Rightarrow> string \<Rightarrow> string" where
  "full_path root filename = (if root = [] then filename else root @ CHR ''/'' # filename)"

text \<open>The specification of a file: everything but its block count.\<close>

definition spec_entry :: "string \<Rightarrow> File \<Rightarrow> FileInformation \<Rightarrow> FileInformation" where
  "spec_entry path e fi =
     fi\<lparr>fi_path := path, fi_sz := (if fi_sz fi = 0 then f_sz e else fi_sz fi), fi_fino := f_fino e,
        fi_mode := f_mode e, fi_uid := f_uid e, fi_gid := f_gid e, fi_atim_sec := f_atim_sec e,
        fi_atim_nano := f_atim_nano e, fi_mtim_sec := f_mtim_sec e, fi_mtim_nano := f_mtim_nano e\<rparr>"

definition hash_spec ::
    "string \<Rightarrow> File \<Rightarrow> (fino \<Rightarrow> FileInformation option) \<Rightarrow> fino \<Rightarrow> FileInformation option" where
  "hash_spec path e h = h(f_fino e \<mapsto> spec_entry path e (entry_or_default h (f_fino e)))"

text \<open>The completion of a file: its block count, and its size when it is known.\<close>

definition count_entry :: "File \<Rightarrow> FileInformation \<Rightarrow> FileInformation" where
  "count_entry e fi =
     fi\<lparr>fi_blocks := f_blocks e, fi_sz := (if f_sz e > 0 then f_sz e else fi_sz fi)\<rparr>"

definition hash_count ::
    "File \<Rightarrow> (fino \<Rightarrow> FileInformation option) \<Rightarrow> fino \<Rightarrow> FileInformation option" where
  "hash_count e h = h(f_fino e \<mapsto> count_entry e (entry_or_default h (f_fino e)))"

fun take_specs :: "string \<Rightarrow> File list \<Rightarrow> 'w rx \<Rightarrow> 'w rx outcome" where
  "take_specs root [] s = Done s"
| "take_specs root (e # es) s =
     bind_outcome (unwrap ''unwrap on None'' (f_name e)) (\<lambda>filename.
       take_specs root es
         (s\<lparr>rx_hash := hash_spec (full_path root filename) e (rx_hash s),
            rx_add := rx_add s @ [f_fino e]\<rparr>))"

fun take_counts :: "File list \<Rightarrow> 'w rx \<Rightarrow> 'w rx" where
  "take_counts [] s = s"
| "take_counts (e # es) s =
     take_counts es
       (s\<lparr>rx_hash := hash_count e (rx_hash s), rx_close := rx_close s @ [f_fino e]\<rparr>)"

definition take_file_list :: "ESCP_file_list \<Rightarrow> 'w rx \<Rightarrow> 'w rx outcome" where
  "take_file_list fs s =
     bind_outcome (unwrap ''unwrap on None'' (fl_files fs)) (\<lambda>entries.
       case fl_root fs of
         Some root \<Rightarrow> take_specs root entries s
       | None \<Rightarrow> Done (take_counts entries s))"

text \<open>
  The second half of an iteration. A type of \<open>0x430B\<close>, and type 1 with an empty body
  (\<open>msg_session_complete\<close>), set the completion flag; other types are ignored.
\<close>

definition meta_done :: "'w rx_os \<Rightarrow> 'w rx \<Rightarrow> 'w rx" where
  "meta_done os s = s\<lparr>rx_world := os_meta_complete os (rx_world s)\<rparr>"

definition take_message :: "'t codec \<Rightarrow> 'w rx_os \<Rightarrow> u8 list \<Rightarrow> 'w rx \<Rightarrow> 'w rx outcome" where
  "take_message C os ptr s =
     bind_outcome (rx_open C ptr) (\<lambda>(sz, t, c).
       if t = msg_file_spec then
         bind_outcome (rx_file_list C c) (\<lambda>fs.
         bind_outcome (take_file_list fs s) (\<lambda>s1. Done (meta_done os s1)))
       else if t = 0x430B then Done (meta_done os (s\<lparr>rx_transfer_complete := True\<rparr>))
       else if t = 1 \<and> sz = 0 then Done (meta_done os (s\<lparr>rx_transfer_complete := True\<rparr>))
       else Done (meta_done os s))"

section \<open>The main loop\<close>

datatype rx_signal = Again | Finished

text \<open>
  No message waits: completions are sent, or the loop leaves when all workers have ended, or
  the timeout grows (\<open>os_scale\<close> is the multiplication by 1.337 in \<open>f64\<close>), a keepalive goes
  out above 145000 microseconds, and above 275000 the timeout is halved.
\<close>

definition idle_wait :: "'w rx_os \<Rightarrow> 'w rx \<Rightarrow> 'w rx" where
  "idle_wait os s =
     (let t1 = os_scale os (rx_timeout s);
          t2 = (if t1 > 145000 \<and> t1 > 275000 then t1 div 2 else t1);
          sent = (if t1 > 145000 then rx_sent s @ [send_empty msg_keepalive] else rx_sent s)
      in s\<lparr>rx_timeout := t2, rx_sent := sent, rx_world := os_sleep os t2 (rx_world s)\<rparr>)"

definition rx_idle :: "'t codec \<Rightarrow> 'w rx_os \<Rightarrow> 'w rx \<Rightarrow> (rx_signal \<times> 'w rx) outcome" where
  "rx_idle C os s =
     bind_outcome (send_file_completions C s) (\<lambda>(sent, s1).
       if sent then Done (Again, s1\<lparr>rx_timeout := 100\<rparr>)
       else if of_int (da_thread_count (rx_args s1)) \<le> os_threads_finished os (rx_world s1) then Exited (-1)
       else Done (Again, idle_wait os s1))"

text \<open>The error that \<open>add_file\<close> reported is sent and its file leaves the queue.\<close>

definition report_error :: "'t codec \<Rightarrow> i64 \<Rightarrow> 'w rx \<Rightarrow> 'w rx outcome" where
  "report_error C file_error s =
     (if file_error > 0 then
        (case rx_add s of
           [] \<Rightarrow> Panicked ''unwrap on None''
         | fi # rest \<Rightarrow>
             bind_outcome (unwrap ''unwrap on None'' (rx_hash s fi)) (\<lambda>i.
               send_file_error C fi (fi_path i) [] file_error (s\<lparr>rx_add := rest\<rparr>)))
      else Done s)"

text \<open>
  The first half of an iteration: files are added and closed, the counters and the list of
  completions move, an error is reported.
\<close>

definition rx_front :: "'t codec \<Rightarrow> 'w rx_os \<Rightarrow> 'w rx \<Rightarrow> (nat \<times> 'w rx) outcome" where
  "rx_front C os s0 =
     bind_outcome (add_file os s0) (\<lambda>((filecount, file_error), s1).
     bind_outcome (close_file os s1) (\<lambda>(res, s2).
       let s3 = s2\<lparr>rx_count_out := rx_count_out s2 + length res, rx_complete := rx_complete s2 @ res,
                    rx_count_in := rx_count_in s2 + filecount\<rparr>
       in bind_outcome (report_error C file_error s3) (\<lambda>s4. Done (filecount, s4))))"

text \<open>One iteration. \<open>append\<close> empties \<open>res\<close>, so only \<open>filecount\<close> decides the early \<open>continue\<close>.\<close>

definition rx_iter :: "'t codec \<Rightarrow> 'w rx_os \<Rightarrow> 'w rx \<Rightarrow> (rx_signal \<times> 'w rx) outcome" where
  "rx_iter C os s0 =
     bind_outcome (rx_front C os s0) (\<lambda>(filecount, s4).
       if rx_transfer_complete s4 \<and> rx_count_in s4 = rx_count_out s4 then Done (Finished, s4)
       else if filecount > 0 then Done (Again, s4\<lparr>rx_timeout := 100\<rparr>)
       else case os_meta_recv os (rx_world s4) of
              (None, w) \<Rightarrow> rx_idle C os (s4\<lparr>rx_world := w\<rparr>)
            | (Some ptr, w) \<Rightarrow>
                bind_outcome (take_message C os ptr (s4\<lparr>rx_world := w, rx_timeout := 100\<rparr>))
                  (\<lambda>s5. Done (Again, s5)))"

text \<open>After the loop the session-complete message goes out.\<close>

definition rx_finish :: "'w rx \<Rightarrow> 'w rx" where
  "rx_finish s = s\<lparr>rx_sent := rx_sent s @ [send_empty msg_session_complete]\<rparr>"

definition rx_start :: "dtn_args \<Rightarrow> 'w \<Rightarrow> 'w rx" where
  "rx_start args w =
     \<lparr>rx_args = args, rx_add = [], rx_close = [], rx_hash = Map.empty, rx_complete = [],
      rx_count_in = 0, rx_count_out = 0, rx_transfer_complete = False, rx_timeout = 100,
      rx_tab = file_io_init, rx_sent = [], rx_world = w\<rparr>"

section \<open>The invariant\<close>

text \<open>
  A file waiting to be added is known and not yet in the table; a file in the table is known
  under its number and with its descriptor. The read limit of every entry is the 0 that
  \<open>add_file\<close> passes.
\<close>

definition waiting :: "'w rx \<Rightarrow> fino \<Rightarrow> bool" where
  "waiting s f \<longleftrightarrow>
     f \<noteq> 0 \<and> fs_view (rx_tab s) f = None \<and>
     (\<exists>i. rx_hash s f = Some i \<and> fi_fino i = f \<and> path_parent (fi_path i) \<noteq> None)"

definition entered :: "'w rx \<Rightarrow> fino \<Rightarrow> bool" where
  "entered s f \<longleftrightarrow>
     (\<forall>v. fs_view (rx_tab s) f = Some v \<longrightarrow>
        (\<exists>i. rx_hash s f = Some i \<and> fi_fino i = f \<and> fi_fd i = fst v))"

definition rx_wf :: "'w rx \<Rightarrow> bool" where
  "rx_wf s \<longleftrightarrow>
     fs_inv (rx_tab s) \<and> (\<forall>i. st_read_limit (fs_tab (rx_tab s) i) = 0) \<and>
     distinct (rx_add s) \<and> (\<forall>f \<in> set (rx_add s). waiting s f) \<and>
     (\<forall>f \<in> set (rx_close s). f \<noteq> 0) \<and> (\<forall>f. entered s f)"

text \<open>Updates of the hash map by the entries of the sender's messages.\<close>

datatype rx_update = Spec string File | Count File

fun update_key :: "rx_update \<Rightarrow> bool \<times> fino" where
  "update_key (Spec p e) = (True, f_fino e)"
| "update_key (Count e) = (False, f_fino e)"

fun apply_update ::
    "rx_update \<Rightarrow> (fino \<Rightarrow> FileInformation option) \<Rightarrow> fino \<Rightarrow> FileInformation option" where
  "apply_update (Spec p e) h = hash_spec p e h"
| "apply_update (Count e) h = hash_count e h"

text \<open>What adding and closing leave alone.\<close>

definition rx_rest :: "'w rx \<Rightarrow> FileInformation list \<times> nat \<times> nat \<times> bool \<times> nat \<times> u8 list list" where
  "rx_rest s =
     (rx_complete s, rx_count_in s, rx_count_out s, rx_transfer_complete s, rx_timeout s, rx_sent s)"

definition open_files :: "'w rx \<Rightarrow> fino set" where
  "open_files s = dom (fs_view (rx_tab s))"

definition rx_inv :: "'w rx \<Rightarrow> bool" where
  "rx_inv s \<longleftrightarrow>
     rx_wf s \<and> rx_count_in s = rx_count_out s + card (open_files s) \<and>
     (\<forall>fi \<in> set (rx_complete s). fi_crc fi = 0 \<and> 0 \<le> fi_blocks fi)"

text \<open>
  The discipline of the sender: a specification names a file that is new to the receiver, with
  a path that has a parent directory; block counts are for file numbers other than 0.
\<close>

definition spec_ok :: "'w rx \<Rightarrow> string \<Rightarrow> File \<Rightarrow> bool" where
  "spec_ok s root e \<longleftrightarrow>
     f_fino e \<noteq> 0 \<and> f_fino e \<notin> set (rx_add s) \<and> fs_view (rx_tab s) (f_fino e) = None \<and>
     (case f_name e of None \<Rightarrow> False | Some n \<Rightarrow> path_parent (full_path root n) \<noteq> None)"

definition list_ok :: "'w rx \<Rightarrow> ESCP_file_list \<Rightarrow> bool" where
  "list_ok s fl \<longleftrightarrow>
     (case fl_files fl of
        None \<Rightarrow> False
      | Some es \<Rightarrow>
          (case fl_root fl of
             Some root \<Rightarrow> distinct (map f_fino es) \<and> (\<forall>e \<in> set es. spec_ok s root e)
           | None \<Rightarrow> \<forall>e \<in> set es. f_fino e \<noteq> 0))"

definition frame_ok :: "'t codec \<Rightarrow> 'w rx \<Rightarrow> u8 list \<Rightarrow> bool" where
  "frame_ok C s ptr \<longleftrightarrow>
     (\<exists>sz t c. rx_open C ptr = Done (sz, t, c) \<and>
        (t = msg_file_spec \<longrightarrow> (\<exists>fl. rx_file_list C c = Done fl \<and> list_ok s fl)))"

text \<open>The frame this iteration would read, if it gets that far, is disciplined.\<close>

definition next_ok :: "'t codec \<Rightarrow> 'w rx_os \<Rightarrow> 'w rx \<Rightarrow> bool" where
  "next_ok C os s \<longleftrightarrow>
     (case rx_front C os s of
        Done (0, s4) \<Rightarrow>
          (case os_meta_recv os (rx_world s4) of (Some ptr, w) \<Rightarrow> frame_ok C s4 ptr | _ \<Rightarrow> True)
      | _ \<Rightarrow> True)"

text \<open>
  A run interleaves iterations of the loop with blocks accounted by the I/O workers and with
  anything the outside world does.
\<close>

inductive rx_step :: "'t codec \<Rightarrow> 'w rx_os \<Rightarrow> 'w rx \<Rightarrow> 'w rx \<Rightarrow> bool" for C os where
  rx_loop: "next_ok C os s \<Longrightarrow> rx_iter C os s = Done (Again, s') \<Longrightarrow> rx_step C os s s'"
| rx_block: "f \<noteq> 0 \<Longrightarrow> rx_step C os s (s\<lparr>rx_tab := fs_account f b n h (rx_tab s)\<rparr>)"
| rx_world: "rx_step C os s (s\<lparr>rx_world := w\<rparr>)"

definition rx_initial :: "dtn_args \<Rightarrow> 'w rx \<Rightarrow> bool" where
  "rx_initial args s \<longleftrightarrow> (\<exists>w. s = rx_start args w)"

definition rx_reach :: "'t codec \<Rightarrow> 'w rx_os \<Rightarrow> dtn_args \<Rightarrow> 'w rx \<Rightarrow> bool" where
  "rx_reach C os args = reachable (rx_initial args) (rx_step C os)"

section \<open>Lemmas\<close>

lemma rx_wf_cong:
  "rx_tab s' = rx_tab s \<Longrightarrow> rx_add s' = rx_add s \<Longrightarrow> rx_close s' = rx_close s \<Longrightarrow>
   rx_hash s' = rx_hash s \<Longrightarrow> rx_wf s' = rx_wf s"
  by (simp add: rx_wf_def waiting_def entered_def)

lemma open_files_0 [simp]: "0 \<notin> open_files s"
  by (simp add: open_files_def domIff)

lemma open_files_slots:
  "open_files s \<subseteq> (\<lambda>i. st_file_no (fs_tab (rx_tab s) i)) ` {..<FILE_STAT_COUNT_HSZ}"
proof
  fix f
  assume "f \<in> open_files s"
  then obtain slot where "file_getstats f (rx_tab s) = Some slot"
    by (auto simp: open_files_def fs_view_def fs_lookup_def split: if_splits)
  then have "slot \<in> set (probe_seq f)" and "st_file_no (fs_tab (rx_tab s) slot) = f"
    unfolding file_getstats_def by (auto dest: find_SomeD)
  then show "f \<in> (\<lambda>i. st_file_no (fs_tab (rx_tab s) i)) ` {..<FILE_STAT_COUNT_HSZ}"
    by (auto simp: probe_seq_def dest: probes_range)
qed

lemma finite_open_files [simp]: "finite (open_files s)"
  using open_files_slots by (rule finite_subset) simp

lemma card_open_files: "card (open_files s) \<le> FILE_STAT_COUNT_HSZ"
proof -
  have "open_files s \<subseteq> (\<lambda>i. st_file_no (fs_tab (rx_tab s) i)) ` {..<FILE_STAT_COUNT_HSZ}"
    by (rule open_files_slots)
  then have "card (open_files s) \<le> card {..<FILE_STAT_COUNT_HSZ}"
    by (rule surj_card_le [OF finite_lessThan])
  then show ?thesis by simp
qed

lemma call_open_same:
  "call_open os fp s = (r, s1) \<Longrightarrow> \<exists>w. s1 = s\<lparr>rx_world := w\<rparr>"
  by (auto simp: call_open_def Let_def split: prod.splits)

subsection \<open>Adding\<close>

text \<open>What an attempt that got a descriptor does to the state.\<close>

lemma enter_file_spec:
  assumes wf: "rx_wf s" and add: "rx_add s = f # fs" and hash: "rx_hash s f = Some i"
    and e: "enter_file os f i fd s = (r, s')"
  shows "rx_wf s' \<and> rx_rest s' = rx_rest s \<and> rx_close s' = rx_close s \<and>
    (r = Added \<longrightarrow> rx_add s' = fs \<and> open_files s' = insert f (open_files s)) \<and>
    (r \<noteq> Added \<longrightarrow> rx_add s' = rx_add s \<and> open_files s' = open_files s \<and> r = Stop 0)"
proof -
  have w: "waiting s f" and d: "distinct (f # fs)" and inv: "fs_inv (rx_tab s)"
    using wf add by (auto simp: rx_wf_def)
  then have f0: "f \<noteq> 0" and none: "fs_view (rx_tab s) f = None" and fino: "fi_fino i = f"
    and pp: "path_parent (fi_path i) \<noteq> None"
    using hash by (auto simp: waiting_def)
  let ?h = "(rx_hash s)(f \<mapsto> i\<lparr>fi_fd := fd\<rparr>)"
  show ?thesis
  proof (cases "file_addfile f fd 0 0 (rx_tab s)")
    case (Pair a tab)
    show ?thesis
    proof (cases a)
      case None
      then have "r = Stop 0" and "rx_tab s' = rx_tab s" and "rx_add s' = rx_add s"
        and "rx_close s' = rx_close s" and "rx_hash s' = ?h" and "rx_rest s' = rx_rest s"
        using e Pair fino by (auto simp: enter_file_def Let_def rx_rest_def split: if_splits)
      then show ?thesis
        using wf none f0 fino pp d add
        by (auto simp: rx_wf_def waiting_def entered_def open_files_def)
    next
      case (Some slot)
      then have r: "r = Added" and t: "rx_tab s' = tab" and a': "rx_add s' = fs"
        and c: "rx_close s' = rx_close s" and h: "rx_hash s' = ?h" and rest: "rx_rest s' = rx_rest s"
        using e Pair fino add by (auto simp: enter_file_def Let_def rx_rest_def split: if_splits)
      have new: "fs_new f fd (rx_tab s) = Some tab"
        using Pair Some by (simp add: fs_new_def)
      have v: "fs_view tab = (fs_view (rx_tab s))(f \<mapsto> (fd, 0, 0, 0))" and iv: "fs_inv tab"
        using ftab.view_new [OF inv f0 none new] ftab.inv_new [OF inv f0 none new] by simp_all
      have "\<forall>j. st_read_limit (fs_tab tab j) = 0"
        using addfile_SomeD(3) [of f fd 0 0 "rx_tab s" slot tab] Pair Some wf
        by (simp add: rx_wf_def)
      then show ?thesis
        using wf v iv r t a' c h rest d add fino
        by (auto simp: rx_wf_def waiting_def entered_def open_files_def)
    qed
  qed
qed

text \<open>The effect of adding, shared by one file and by the whole loop.\<close>

definition add_effect :: "'w rx \<Rightarrow> 'w rx \<Rightarrow> bool" where
  "add_effect s s' \<longleftrightarrow> rx_wf s' \<and> rx_rest s' = rx_rest s \<and> rx_close s' = rx_close s"

lemma add_effect_refl: "rx_wf s \<Longrightarrow> add_effect s s"
  by (simp add: add_effect_def)

lemma add_effect_trans: "add_effect s s' \<Longrightarrow> add_effect s' s'' \<Longrightarrow> add_effect s s''"
  by (simp add: add_effect_def)

lemma enter_file_effect:
  assumes "rx_wf s" and "rx_add s = f # fs" and "rx_hash s f = Some i"
  obtains r s' where "enter_file os f i fd s = (r, s')" and "add_effect s s'"
    and "r = Added \<Longrightarrow> rx_add s' = fs \<and> open_files s' = insert f (open_files s)"
    and "r \<noteq> Added \<Longrightarrow> rx_add s' = rx_add s \<and> open_files s' = open_files s"
proof -
  obtain r s' where e: "enter_file os f i fd s = (r, s')"
    by (cases "enter_file os f i fd s")
  from enter_file_spec [OF assms e] show thesis
    using that [OF e] by (auto simp: add_effect_def)
qed

text \<open>Only the world and the direct-I/O flag change between two attempts.\<close>

definition same_files :: "'w rx \<Rightarrow> 'w rx \<Rightarrow> bool" where
  "same_files s s' \<longleftrightarrow> (\<exists>w a. s' = s\<lparr>rx_world := w, rx_args := a\<rparr>)"

lemma same_filesD:
  assumes "same_files s s'"
  shows "rx_wf s' = rx_wf s" "rx_add s' = rx_add s" "rx_hash s' = rx_hash s"
    "rx_rest s' = rx_rest s" "rx_close s' = rx_close s" "open_files s' = open_files s"
proof -
  obtain w a where s': "s' = s\<lparr>rx_world := w, rx_args := a\<rparr>"
    using assms by (auto simp: same_files_def)
  show "rx_wf s' = rx_wf s"
    by (rule rx_wf_cong) (simp_all add: s')
qed (use assms in \<open>auto simp: same_files_def rx_rest_def open_files_def\<close>)

lemma same_files_updates:
  "same_files s (s\<lparr>rx_world := w\<rparr>)"
  "same_files s (s\<lparr>rx_world := w, rx_args := a\<rparr>)"
  unfolding same_files_def by (rule exI [of _ w], rule exI [of _ "rx_args s"], simp) blast

lemma open_attempts_spec:
  assumes "rx_wf s" and "rx_add s = f # fs" and "rx_hash s f = Some i"
  shows "\<exists>r s'. open_attempts n os fp alt f i s = Done (r, s') \<and> add_effect s s' \<and>
    (r = Added \<longrightarrow> rx_add s' = fs \<and> open_files s' = insert f (open_files s)) \<and>
    (r \<noteq> Added \<longrightarrow> rx_add s' = rx_add s \<and> open_files s' = open_files s)"
  using assms
proof (induction n arbitrary: fp s)
  case 0
  then show ?case by (simp add: add_effect_refl)
next
  case (Suc n)
  obtain fd errno s1 where c: "call_open os fp s = ((fd, errno), s1)"
    by (metis prod.collapse)
  then obtain w where s1: "s1 = s\<lparr>rx_world := w\<rparr>"
    using call_open_same by blast
  have step: "\<exists>r s'. open_attempts n os fp' alt f i t = Done (r, s') \<and> add_effect s s' \<and>
    (r = Added \<longrightarrow> rx_add s' = fs \<and> open_files s' = insert f (open_files s)) \<and>
    (r \<noteq> Added \<longrightarrow> rx_add s' = rx_add s \<and> open_files s' = open_files s)"
    if "same_files s t" for t fp'
    using Suc.IH [of t fp'] Suc.prems same_filesD [OF that] by (simp add: add_effect_def)
  have sf: "same_files s s1" "same_files s (s1\<lparr>rx_world := w'\<rparr>)" "same_files s (s1\<lparr>rx_args := a'\<rparr>)" for w' a'
    using same_files_updates [of s] by (simp_all add: s1)
  note D = same_filesD [OF sf(1)]
  have here: "add_effect s s1" "rx_add s1 = rx_add s" "open_files s1 = open_files s"
    using D Suc.prems by (simp_all add: add_effect_def)
  have pp: "path_parent (fi_path i) \<noteq> None"
    using Suc.prems by (auto simp: rx_wf_def waiting_def)
  obtain r s' where e: "enter_file os f i fd s1 = (r, s')" "add_effect s1 s'"
    "r = Added \<longrightarrow> rx_add s' = fs \<and> open_files s' = insert f (open_files s)"
    "r \<noteq> Added \<longrightarrow> rx_add s' = rx_add s \<and> open_files s' = open_files s"
    using enter_file_effect [of s1 f fs i os fd] Suc.prems D by metis
  have "add_effect s s'"
    using add_effect_trans [OF here(1) e(2)] .
  with e c here step [OF sf(1)] step [OF sf(2)] step [OF sf(3)] pp show ?case
    by (auto simp: Let_def)
qed

lemma add_loop_spec:
  assumes "rx_wf s" and "rx_add s = fs"
  shows "\<exists>n code s'. add_loop os fs k s = Done ((k + n, code), s') \<and> add_effect s s' \<and>
    card (open_files s') = card (open_files s) + n \<and> (0 < code \<longrightarrow> rx_add s' \<noteq> []) \<and>
    rx_add s' = drop n fs \<and> open_files s' = open_files s \<union> set (take n fs)"
  using assms
proof (induction fs arbitrary: k s)
  case Nil
  then show ?case by (auto simp: add_effect_refl)
next
  case (Cons f fs)
  then have "waiting s f"
    by (simp add: rx_wf_def)
  then obtain i where i: "rx_hash s f = Some i" and fresh: "f \<notin> open_files s"
    by (auto simp: waiting_def open_files_def)
  obtain fp alt where p: "open_paths (fi_path i) = (fp, alt)"
    by (cases "open_paths (fi_path i)")
  obtain r s1 where a: "open_attempts 4 os fp alt f i s = Done (r, s1)" "add_effect s s1"
    "r = Added \<longrightarrow> rx_add s1 = fs \<and> open_files s1 = insert f (open_files s)"
    "r \<noteq> Added \<longrightarrow> rx_add s1 = rx_add s \<and> open_files s1 = open_files s"
    using open_attempts_spec [OF Cons.prems i, of 4 os fp alt] by blast
  show ?case
  proof (cases r)
    case Added
    then have "rx_wf s1" "rx_add s1 = fs" and o: "open_files s1 = insert f (open_files s)"
      using a by (simp_all add: add_effect_def)
    then obtain n code s' where s': "add_loop os fs (k + 1) s1 = Done ((k + 1 + n, code), s')"
      "add_effect s1 s'" "card (open_files s') = card (open_files s1) + n"
      "0 < code \<longrightarrow> rx_add s' \<noteq> []" "rx_add s' = drop n fs"
      "open_files s' = open_files s1 \<union> set (take n fs)"
      using Cons.IH by blast
    have "card (open_files s1) = card (open_files s) + 1"
      using o fresh by simp
    with s' o a Added i p show ?thesis
      by (intro exI [of _ "Suc n"]) (auto intro: add_effect_trans)
  next
    case (Stop code)
    with a i p Cons.prems show ?thesis
      by (intro exI [of _ "0 :: nat"] exI [of _ code] exI [of _ s1]) auto
  qed
qed

subsection \<open>Closing\<close>

text \<open>A file can be closed: it is open, its block count is known and the blocks are there.\<close>

definition closable :: "'w rx \<Rightarrow> fino \<Rightarrow> bool" where
  "closable s f \<longleftrightarrow>
     (\<exists>v i. fs_view (rx_tab s) f = Some v \<and> rx_hash s f = Some i \<and> 0 \<le> fi_blocks i \<and>
        fi_blocks i \<le> u64_as_i64 (fst (snd v)))"

lemma getstats_view:
  assumes "fs_inv t" and "f \<noteq> 0" and "file_getstats f t = Some slot"
  shows "fs_view t f = Some (stat_view (fs_tab t slot))"
  using assms by (simp add: fs_view_def fs_lookup_def)

text \<open>\<open>file_incrementtail\<close> moves a counter only.\<close>

lemma incrementtail_same [simp]:
  "fs_tab (file_incrementtail t) = fs_tab t" "fs_view (file_incrementtail t) = fs_view t"
  "fs_inv (file_incrementtail t) = fs_inv t"
  by (simp_all add: file_incrementtail_def fs_view_def fs_lookup_def file_getstats_def fs_inv_def fun_eq_iff)

lemma finish_file_spec:
  assumes wf: "rx_wf s" and c: "rx_close s = f # fs" and g: "file_getstats f (rx_tab s) = Some slot"
    and "rx_hash s f = Some fi"
  shows "rx_wf (finish_file os f slot fi s) \<and> rx_rest (finish_file os f slot fi s) = rx_rest s \<and>
    rx_add (finish_file os f slot fi s) = rx_add s \<and> rx_close (finish_file os f slot fi s) = fs \<and>
    fs_view (rx_tab (finish_file os f slot fi s)) = (fs_view (rx_tab s))(f := None) \<and>
    rx_hash (finish_file os f slot fi s) = (rx_hash s)(f := None)"
proof -
  let ?s = "finish_file os f slot fi s"
  have f0: "f \<noteq> 0" and inv: "fs_inv (rx_tab s)"
    using wf c by (auto simp: rx_wf_def)
  have open_f: "fs_view (rx_tab s) f \<noteq> None"
    using getstats_view [OF inv f0 g] by simp
  have t: "rx_tab ?s = file_incrementtail (fs_clear f (rx_tab s))"
    using g by (simp add: finish_file_def Let_def fs_clear_def)
  have v: "fs_view (rx_tab ?s) = (fs_view (rx_tab s))(f := None)" and iv: "fs_inv (rx_tab ?s)"
    using ftab.view_clr [OF inv f0] ftab.inv_clr [OF inv f0] by (simp_all add: t)
  have rl: "\<forall>j. st_read_limit (fs_tab (rx_tab ?s) j) = 0"
    using wf g by (simp add: t fs_clear_def memset_slot_def rx_wf_def)
  have rest: "rx_add ?s = rx_add s" "rx_close ?s = fs" "rx_rest ?s = rx_rest s"
    "rx_hash ?s = (rx_hash s)(f := None)"
    using c by (simp_all add: finish_file_def Let_def rx_rest_def)
  have "f \<notin> set (rx_add s)"
    using wf open_f by (auto simp: rx_wf_def waiting_def)
  then have "rx_wf ?s"
    using wf v iv rl rest c unfolding rx_wf_def waiting_def entered_def by auto
  with v rest show ?thesis by simp
qed

text \<open>Closing never panics and removes the longest closable prefix of the queue.\<close>

definition close_effect :: "'w rx \<Rightarrow> fino list \<Rightarrow> 'w rx \<Rightarrow> bool" where
  "close_effect s closed s' \<longleftrightarrow>
     rx_wf s' \<and> rx_rest s' = rx_rest s \<and> rx_add s' = rx_add s \<and>
     fs_view (rx_tab s') = (\<lambda>f. if f \<in> set closed then None else fs_view (rx_tab s) f) \<and>
     rx_hash s' = (\<lambda>f. if f \<in> set closed then None else rx_hash s f)"

lemma close_loop_spec:
  assumes "rx_wf s" and "rx_close s = fs"
  shows "\<exists>res s'. close_loop os fs ret s = Done (ret @ res, s') \<and>
    close_effect s (map fi_fino res) s' \<and> distinct (map fi_fino res) \<and>
    set (map fi_fino res) \<subseteq> open_files s \<and> fs = map fi_fino res @ rx_close s' \<and>
    (\<forall>fi \<in> set res. closable s (fi_fino fi) \<and> fi_crc fi = 0 \<and> 0 \<le> fi_blocks fi \<and>
       (\<exists>i. rx_hash s (fi_fino fi) = Some i \<and> fi = i\<lparr>fi_crc := 0\<rparr>)) \<and>
    (rx_close s' \<noteq> [] \<longrightarrow> \<not> closable s' (hd (rx_close s')))"
  using assms
proof (induction fs arbitrary: ret s)
  case Nil
  then show ?case
    by (intro exI [of _ "[]"] exI [of _ s]) (simp add: close_effect_def)
next
  case (Cons f fs)
  have f0: "f \<noteq> 0" and inv: "fs_inv (rx_tab s)"
    using Cons.prems by (auto simp: rx_wf_def)
  have stop: ?case if "close_loop os (f # fs) ret s = Done (ret, s)" "\<not> closable s f"
    using that Cons.prems by (intro exI [of _ "[]"] exI [of _ s]) (simp add: close_effect_def)
  show ?case
  proof (cases "file_getstats f (rx_tab s)")
    case None
    then have "fs_view (rx_tab s) f = None"
      by (simp add: fs_view_def fs_lookup_def)
    then have "\<not> closable s f"
      by (simp add: closable_def)
    with None show ?thesis
      by (intro stop) simp_all
  next
    case (Some slot)
    have v: "fs_view (rx_tab s) f = Some (stat_view (fs_tab (rx_tab s) slot))"
      by (rule getstats_view [OF inv f0 Some])
    then obtain i where i: "rx_hash s f = Some i" "fi_fino i = f"
      using Cons.prems(1) unfolding rx_wf_def entered_def by blast
    have cl: "closable s f \<longleftrightarrow> 0 \<le> fi_blocks i \<and>
        fi_blocks i \<le> u64_as_i64 (st_block_total (fs_tab (rx_tab s) slot))"
      using v i by (auto simp: closable_def stat_view_def)
    show ?thesis
    proof (cases "closable s f")
      case False
      then show ?thesis
        using cl Some i by (intro stop) (auto simp: Let_def not_le)
    next
      case True
      let ?s = "finish_file os f slot i s" and ?i = "i\<lparr>fi_crc := 0\<rparr>"
      note F = finish_file_spec [OF Cons.prems Some i(1), of os]
      obtain res s' where IH: "close_loop os fs (ret @ [?i]) ?s = Done ((ret @ [?i]) @ res, s')"
        "close_effect ?s (map fi_fino res) s'" "distinct (map fi_fino res)"
        "set (map fi_fino res) \<subseteq> open_files ?s" "fs = map fi_fino res @ rx_close s'"
        "\<forall>fi \<in> set res. closable ?s (fi_fino fi) \<and> fi_crc fi = 0 \<and> 0 \<le> fi_blocks fi \<and>
           (\<exists>i. rx_hash ?s (fi_fino fi) = Some i \<and> fi = i\<lparr>fi_crc := 0\<rparr>)"
        "rx_close s' \<noteq> [] \<longrightarrow> \<not> closable s' (hd (rx_close s'))"
        using Cons.IH [of ?s "ret @ [?i]"] F by blast
      have crc: "rust_crc (fs_tab (rx_tab s) slot) = 0"
        using Cons.prems(1) by (simp add: rust_crc_eq rx_wf_def)
      have run: "close_loop os (f # fs) ret s = Done (ret @ (?i # res), s')"
        using True cl Some i IH(1) crc by (simp add: Let_def not_less)
      have notf: "f \<notin> set (map fi_fino res)"
        using IH(4) F by (auto simp: open_files_def)
      have before: "closable s g \<and> rx_hash s g = rx_hash ?s g" if "closable ?s g" for g
        using that F by (auto simp: closable_def split: if_splits)
      have eff: "close_effect s (map fi_fino (?i # res)) s'"
        using IH(2) F i unfolding close_effect_def by (auto simp: fun_eq_iff)
      have sub: "set (map fi_fino (?i # res)) \<subseteq> open_files s"
        using IH(4) F i v by (auto simp: open_files_def split: if_splits)
      have props: "\<forall>fi \<in> set (?i # res). closable s (fi_fino fi) \<and> fi_crc fi = 0 \<and>
          0 \<le> fi_blocks fi \<and> (\<exists>i. rx_hash s (fi_fino fi) = Some i \<and> fi = i\<lparr>fi_crc := 0\<rparr>)"
        using IH(6) before True cl i by (auto simp del: fun_upd_apply)
      show ?thesis
        using run eff notf IH(3,5,7) sub props i
        by (intro exI [of _ "?i # res"] exI [of _ s']) auto
    qed
  qed
qed

text \<open>What closing does to the files, to the table and to the rest of the state.\<close>

definition close_world :: "'w rx_os \<Rightarrow> bool \<Rightarrow> FileInformation \<Rightarrow> 'w \<Rightarrow> 'w" where
  "close_world os preserve i w =
     (let w1 = os_truncate os (fi_fd i) (fi_sz i) w
      in os_close_fd os (fi_fd i) (if preserve then os_preserve os (fi_fd i) i w1 else w1))"

definition closed_state :: "'w rx_os \<Rightarrow> FileInformation list \<Rightarrow> 'w rx \<Rightarrow> 'w rx" where
  "closed_state os cl s =
     s\<lparr>rx_world := fold (close_world os (da_do_preserve (rx_args s))) cl (rx_world s),
       rx_tab := fold (\<lambda>i t. file_incrementtail (fs_clear (fi_fino i) t)) cl (rx_tab s),
       rx_hash := (\<lambda>f. if f \<in> fi_fino ` set cl then None else rx_hash s f),
       rx_close := drop (length cl) (rx_close s)\<rparr>"

lemma finish_file_state:
  assumes "rx_close s = f # fs" and "file_getstats f (rx_tab s) = Some slot" and "fi_fino i = f"
  shows "finish_file os f slot i s = closed_state os [i] s"
  using assms by (simp add: finish_file_def closed_state_def close_world_def fs_clear_def Let_def fun_upd_def)

lemma closed_state_append: "closed_state os cl2 (closed_state os cl1 s) = closed_state os (cl1 @ cl2) s"
  by (rule rx.equality) (simp_all add: closed_state_def image_Un add.commute fun_eq_iff)

lemma close_loop_state:
  assumes "rx_wf s" and "rx_close s = fs"
  shows "\<exists>cl. close_loop os fs ret s = Done (ret @ map (\<lambda>i. i\<lparr>fi_crc := 0\<rparr>) cl, closed_state os cl s) \<and>
    (\<forall>i \<in> set cl. rx_hash s (fi_fino i) = Some i)"
  using assms
proof (induction fs arbitrary: ret s)
  case Nil
  then show ?case
    by (intro exI [of _ "[]"]) (simp add: closed_state_def)
next
  case (Cons f fs)
  have stop: ?case if "close_loop os (f # fs) ret s = Done (ret, s)"
    using that by (intro exI [of _ "[]"]) (simp add: closed_state_def)
  have f0: "f \<noteq> 0" and inv: "fs_inv (rx_tab s)"
    using Cons.prems by (auto simp: rx_wf_def)
  show ?case
  proof (cases "close_loop os (f # fs) ret s = Done (ret, s)")
    case False
    then obtain slot where slot: "file_getstats f (rx_tab s) = Some slot"
      by (cases "file_getstats f (rx_tab s)") simp_all
    have "fs_view (rx_tab s) f = Some (stat_view (fs_tab (rx_tab s) slot))"
      by (rule getstats_view [OF inv f0 slot])
    then obtain i where i: "rx_hash s f = Some i" "fi_fino i = f"
      using Cons.prems(1) unfolding rx_wf_def entered_def by blast
    have "rust_crc (fs_tab (rx_tab s) slot) = 0"
      using Cons.prems(1) by (simp add: rust_crc_eq rx_wf_def)
    then have run: "close_loop os (f # fs) ret s = close_loop os fs (ret @ [i\<lparr>fi_crc := 0\<rparr>]) (closed_state os [i] s)"
      using False slot i finish_file_state [OF Cons.prems(2) slot i(2), of os] by (auto simp: Let_def split: if_splits)
    have F: "rx_wf (closed_state os [i] s)" "rx_close (closed_state os [i] s) = fs" "rx_hash (closed_state os [i] s) = (rx_hash s)(f := None)"
      using finish_file_spec [OF Cons.prems slot i(1), of os] by (simp_all add: finish_file_state [OF Cons.prems(2) slot i(2)])
    obtain cl where cl: "close_loop os fs (ret @ [i\<lparr>fi_crc := 0\<rparr>]) (closed_state os [i] s) =
        Done ((ret @ [i\<lparr>fi_crc := 0\<rparr>]) @ map (\<lambda>i. i\<lparr>fi_crc := 0\<rparr>) cl, closed_state os cl (closed_state os [i] s))"
      "\<forall>j \<in> set cl. rx_hash (closed_state os [i] s) (fi_fino j) = Some j"
      using Cons.IH [OF F(1,2)] by blast
    then show ?thesis
      using run i F(3) by (intro exI [of _ "i # cl"]) (auto simp: closed_state_append split: if_splits)
  qed (use stop in simp)
qed

subsection \<open>The first half of an iteration\<close>

lemma send_file_stat_cases:
  obtains frame where "send_file_stat C cap fl = Done frame"
  | "send_file_stat C cap fl = Panicked ''Compression failed''"
  by (cases "cd_compress C cap (file_list_bytes C fl)")
    (auto simp: send_file_stat_def send_compressed_def)

lemma open_files_close:
  assumes "close_effect s closed s'" and "distinct closed" and "set closed \<subseteq> open_files s"
  shows "open_files s' = open_files s - set closed"
    and "card (open_files s) = card (open_files s') + length closed"
proof -
  show o: "open_files s' = open_files s - set closed"
    using assms(1) by (auto simp: close_effect_def open_files_def split: if_splits)
  have "card (set closed) = length closed"
    using assms(2) by (rule distinct_card)
  moreover have "card (set closed) \<le> card (open_files s)"
    by (rule card_mono) (use assms(3) in auto)
  ultimately show "card (open_files s) = card (open_files s') + length closed"
    using o assms(3) by (simp add: card_Diff_subset)
qed

lemma rx_wf_tl_add:
  assumes "rx_wf s" and "rx_add s = f # fs"
  shows "rx_wf (s\<lparr>rx_add := fs\<rparr>)"
  using assms by (simp add: rx_wf_def waiting_def entered_def)

lemma report_error_spec:
  assumes wf: "rx_wf s" and code: "0 < code \<longrightarrow> rx_add s \<noteq> []"
  shows "report_error C code s = Panicked ''Compression failed'' \<or>
    (\<exists>s'. report_error C code s = Done s' \<and> rx_wf s' \<and> rx_close s' = rx_close s \<and>
      rx_complete s' = rx_complete s \<and> rx_count_in s' = rx_count_in s \<and>
      rx_count_out s' = rx_count_out s \<and> rx_tab s' = rx_tab s \<and> rx_hash s' = rx_hash s \<and>
      rx_timeout s' = rx_timeout s \<and>
      rx_transfer_complete s' = rx_transfer_complete s)"
proof (cases "0 < code")
  case False
  then show ?thesis
    using wf by (simp add: report_error_def)
next
  case True
  then obtain f fs where a: "rx_add s = f # fs"
    using code by (cases "rx_add s") auto
  then obtain i where i: "rx_hash s f = Some i"
    using wf by (auto simp: rx_wf_def waiting_def)
  let ?fl = "ESCP_file_listArgs_default
             \<lparr>fl_files := Some [FileArgs_default\<lparr>f_fino := f, f_name := Some (fi_path i),
                                                  f_errmsg := Some [], f_errno := code\<rparr>],
              fl_fc_stat := True\<rparr>"
  have e: "report_error C code s =
      bind_outcome (send_file_stat C 1000 ?fl)
        (\<lambda>frame. Done (s\<lparr>rx_add := fs, rx_sent := rx_sent s @ [frame]\<rparr>))"
    using True a i by (simp add: report_error_def send_file_error_def)
  have "rx_wf (s\<lparr>rx_add := fs, rx_sent := sent\<rparr>)" for sent
    using rx_wf_tl_add [OF wf a] rx_wf_cong [of "s\<lparr>rx_add := fs, rx_sent := sent\<rparr>" "s\<lparr>rx_add := fs\<rparr>"]
    by simp
  then show ?thesis
    unfolding e by (cases rule: send_file_stat_cases [of C 1000 ?fl]) auto
qed

text \<open>The parts of the state that the first half may not touch.\<close>

lemma rx_restD:
  assumes "rx_rest s' = rx_rest s"
  shows "rx_complete s' = rx_complete s" "rx_count_in s' = rx_count_in s"
    "rx_count_out s' = rx_count_out s" "rx_transfer_complete s' = rx_transfer_complete s"
    "rx_timeout s' = rx_timeout s" "rx_sent s' = rx_sent s"
  using assms by (auto simp: rx_rest_def)

lemma rx_front_spec:
  assumes "rx_inv s"
  shows "rx_front C os s = Panicked ''Compression failed'' \<or>
    (\<exists>n s'. rx_front C os s = Done (n, s') \<and> rx_inv s' \<and> rx_timeout s' = rx_timeout s \<and>
       rx_transfer_complete s' = rx_transfer_complete s)"
proof -
  have wf: "rx_wf s" and cnt: "rx_count_in s = rx_count_out s + card (open_files s)"
    and crc: "\<forall>fi \<in> set (rx_complete s). fi_crc fi = 0 \<and> 0 \<le> fi_blocks fi"
    using assms by (simp_all add: rx_inv_def)
  obtain n code s1 where a: "add_file os s = Done ((n, code), s1)" "add_effect s s1"
    "card (open_files s1) = card (open_files s) + n" "0 < code \<longrightarrow> rx_add s1 \<noteq> []"
    using add_loop_spec [OF wf refl, of os 0] by (auto simp: add_file_def)
  then have wf1: "rx_wf s1" and r1: "rx_rest s1 = rx_rest s"
    by (simp_all add: add_effect_def)
  obtain res s2 where c: "close_file os s1 = Done (res, s2)" "close_effect s1 (map fi_fino res) s2"
    "distinct (map fi_fino res)" "set (map fi_fino res) \<subseteq> open_files s1"
    "\<forall>fi \<in> set res. fi_crc fi = 0 \<and> 0 \<le> fi_blocks fi"
    using close_loop_spec [OF wf1 refl, of os "[]"] unfolding close_file_def by force
  note o = open_files_close [OF c(2-4)]
  have wf2: "rx_wf s2" and r2: "rx_rest s2 = rx_rest s1" and a2: "rx_add s2 = rx_add s1"
    using c(2) by (simp_all add: close_effect_def)
  define s3 where "s3 = s2\<lparr>rx_count_out := rx_count_out s2 + length res,
    rx_complete := rx_complete s2 @ res, rx_count_in := rx_count_in s2 + n\<rparr>"
  have wf3: "rx_wf s3"
    using wf2 rx_wf_cong [of s3 s2] by (simp add: s3_def)
  have inv3: "rx_inv s3"
    using wf3 cnt crc a(3) c(5) o rx_restD [OF r1] rx_restD [OF r2]
    by (auto simp: rx_inv_def s3_def open_files_def)
  have front: "rx_front C os s = bind_outcome (report_error C code s3) (\<lambda>s4. Done (n, s4))"
    using a(1) c(1) by (simp add: rx_front_def s3_def)
  have code3: "0 < code \<longrightarrow> rx_add s3 \<noteq> []"
    using a(4) a2 by (simp add: s3_def)
  consider "report_error C code s3 = Panicked ''Compression failed''"
    | s4 where "report_error C code s3 = Done s4" "rx_wf s4" "rx_complete s4 = rx_complete s3"
      "rx_count_in s4 = rx_count_in s3" "rx_count_out s4 = rx_count_out s3" "rx_tab s4 = rx_tab s3"
      "rx_timeout s4 = rx_timeout s3" "rx_transfer_complete s4 = rx_transfer_complete s3"
    using report_error_spec [OF wf3 code3, of C] by blast
  then show ?thesis
  proof cases
    case 1
    then show ?thesis by (simp add: front)
  next
    case 2
    then have "rx_inv s4"
      using inv3 by (simp add: rx_inv_def open_files_def)
    with 2 front show ?thesis
      using rx_restD [OF r1] rx_restD [OF r2] by (simp add: s3_def)
  qed
qed

subsection \<open>Messages\<close>

lemma take_specs_spec:
  assumes "rx_wf s" and "distinct (map f_fino es)" and "\<forall>e \<in> set es. spec_ok s root e"
  shows "\<exists>s'. take_specs root es s = Done s' \<and> rx_wf s' \<and> rx_rest s' = rx_rest s \<and>
    rx_tab s' = rx_tab s \<and> rx_add s' = rx_add s @ map f_fino es \<and> rx_close s' = rx_close s \<and>
    rx_world s' = rx_world s"
  using assms
proof (induction es arbitrary: s)
  case Nil
  then show ?case by simp
next
  case (Cons e es)
  then have ok: "spec_ok s root e" by simp
  then obtain n where n: "f_name e = Some n" "path_parent (full_path root n) \<noteq> None"
    by (auto simp: spec_ok_def split: option.splits)
  let ?s = "s\<lparr>rx_hash := hash_spec (full_path root n) e (rx_hash s), rx_add := rx_add s @ [f_fino e]\<rparr>"
  have sel: "fi_fino (spec_entry p e i) = f_fino e" "fi_path (spec_entry p e i) = p" for p i
    by (simp_all add: spec_entry_def)
  have wf: "rx_wf ?s"
    using Cons.prems(1) ok n
    by (auto simp: rx_wf_def waiting_def entered_def spec_ok_def hash_spec_def sel)
  have "spec_ok ?s root e'" if "e' \<in> set es" for e'
  proof -
    have "f_fino e' \<noteq> f_fino e" and "spec_ok s root e'"
      using Cons.prems(2,3) that by (auto simp: image_iff)
    then show ?thesis by (simp add: spec_ok_def)
  qed
  then show ?case
    using Cons.IH [OF wf] Cons.prems(2) n by (auto simp: rx_rest_def)
qed

lemma take_counts_spec:
  assumes "rx_wf s" and "\<forall>e \<in> set es. f_fino e \<noteq> 0"
  shows "rx_wf (take_counts es s) \<and> rx_rest (take_counts es s) = rx_rest s \<and>
    rx_tab (take_counts es s) = rx_tab s \<and> rx_add (take_counts es s) = rx_add s \<and>
    rx_close (take_counts es s) = rx_close s @ map f_fino es \<and>
    rx_world (take_counts es s) = rx_world s"
  using assms
proof (induction es arbitrary: s)
  case Nil
  then show ?case by simp
next
  case (Cons e es)
  let ?s = "s\<lparr>rx_hash := hash_count e (rx_hash s), rx_close := rx_close s @ [f_fino e]\<rparr>"
  have sel: "fi_fino (count_entry e i) = fi_fino i" "fi_path (count_entry e i) = fi_path i"
    "fi_fd (count_entry e i) = fi_fd i" for i
    by (simp_all add: count_entry_def)
  have keep: "\<exists>i'. hash_count e (rx_hash s) g = Some i' \<and> fi_fino i' = fi_fino i \<and>
      fi_path i' = fi_path i \<and> fi_fd i' = fi_fd i" if "rx_hash s g = Some i" for g i
    using that by (auto simp: hash_count_def entry_or_default_def sel)
  have "waiting ?s g" if "waiting s g" for g
    using that keep [of g] by (auto simp: waiting_def)
  moreover have "entered ?s g" if "entered s g" for g
    using that keep [of g] by (fastforce simp: entered_def)
  ultimately have "rx_wf ?s"
    using Cons.prems by (simp add: rx_wf_def)
  then show ?case
    using Cons.IH [of ?s] Cons.prems(2) by (simp add: rx_rest_def)
qed

lemma take_file_list_spec:
  assumes "rx_wf s" and "list_ok s fl"
  shows "\<exists>s'. take_file_list fl s = Done s' \<and> rx_wf s' \<and> rx_rest s' = rx_rest s \<and> rx_tab s' = rx_tab s"
proof -
  obtain es where es: "fl_files fl = Some es"
    using assms(2) by (auto simp: list_ok_def split: option.splits)
  show ?thesis
  proof (cases "fl_root fl")
    case None
    then show ?thesis
      using es assms take_counts_spec [OF assms(1), of es]
      by (simp add: take_file_list_def list_ok_def)
  next
    case (Some root)
    then show ?thesis
      using es assms take_specs_spec [OF assms(1), of es root]
      by (auto simp: take_file_list_def list_ok_def)
  qed
qed

lemma rx_inv_cong:
  assumes "rx_inv s" and "rx_tab s' = rx_tab s" and "rx_rest s' = rx_rest s" and "rx_wf s'"
  shows "rx_inv s'"
  using assms(1,2,4) rx_restD [OF assms(3)] by (simp add: rx_inv_def open_files_def)

lemma rx_inv_update:
  assumes "rx_inv s" and "rx_tab s' = rx_tab s" and "rx_add s' = rx_add s" and "rx_close s' = rx_close s"
    and "rx_hash s' = rx_hash s" and "rx_count_in s' = rx_count_in s" and "rx_count_out s' = rx_count_out s"
    and "set (rx_complete s') \<subseteq> set (rx_complete s)"
  shows "rx_inv s'"
  using assms rx_wf_cong [of s' s] by (auto simp: rx_inv_def open_files_def)

lemma take_message_spec:
  assumes inv: "rx_inv s" and "frame_ok C s ptr"
  shows "\<exists>s'. take_message C os ptr s = Done s' \<and> rx_inv s' \<and> rx_timeout s' = rx_timeout s"
proof -
  obtain sz t c where o: "rx_open C ptr = Done (sz, t, c)"
    and ok: "t = msg_file_spec \<longrightarrow> (\<exists>fl. rx_file_list C c = Done fl \<and> list_ok s fl)"
    using assms(2) by (auto simp: frame_ok_def)
  have other: "rx_inv (meta_done os s)" "rx_inv (meta_done os (s\<lparr>rx_transfer_complete := True\<rparr>))"
    using inv by (auto simp: meta_done_def intro: rx_inv_update)
  show ?thesis
  proof (cases "t = msg_file_spec")
    case True
    then obtain fl where fl: "rx_file_list C c = Done fl" "list_ok s fl"
      using ok by blast
    then obtain s' where s': "take_file_list fl s = Done s'" "rx_wf s'" "rx_rest s' = rx_rest s"
      "rx_tab s' = rx_tab s"
      using take_file_list_spec [of s fl] inv by (auto simp: rx_inv_def)
    then have "rx_inv s'"
      using inv rx_inv_cong [of s s'] by simp
    then have "rx_inv (meta_done os s')"
      by (rule rx_inv_update) (simp_all add: meta_done_def)
    then show ?thesis
      using True o fl s' rx_restD [OF s'(3)] by (simp add: take_message_def meta_done_def)
  next
    case False
    then show ?thesis
      using o other by (simp add: take_message_def meta_done_def)
  qed
qed

subsection \<open>Iterations and runs\<close>

lemma frame_ok_cong [simp]:
  "frame_ok C (s\<lparr>rx_world := w, rx_timeout := t\<rparr>) ptr = frame_ok C s ptr"
proof -
  have "spec_ok (s\<lparr>rx_world := w, rx_timeout := t\<rparr>) = spec_ok s"
    by (simp add: spec_ok_def fun_eq_iff)
  then have "list_ok (s\<lparr>rx_world := w, rx_timeout := t\<rparr>) = list_ok s"
    by (auto simp: list_ok_def fun_eq_iff split: option.split)
  then show ?thesis
    by (simp add: frame_ok_def)
qed

lemma send_file_completions_spec:
  assumes "rx_inv s"
  shows "send_file_completions C s = Panicked ''Compression failed'' \<or>
    (\<exists>b s'. send_file_completions C s = Done (b, s') \<and> rx_inv s' \<and> rx_timeout s' = rx_timeout s)"
proof (cases "rx_complete s = []")
  case True
  then show ?thesis
    using assms by (auto simp: send_file_completions_def)
next
  case False
  let ?l = "completion_list (take completion_batch (rev (rx_complete s)))"
  have "rx_inv (s\<lparr>rx_complete := rev (drop completion_batch (rev (rx_complete s))), rx_sent := sent\<rparr>)"
    for sent
    by (rule rx_inv_update [OF assms]) (auto dest: in_set_dropD)
  then show ?thesis
    using False
    by (cases rule: send_file_stat_cases [of C 100000 ?l])
      (auto simp: send_file_completions_def)
qed

text \<open>The ways an iteration can end from a state that satisfies the invariant.\<close>

definition iter_good :: "(rx_signal \<times> 'w rx) outcome \<Rightarrow> bool" where
  "iter_good r \<longleftrightarrow>
     (case r of
        Done (sig, s) \<Rightarrow>
          rx_inv s \<and> (sig = Finished \<longrightarrow> rx_transfer_complete s \<and> rx_count_in s = rx_count_out s)
      | Exited c \<Rightarrow> c = -1
      | Panicked m \<Rightarrow> m = ''Compression failed'')"

lemma iter_good_simps [simp]:
  "iter_good (Panicked ''Compression failed'')" "iter_good (Exited (-1))"
  "iter_good (Done (Again, s)) = rx_inv s"
  by (simp_all add: iter_good_def)

lemma rx_idle_good:
  assumes "rx_inv s"
  shows "iter_good (rx_idle C os s)"
proof -
  have upd: "rx_inv (t\<lparr>rx_timeout := n\<rparr>)" "rx_inv (idle_wait os t)" if "rx_inv t" for t n
    using that by (auto simp: idle_wait_def Let_def intro: rx_inv_update)
  show ?thesis
    using send_file_completions_spec [OF assms, of C] upd by (auto simp: rx_idle_def)
qed

lemma rx_iter_good:
  assumes inv: "rx_inv s" and ok: "next_ok C os s"
  shows "iter_good (rx_iter C os s)"
proof -
  consider "rx_front C os s = Panicked ''Compression failed''"
    | n s4 where "rx_front C os s = Done (n, s4)" "rx_inv s4"
    using rx_front_spec [OF inv, of C os] by blast
  then show ?thesis
  proof cases
    case 1
    then show ?thesis by (simp add: rx_iter_def)
  next
    case 2
    have upd: "rx_inv (s4\<lparr>rx_timeout := k\<rparr>)" "rx_inv (s4\<lparr>rx_world := w\<rparr>)"
      "rx_inv (s4\<lparr>rx_world := w, rx_timeout := k\<rparr>)" for k w
      using 2(2) by (auto intro: rx_inv_update)
    show ?thesis
    proof (cases "rx_transfer_complete s4 \<and> rx_count_in s4 = rx_count_out s4 \<or> 0 < n")
      case True
      then show ?thesis
        using 2 upd(1) by (auto simp: rx_iter_def iter_good_def)
    next
      case False
      obtain p w where m: "os_meta_recv os (rx_world s4) = (p, w)"
        by (cases "os_meta_recv os (rx_world s4)")
      show ?thesis
      proof (cases p)
        case None
        then show ?thesis
          using False 2 m rx_idle_good [OF upd(2)] by (auto simp: rx_iter_def)
      next
        case (Some ptr)
        then have "frame_ok C s4 ptr"
          using ok 2 m False by (simp add: next_ok_def)
        then obtain s5 where "take_message C os ptr (s4\<lparr>rx_world := w, rx_timeout := 100\<rparr>) = Done s5"
          "rx_inv s5"
          using take_message_spec [OF upd(3)] by fastforce
        then show ?thesis
          using False 2 m Some by (auto simp: rx_iter_def)
      qed
    qed
  qed
qed

lemma rx_inv_start: "rx_inv (rx_start args w)"
  by (simp add: rx_inv_def rx_wf_def rx_start_def open_files_def waiting_def entered_def)
    (simp add: file_io_init_def)

lemma rx_inv_account:
  assumes inv: "rx_inv s" and f: "f \<noteq> 0"
  shows "rx_inv (s\<lparr>rx_tab := fs_account f b n h (rx_tab s)\<rparr>)"
proof -
  let ?t = "fs_account f b n h (rx_tab s)"
  have fi: "fs_inv (rx_tab s)"
    using inv by (simp add: rx_inv_def rx_wf_def)
  have v: "fs_view ?t = (fs_view (rx_tab s))(f := map_option (view_account b n h) (fs_view (rx_tab s) f))"
    and iv: "fs_inv ?t"
    using ftab.view_acc [OF fi f] ftab.inv_acc [OF fi f] by blast+
  have none: "fs_view ?t g = None \<longleftrightarrow> fs_view (rx_tab s) g = None" for g
    by (simp add: v)
  have rl: "\<forall>j. st_read_limit (fs_tab ?t j) = 0"
    using inv by (simp add: fs_account_def rx_inv_def rx_wf_def split: option.split)
  have fd: "\<exists>v'. fs_view (rx_tab s) g = Some v' \<and> fst v' = fst w" if "fs_view ?t g = Some w" for g w
    using that by (cases w) (auto simp: v view_account_def split: if_splits)
  have "open_files (s\<lparr>rx_tab := ?t\<rparr>) = open_files s"
    using none by (simp add: open_files_def dom_def)
  moreover have "rx_wf (s\<lparr>rx_tab := ?t\<rparr>)"
    using inv iv rl none fd unfolding rx_inv_def rx_wf_def waiting_def entered_def by simp
  ultimately show ?thesis
    using inv by (simp add: rx_inv_def)
qed

lemma rx_step_inv [escp_inv]: "rx_step C os s s' \<Longrightarrow> rx_inv s \<Longrightarrow> rx_inv s'"
proof (induction rule: rx_step.induct)
  case (rx_loop s s')
  then show ?case
    using rx_iter_good [of s C os] by simp
next
  case (rx_block f s b n h)
  then show ?case by (simp add: rx_inv_account)
next
  case (rx_world s w)
  then show ?case
    by (rule rx_inv_update) simp_all
qed

interpretation rx_system: step_system "rx_initial args" "rx_step C os" rx_inv for args C os
  by unfold_locales (auto simp: rx_initial_def intro: rx_inv_start rx_step_inv)

lemma rx_reach_inv: "rx_reach C os args s \<Longrightarrow> rx_inv s"
  unfolding rx_reach_def by (rule rx_system.reachable_inv)

subsection \<open>Order of arrival\<close>

lemma spec_count_entry: "count_entry c (spec_entry p e i) = spec_entry p e (count_entry c i)"
  by (simp add: count_entry_def spec_entry_def)

lemma update_commute:
  assumes "update_key u \<noteq> update_key v"
  shows "apply_update u \<circ> apply_update v = apply_update v \<circ> apply_update u"
proof (cases "snd (update_key u) = snd (update_key v)")
  case False
  then show ?thesis
    by (cases u; cases v)
      (auto simp: fun_eq_iff hash_spec_def hash_count_def entry_or_default_def)
next
  case True
  then show ?thesis
    using assms
    by (cases u; cases v)
      (auto simp: fun_eq_iff hash_spec_def hash_count_def entry_or_default_def spec_count_entry)
qed

lemma updates_permute:
  assumes "distinct (map update_key us)" and "mset us = mset vs"
  shows "fold apply_update us = fold apply_update vs"
proof (rule fold_multiset_equiv [OF _ assms(2)])
  fix x y
  assume "x \<in> set us" "y \<in> set us"
  then show "apply_update x \<circ> apply_update y = apply_update y \<circ> apply_update x"
    using assms(1) update_commute [of x y] by (cases "x = y") (auto simp: distinct_map inj_on_eq_iff)
qed

subsection \<open>The idle timeout\<close>

definition scale_ok :: "'w rx_os \<Rightarrow> bool" where
  "scale_ok os \<longleftrightarrow> (\<forall>t \<le> 275000. t \<le> os_scale os t \<and> os_scale os t \<le> t * 1337 div 1000)"

definition timeout_ok :: "'w rx \<Rightarrow> bool" where
  "timeout_ok s \<longleftrightarrow> 100 \<le> rx_timeout s \<and> rx_timeout s \<le> 275000"

lemma idle_wait_timeout:
  assumes "scale_ok os" and "timeout_ok s"
  shows "timeout_ok (idle_wait os s)"
proof -
  have lo: "rx_timeout s \<le> os_scale os (rx_timeout s)"
    and hi: "os_scale os (rx_timeout s) \<le> rx_timeout s * 1337 div 1000"
    using assms by (simp_all add: scale_ok_def timeout_ok_def)
  have b: "100 \<le> rx_timeout s" "rx_timeout s \<le> 275000"
    using assms(2) by (simp_all add: timeout_ok_def)
  have "rx_timeout s * 1337 div 1000 \<le> 275000 * 1337 div 1000"
    using b(2) by (intro div_le_mono mult_le_mono1)
  then have "os_scale os (rx_timeout s) \<le> 367675"
    using hi by simp
  with lo b show ?thesis
    by (auto simp: timeout_ok_def idle_wait_def Let_def)
qed

lemma send_file_completions_timeout:
  "send_file_completions C s = Done (b, s') \<Longrightarrow> rx_timeout s' = rx_timeout s"
  by (auto simp: send_file_completions_def Let_def split: if_splits)

lemma rx_idle_timeout:
  assumes "scale_ok os" and "timeout_ok s" and "rx_idle C os s = Done (sig, s')"
  shows "timeout_ok s'"
proof -
  obtain b s1 where b: "send_file_completions C s = Done (b, s1)"
    and r: "(if b then Done (Again, s1\<lparr>rx_timeout := 100\<rparr>)
       else if of_int (da_thread_count (rx_args s1)) \<le> os_threads_finished os (rx_world s1) then Exited (-1)
       else Done (Again, idle_wait os s1)) = Done (sig, s')"
    using assms(3) by (auto simp: rx_idle_def)
  have "timeout_ok s1"
    using assms(2) send_file_completions_timeout [OF b] by (simp add: timeout_ok_def)
  then have "timeout_ok (idle_wait os s1)"
    by (rule idle_wait_timeout [OF assms(1)])
  moreover have "s' = s1\<lparr>rx_timeout := 100\<rparr> \<or> s' = idle_wait os s1"
    using r by (auto split: if_splits)
  ultimately show ?thesis
    by (auto simp: timeout_ok_def)
qed

lemma rx_iter_timeout:
  assumes sc: "scale_ok os" and inv: "rx_inv s" and ok: "next_ok C os s" and t: "timeout_ok s"
    and it: "rx_iter C os s = Done (Again, s')"
  shows "timeout_ok s'"
proof -
  obtain n s4 where f: "rx_front C os s = Done (n, s4)" "rx_inv s4" "rx_timeout s4 = rx_timeout s"
    using rx_front_spec [OF inv, of C os] it by (auto simp: rx_iter_def)
  obtain p w where m: "os_meta_recv os (rx_world s4) = (p, w)"
    by (cases "os_meta_recv os (rx_world s4)")
  show ?thesis
  proof (cases "0 < n")
    case True
    then show ?thesis
      using it f by (auto simp: rx_iter_def timeout_ok_def split: if_splits)
  next
    case False
    show ?thesis
    proof (cases p)
      case None
      then have "rx_idle C os (s4\<lparr>rx_world := w\<rparr>) = Done (Again, s')"
        using False it f m by (auto simp: rx_iter_def split: if_splits)
      then show ?thesis
        using rx_idle_timeout [OF sc, of "s4\<lparr>rx_world := w\<rparr>"] t f(3) by (simp add: timeout_ok_def)
    next
      case (Some ptr)
      have "rx_inv (s4\<lparr>rx_world := w, rx_timeout := 100\<rparr>)"
        using f(2) by (rule rx_inv_update) simp_all
      moreover have "frame_ok C s4 ptr"
        using ok f m Some False by (simp add: next_ok_def)
      ultimately obtain s5 where "take_message C os ptr (s4\<lparr>rx_world := w, rx_timeout := 100\<rparr>) = Done s5"
        "rx_timeout s5 = 100"
        using take_message_spec [of "s4\<lparr>rx_world := w, rx_timeout := 100\<rparr>"] by fastforce
      then show ?thesis
        using False it f m Some by (auto simp: rx_iter_def timeout_ok_def split: if_splits)
    qed
  qed
qed

lemma rx_step_timeout:
  assumes "rx_inv s" and "timeout_ok s" and "scale_ok os" and "rx_step C os s s'"
  shows "timeout_ok s'"
  using assms(4)
proof (cases rule: rx_step.cases)
  case rx_loop
  then show ?thesis
    using rx_iter_timeout [of os s C s'] assms(1-3) by simp
qed (use assms(2) in \<open>simp_all add: timeout_ok_def\<close>)

interpretation rx_timed: step_system "rx_initial args" "rx_step C os"
  "\<lambda>s. rx_inv s \<and> (scale_ok os \<longrightarrow> timeout_ok s)" for args C os
proof
  fix s s' :: "'a rx"
  show "rx_initial args s \<Longrightarrow> rx_inv s \<and> (scale_ok os \<longrightarrow> timeout_ok s)"
    by (auto simp: rx_initial_def rx_inv_start) (simp add: rx_start_def timeout_ok_def)
  show "rx_inv s \<and> (scale_ok os \<longrightarrow> timeout_ok s) \<Longrightarrow> rx_step C os s s' \<Longrightarrow>
      rx_inv s' \<and> (scale_ok os \<longrightarrow> timeout_ok s')"
    using rx_step_inv rx_step_timeout by blast
qed

lemma rx_reach_timeout: "rx_reach C os args s \<Longrightarrow> scale_ok os \<Longrightarrow> timeout_ok s"
  unfolding rx_reach_def using rx_timed.reachable_inv by blast

section \<open>A run of the loop\<close>

text \<open>
  A small transfer on a concrete operating system whose world is the list of frames still to
  arrive: file 7 is announced, opened with descriptor 3, its block count 0 arrives, and it is
  closed.
\<close>

definition count_list :: ESCP_file_list where
  "count_list = ESCP_file_listArgs_default
     \<lparr>fl_files := Some [FileArgs_default\<lparr>f_fino := 7, f_blocks := 0\<rparr>]\<rparr>"

definition demo_info :: FileInformation where
  "demo_info = FileInformation_default\<lparr>fi_path := ''/dst/a'', fi_fino := 7\<rparr>"

definition demo_finished :: ESCP_file_list where
  "demo_finished = completion_list [demo_info\<lparr>fi_fd := 3, fi_blocks := 0\<rparr>]"

definition demo_codec :: "fbpush list codec" where
  "demo_codec =
     copy_codec [ESCP_file_list_create demo_list, ESCP_file_list_create count_list, ESCP_file_list_create demo_finished]"

definition demo_os :: "u8 list list rx_os" where
  "demo_os =
     \<lparr>os_open = (\<lambda>p fl w. ((3, 0), w)), os_create_dir_all = (\<lambda>p w. w), os_preserve = (\<lambda>fd i w. w),
      os_truncate = (\<lambda>fd n w. w), os_close_fd = (\<lambda>fd w. w),
      os_meta_recv = (\<lambda>w. case w of [] \<Rightarrow> (None, []) | m # ms \<Rightarrow> (Some m, ms)),
      os_meta_complete = (\<lambda>w. w), os_threads_finished = (\<lambda>w. 0), os_sleep = (\<lambda>n w. w),
      os_scale = (\<lambda>n. n * 1337 div 1000)\<rparr>"

definition spec_frame :: "u8 list" where
  "spec_frame = meta_frame (to_header 1 msg_file_spec) [0]"

definition count_frame :: "u8 list" where
  "count_frame = meta_frame (to_header 2 (msg_file_spec OR msg_compressed)) [1, 0]"

definition demo_args :: dtn_args where "demo_args = args_new\<lparr>da_thread_count := 4\<rparr>"

definition keep_frame :: "u8 list" where "keep_frame = send_empty msg_keepalive"

definition demo0 :: "u8 list list rx" where
  "demo0 = rx_start demo_args [spec_frame, count_frame, keep_frame]"

definition demo1 :: "u8 list list rx" where
  "demo1 = demo0\<lparr>rx_world := [count_frame, keep_frame], rx_add := [7], rx_hash := [7 \<mapsto> demo_info]\<rparr>"

definition demo_tab :: file_io where
  "demo_tab = snd (file_addfile 7 3 0 0 file_io_init)"

definition demo2 :: "u8 list list rx" where
  "demo2 = demo1\<lparr>rx_add := [], rx_hash := [7 \<mapsto> demo_info\<lparr>fi_fd := 3\<rparr>], rx_tab := demo_tab, rx_count_in := 1\<rparr>"

definition demo3 :: "u8 list list rx" where
  "demo3 = demo2\<lparr>rx_world := [keep_frame], rx_close := [7],
     rx_hash := [7 \<mapsto> demo_info\<lparr>fi_fd := 3, fi_blocks := 0\<rparr>]\<rparr>"

definition demo4 :: "u8 list list rx" where
  "demo4 = demo3\<lparr>rx_world := [], rx_close := [], rx_hash := Map.empty,
     rx_complete := [demo_info\<lparr>fi_fd := 3, fi_blocks := 0\<rparr>], rx_count_out := 1,
     rx_tab := file_incrementtail (fs_clear 7 demo_tab)\<rparr>"

lemma demo_lists_differ: "ESCP_file_list_create demo_list \<noteq> ESCP_file_list_create count_list"
  by (simp add: ESCP_file_list_create_def demo_list_def count_list_def push_str_def push_tabs_def
      ESCP_file_listArgs_default_def)

lemma demo_bytes: "file_list_bytes demo_codec demo_list = [0]" "file_list_bytes demo_codec count_list = [1, 0]"
  using demo_lists_differ
  by (simp_all add: demo_codec_def file_list_bytes_def copy_codec_def short_api_def short_index_def)

lemma demo_laws: "fb_laws (cd_fb demo_codec)"
  by (simp add: demo_codec_def copy_codec_def fb_laws_short)

lemma demo_open_spec: "rx_open demo_codec spec_frame = Done (1, msg_file_spec, [0])"
  using meta_open_frame [of "[0]" msg_file_spec]
  by (simp add: rx_open_def spec_frame_def)

lemma demo_open_count: "rx_open demo_codec count_frame = Done (2, msg_file_spec, [1, 0])"
  using meta_open_frame [of "[1, 0]" "msg_file_spec OR msg_compressed"]
  by (simp add: rx_open_def count_frame_def) (simp add: demo_codec_def copy_codec_def)

lemma demo_list_spec: "rx_file_list demo_codec [0] = Done demo_list"
  using rx_file_list_bytes [OF demo_laws, of demo_list "[]"] by (simp add: demo_bytes)

lemma demo_list_count: "rx_file_list demo_codec [1, 0] = Done count_list"
  using rx_file_list_bytes [OF demo_laws, of count_list "[]"] by (simp add: demo_bytes)


lemmas demo_defs = demo0_def demo1_def demo2_def demo3_def demo4_def rx_start_def demo_os_def

lemma demo_entries: "fl_files demo_list = Some [FileArgs_default\<lparr>f_fino := 7, f_name := Some ''a''\<rparr>]"
  "fl_root demo_list = Some ''/dst''" "fl_root count_list = None"
  "fl_files count_list = Some [FileArgs_default\<lparr>f_fino := 7, f_blocks := 0\<rparr>]"
  by (simp_all add: demo_list_def count_list_def ESCP_file_listArgs_default_def)

lemma demo_spec_info: "hash_spec ''/dst/a'' (FileArgs_default\<lparr>f_fino := 7, f_name := Some ''a''\<rparr>) Map.empty = [7 \<mapsto> demo_info]"
  by (simp add: hash_spec_def spec_entry_def entry_or_default_def demo_info_def FileInformation_default_def FileArgs_default_def)

lemma demo_front0: "rx_front demo_codec demo_os demo0 = Done (0, demo0)"
  by (simp add: rx_front_def add_file_def close_file_def report_error_def demo_defs)

lemma demo_iter0: "rx_iter demo_codec demo_os demo0 = Done (Again, demo1)"
  by (simp add: rx_iter_def demo_front0)
   (simp add: demo_defs take_message_def demo_open_spec demo_list_spec take_file_list_def demo_entries full_path_def demo_spec_info meta_done_def)

lemma demo_parent: "path_parent ''/dst/a'' = Some ''/dst''"
  by code_simp

lemma demo_ok0: "next_ok demo_codec demo_os demo0"
  by (simp add: next_ok_def demo_front0) (simp add: demo_defs frame_ok_def demo_open_spec demo_list_spec list_ok_def demo_entries spec_ok_def full_path_def demo_parent FileArgs_default_def)

lemma demo_tab_eq: "file_addfile 7 3 0 0 file_io_init = (Some (FS_MASK (xorshift64s 7)), demo_tab)"
proof -
  have "probe_seq 7 = FS_MASK (xorshift64s 7) # probes 21 (xorshift64s 7)"
    using probes.simps(2) [of 21 7] by (simp add: probe_seq_def FILE_STAT_COUNT_CC_def Let_def)
  then show ?thesis
    by (simp add: demo_tab_def file_addfile_def file_io_init_def)
qed

lemma demo_paths: "open_paths ''/dst/a'' = (''/dst/a'', None)"
  by code_simp

lemma demo_front1: "rx_front demo_codec demo_os demo1 = Done (1, demo2)"
  by (simp add: rx_front_def add_file_def close_file_def report_error_def demo_defs demo_info_def demo_paths open_attempts.simps(2) [of 3, simplified]
    call_open_def enter_file_def demo_tab_eq demo_args_def args_new_def)

lemma demo_iter1: "rx_iter demo_codec demo_os demo1 = Done (Again, demo2)"
  by (simp add: rx_iter_def demo_front1) (simp add: demo_defs)

lemma demo_ok1: "next_ok demo_codec demo_os demo1"
  by (simp add: next_ok_def demo_front1)

lemma demo_front2: "rx_front demo_codec demo_os demo2 = Done (0, demo2)"
  by (simp add: rx_front_def add_file_def close_file_def report_error_def demo_defs)

lemma demo_ok2: "next_ok demo_codec demo_os demo2"
  by (simp add: next_ok_def demo_front2) (simp add: demo_defs frame_ok_def demo_open_count demo_list_count list_ok_def demo_entries)

lemma demo_iter2: "rx_iter demo_codec demo_os demo2 = Done (Again, demo3)"
  by (simp add: rx_iter_def demo_front2)
   (simp add: demo_defs take_message_def demo_open_count demo_list_count take_file_list_def demo_entries meta_done_def
     hash_count_def count_entry_def entry_or_default_def FileArgs_default_def)

lemma demo_tab_inv: "fs_inv demo_tab"
  by (rule fs_inv_addfile [OF fs_inv_init _ _ demo_tab_eq]) (simp_all add: file_io_init_def)

lemma demo_tab_slot: "file_getstats 7 demo_tab = Some (FS_MASK (xorshift64s 7))"
  using getstats_iff [OF demo_tab_inv, of 7 "FS_MASK (xorshift64s 7)"] addfile_SomeD(3) [OF demo_tab_eq] by simp

lemma demo_front3: "rx_front demo_codec demo_os demo3 = Done (0, demo4\<lparr>rx_world := [keep_frame]\<rparr>)"
  by (simp add: rx_front_def add_file_def close_file_def report_error_def demo_defs demo_tab_slot
    addfile_SomeD(3) [OF demo_tab_eq] rust_crc_eq finish_file_def fs_clear_def u64_as_i64_def demo_args_def args_new_def
    demo_info_def FileInformation_default_def stat_zero_def)

lemma demo_open_keep: "rx_open demo_codec keep_frame = Done (0, msg_keepalive, [])"
  using meta_open_frame [of "[]" msg_keepalive]
  by (simp add: rx_open_def keep_frame_def send_empty_def) (simp add: msg_type_defs)

lemma demo_iter3: "rx_iter demo_codec demo_os demo3 = Done (Again, demo4)"
  by (simp add: rx_iter_def demo_front3)
   (simp add: demo_defs take_message_def demo_open_keep meta_done_def msg_type_defs)

lemma demo_ok3: "next_ok demo_codec demo_os demo3"
  by (simp add: next_ok_def demo_front3) (simp add: demo_defs frame_ok_def demo_open_keep msg_type_defs)

lemma demo_reach3: "rx_reach demo_codec demo_os demo_args demo3"
proof -
  have "rx_initial demo_args demo0"
    by (auto simp: rx_initial_def demo0_def)
  then show ?thesis
    using rx_loop [OF demo_ok0 demo_iter0] rx_loop [OF demo_ok1 demo_iter1] rx_loop [OF demo_ok2 demo_iter2]
    unfolding rx_reach_def by (blast intro: reachable_start reachable_step)
qed

lemma demo_reach4: "rx_reach demo_codec demo_os demo_args demo4"
  using demo_reach3 rx_loop [OF demo_ok3 demo_iter3] unfolding rx_reach_def by (rule reachable_step)

lemma demo_codec_laws: "codec_laws demo_codec"
  by (simp add: demo_codec_def copy_codec_laws)

lemma demo_finished_sent:
  "\<exists>frame. send_file_stat demo_codec 100000 demo_finished = Done frame" "list_fits demo_codec demo_finished"
proof -
  have "length (file_list_bytes demo_codec demo_finished) \<le> 3"
    using short_finish [of "ESCP_file_list_create demo_finished"
      "[ESCP_file_list_create demo_list, ESCP_file_list_create count_list, ESCP_file_list_create demo_finished]"]
    by (simp add: demo_codec_def copy_codec_def file_list_bytes_def)
  then show "\<exists>frame. send_file_stat demo_codec 100000 demo_finished = Done frame" "list_fits demo_codec demo_finished"
    by (simp_all add: send_file_stat_def send_compressed_def list_fits_def demo_codec_def)
qed

section \<open>Properties\<close>

text \<open>
  Claim C5. The receiver loop is safe in every interleaving with the I/O workers and the
  outside world, as long as the sender keeps its discipline: no lookup in the hash map and no
  queue access ever panics. An iteration ends in a state that satisfies the invariant, in the
  exit that follows the end of all workers, or in the one panic left, a failed compression;
  and the loop finishes only after a session-complete message with every opened file closed.
\<close>

theorem receiver_loop_safe:
  "rx_reach C os args s \<Longrightarrow> next_ok C os s \<Longrightarrow>
   (case rx_iter C os s of
      Done (Again, s') \<Rightarrow> rx_inv s'
    | Done (Finished, s') \<Rightarrow> rx_inv s' \<and> rx_transfer_complete s' \<and> open_files s' = {}
    | Exited c \<Rightarrow> c = -1
    | Panicked m \<Rightarrow> m = ''Compression failed'')"
  using rx_iter_good [OF rx_reach_inv, of C os args s C os]
  by (auto simp: iter_good_def rx_inv_def split: outcome.splits prod.splits rx_signal.splits)

theorem receiver_loop_safe_witness:
  "rx_inv demo4"
  using receiver_loop_safe [OF demo_reach3 demo_ok3] by (simp add: demo_iter3)

text \<open>
  Claim C21. The two counters of the receiver bound the transfer: in every reachable state the
  files counted in are those counted out and those open now, at most 2048 files are open, and
  the map knows each open file under its number and descriptor.
\<close>

theorem receiver_counts:
  "rx_reach C os args s \<Longrightarrow>
   rx_count_in s = rx_count_out s + card (open_files s) \<and> card (open_files s) \<le> FILE_STAT_COUNT_HSZ \<and>
   (\<forall>f \<in> open_files s. \<exists>i. rx_hash s f = Some i \<and> fi_fino i = f)"
proof (intro conjI)
  assume "rx_reach C os args s"
  then have inv: "rx_inv s" by (rule rx_reach_inv)
  then show "rx_count_in s = rx_count_out s + card (open_files s)"
    by (simp add: rx_inv_def)
  show "\<forall>f \<in> open_files s. \<exists>i. rx_hash s f = Some i \<and> fi_fino i = f"
    using inv by (fastforce simp: rx_inv_def rx_wf_def entered_def open_files_def)
  show "card (open_files s) \<le> FILE_STAT_COUNT_HSZ"
    by (rule card_open_files)
qed

theorem receiver_counts_witness:
  "rx_count_in demo4 = rx_count_out demo4 + card (open_files demo4)"
  using receiver_counts [OF demo_reach4] by blast

text \<open>
  Claim C20. \<open>close_file\<close> closes exactly the longest prefix of its queue whose files are complete:
  each of them is open, has a known block count and at least that many blocks written, and the first
  file left in the queue is not complete. In this order each file is truncated to the size in the map, its attributes are
  set if the session preserves them, its descriptor is closed and its entry of the table is cleared; the
  entries leave the map and the queue, and nothing else of the state changes. What is returned are
  the entries of the map with a checksum of 0.
\<close>

theorem close_file_longest_prefix:
  assumes "rx_wf s"
  shows "\<exists>cl s'. close_file os s = Done (map (\<lambda>i. i\<lparr>fi_crc := 0\<rparr>) cl, s') \<and>
    rx_close s = map fi_fino cl @ rx_close s' \<and>
    (\<forall>i \<in> set cl. rx_hash s (fi_fino i) = Some i \<and> closable s (fi_fino i)) \<and>
    (rx_close s' \<noteq> [] \<longrightarrow> \<not> closable s' (hd (rx_close s'))) \<and>
    open_files s' = open_files s - fi_fino ` set cl \<and>
    s' = s\<lparr>rx_world := fold (close_world os (da_do_preserve (rx_args s))) cl (rx_world s),
           rx_tab := fold (\<lambda>i t. file_incrementtail (fs_clear (fi_fino i) t)) cl (rx_tab s),
           rx_hash := (\<lambda>f. if f \<in> fi_fino ` set cl then None else rx_hash s f),
           rx_close := rx_close s'\<rparr>"
proof -
  obtain res s' where c: "close_file os s = Done (res, s')" "close_effect s (map fi_fino res) s'"
    "distinct (map fi_fino res)" "set (map fi_fino res) \<subseteq> open_files s"
    "rx_close s = map fi_fino res @ rx_close s'" "\<forall>fi \<in> set res. closable s (fi_fino fi)"
    "rx_close s' \<noteq> [] \<longrightarrow> \<not> closable s' (hd (rx_close s'))"
    using close_loop_spec [OF assms refl, of os "[]"] unfolding close_file_def by force
  obtain cl where cl: "close_file os s = Done (map (\<lambda>i. i\<lparr>fi_crc := 0\<rparr>) cl, closed_state os cl s)"
    "\<forall>i \<in> set cl. rx_hash s (fi_fino i) = Some i"
    using close_loop_state [OF assms refl, of os "[]"] by (auto simp: close_file_def)
  then have eq: "res = map (\<lambda>i. i\<lparr>fi_crc := 0\<rparr>) cl" "s' = closed_state os cl s"
    using c(1) by simp_all
  have names: "map fi_fino res = map fi_fino cl"
    by (simp add: eq(1))
  have "s' = s\<lparr>rx_world := fold (close_world os (da_do_preserve (rx_args s))) cl (rx_world s),
           rx_tab := fold (\<lambda>i t. file_incrementtail (fs_clear (fi_fino i) t)) cl (rx_tab s),
           rx_hash := (\<lambda>f. if f \<in> fi_fino ` set cl then None else rx_hash s f),
           rx_close := rx_close s'\<rparr>"
    by (simp add: eq(2) closed_state_def)
  moreover have "\<forall>i \<in> set cl. closable s (fi_fino i)"
    using c(6) by (simp add: eq(1))
  ultimately show ?thesis
    using open_files_close(1) [OF c(2-4)] c(1,5,7) cl(2) names by (intro exI [of _ cl] exI [of _ s']) (simp add: eq(1))
qed

theorem close_file_longest_prefix_witness:
  "\<exists>cl s'. close_file demo_os demo3 = Done (map (\<lambda>i. i\<lparr>fi_crc := 0\<rparr>) cl, s') \<and> rx_close demo3 = map fi_fino cl @ rx_close s' \<and>
     rx_add s' = rx_add demo3"
proof -
  have "rx_wf demo3"
    using rx_reach_inv [OF demo_reach3] by (simp add: rx_inv_def)
  from close_file_longest_prefix [OF this, of demo_os] obtain cl s' where
    c: "close_file demo_os demo3 = Done (map (\<lambda>i. i\<lparr>fi_crc := 0\<rparr>) cl, s')" "rx_close demo3 = map fi_fino cl @ rx_close s'"
    and s': "s' = demo3\<lparr>rx_world := fold (close_world demo_os (da_do_preserve (rx_args demo3))) cl (rx_world demo3),
           rx_tab := fold (\<lambda>i t. file_incrementtail (fs_clear (fi_fino i) t)) cl (rx_tab demo3),
           rx_hash := (\<lambda>f. if f \<in> fi_fino ` set cl then None else rx_hash demo3 f), rx_close := rx_close s'\<rparr>"
    by blast
  have "rx_add s' = rx_add demo3"
    by (subst s') simp
  with c show ?thesis
    by blast
qed

text \<open>
  Claim C24. The order in which specifications and block counts arrive does not matter: the
  entries of the map depend only on the multiset of messages, when each file number has at
  most one specification and one count.
\<close>

theorem updates_order_independent:
  assumes "distinct (map update_key us)" and "mset us = mset vs"
  shows "fold apply_update us h = fold apply_update vs h"
  using updates_permute [OF assms] by simp

theorem updates_order_independent_witness:
  "fold apply_update
     [Count (FileArgs_default\<lparr>f_fino := 5, f_blocks := 2\<rparr>),
      Spec ''/d/x'' (FileArgs_default\<lparr>f_fino := 5, f_sz := 900\<rparr>)] Map.empty =
   fold apply_update
     [Spec ''/d/x'' (FileArgs_default\<lparr>f_fino := 5, f_sz := 900\<rparr>),
      Count (FileArgs_default\<lparr>f_fino := 5, f_blocks := 2\<rparr>)] Map.empty"
  by (rule updates_order_independent) simp_all

text \<open>
  Claim C25. Completions are neither lost nor duplicated: a status message carries at most 4096
  entries, the sender decodes them to the file numbers and checksums of the queued files, and
  they make up the queue together with what stays in it. With nothing queued nothing is sent.
\<close>

theorem completions_conserved:
  assumes "codec_laws C" and "send_file_completions C s = Done (sent, s')"
  shows "(\<not> sent \<longrightarrow> s' = s \<and> rx_complete s = []) \<and>
    (sent \<longrightarrow> (\<exists>popped frame. rx_sent s' = rx_sent s @ [frame] \<and> popped \<noteq> [] \<and> length popped \<le> 4096 \<and>
       mset (rx_complete s) = mset popped + mset (rx_complete s') \<and>
       (list_fits C (completion_list popped) \<longrightarrow>
          tx_file_list C frame = Done (completion_list popped))))"
proof (cases "rx_complete s = []")
  case True
  then show ?thesis
    using assms(2) by (simp add: send_file_completions_def)
next
  case False
  define popped where "popped = take completion_batch (rev (rx_complete s))"
  obtain frame where f: "send_file_stat C 100000 (completion_list popped) = Done frame" and sent: "sent"
    and s': "rx_sent s' = rx_sent s @ [frame]" "rx_complete s' = rev (drop completion_batch (rev (rx_complete s)))"
    using assms(2) False by (auto simp: send_file_completions_def popped_def Let_def)
  have "mset (rx_complete s) = mset popped + mset (rx_complete s')"
    unfolding s' popped_def by (metis append_take_drop_id mset_append mset_rev)
  moreover have "popped \<noteq> []" "length popped \<le> 4096"
    using False by (simp_all add: popped_def completion_batch_def)
  ultimately show ?thesis
    using sent s'(1) stat_link.recv_send [OF assms(1) _ f] by blast
qed

theorem completions_conserved_witness:
  "\<exists>s' popped frame. send_file_completions demo_codec demo4 = Done (True, s') \<and> rx_sent s' = rx_sent demo4 @ [frame] \<and>
     mset (rx_complete demo4) = mset popped + mset (rx_complete s') \<and> popped \<noteq> []"
proof -
  obtain frame where "send_file_stat demo_codec 100000 demo_finished = Done frame"
    using demo_finished_sent(1) by blast
  then obtain s' where sent: "send_file_completions demo_codec demo4 = Done (True, s')"
    by (simp add: send_file_completions_def demo4_def demo_finished_def completion_batch_def)
  then show ?thesis
    using completions_conserved [OF demo_codec_laws sent] by blast
qed

text \<open>
  Every checksum the receiver reports is 0, whatever the workers accumulated: the
  completions queued in any reachable state carry the value that the \<open>crc\<close> field of the
  binding reads, the read limit of the entry.
\<close>

theorem receiver_reports_zero_crc:
  "rx_reach C os args s \<Longrightarrow> fi \<in> set (rx_complete s) \<Longrightarrow> f_crc (completion_entry fi) = 0"
  using rx_reach_inv [of C os args s] by (simp add: rx_inv_def completion_entry_def)

text \<open>
  The idle timeout stays between 100 and 275000 microseconds in every reachable
  state, for every multiplication that does not shrink its argument and is at most the exact
  product with 1.337.
\<close>

theorem idle_timeout_bounded:
  "rx_reach C os args s \<Longrightarrow> scale_ok os \<Longrightarrow> 100 \<le> rx_timeout s \<and> rx_timeout s \<le> 275000"
  using rx_reach_timeout [of C os args s] by (simp add: timeout_ok_def)

theorem idle_timeout_bounded_witness:
  "100 \<le> rx_timeout demo4 \<and> rx_timeout demo4 \<le> 275000"
proof (rule idle_timeout_bounded [OF demo_reach4])
  show "scale_ok demo_os"
    unfolding scale_ok_def demo_os_def by (auto intro: div_le_mono)
qed

end
