(* ===== verification/File_Batch.thy ===== *)
theory File_Batch
  imports File_Check Command_Line
begin

text \<open>
  The main thread of \<open>iterate_files\<close> (\<open>src/escp/sender.rs\<close>): the sources and the file list it
  feeds to the worker threads, and the loop that gathers the opened files the workers return,
  in whatever order they do, and sends their specifications to the receiver in the order of
  their file numbers.
\<close>

section \<open>Work for the file workers\<close>

type_synonym work_item = "string \<times> string \<times> string"

text \<open>
  The sources of the command line. A path that cannot be canonicalized is used as it is. With
  a single source and no recursion the destination path travels with the file and is cleared.
\<close>

fun queue_sources ::
    "(string \<Rightarrow> string option) \<Rightarrow> bool \<Rightarrow> string list \<Rightarrow> string \<Rightarrow> (work_item list \<times> string) outcome" where
  "queue_sources canon single [] dest_path = Done ([], dest_path)"
| "queue_sources canon single (fi # fis) dest_path =
     (if fi = [] then queue_sources canon single fis dest_path
      else let fi_path = (case canon fi of Some a \<Rightarrow> a | None \<Rightarrow> fi)
           in bind_outcome (unwrap ''unwrap on None'' (path_parent fi_path)) (\<lambda>prefix.
              bind_outcome (unwrap ''unwrap on None'' (path_file_name fi_path)) (\<lambda>name.
              bind_outcome
                (queue_sources canon single fis (if single then [] else dest_path))
                (\<lambda>(items, d). Done ((prefix, name, if single then dest_path else []) # items, d)))))"

definition iterate_sources ::
    "(string \<Rightarrow> string option) \<Rightarrow> EScp_Args \<Rightarrow> bool \<Rightarrow> string \<Rightarrow> (work_item list \<times> string) outcome" where
  "iterate_sources canon flags recursive dest_path =
     queue_sources canon (length (ea_source flags) = 1 \<and> \<not> recursive) (ea_source flags) dest_path"

text \<open>The file list: YAML documents, or lines when the text is not YAML.\<close>

datatype yaml = Yaml_string string | Yaml_array "yaml list" | Yaml_other

fun yaml_str :: "yaml \<Rightarrow> string option" where
  "yaml_str (Yaml_string s) = Some s"
| "yaml_str _ = None"

fun yaml_items :: "yaml \<Rightarrow> yaml list" where
  "yaml_items (Yaml_array xs) = xs"
| "yaml_items _ = []"

fun yaml_entry :: "yaml \<Rightarrow> (string \<times> string) list" where
  "yaml_entry (Yaml_array (x # y # _)) =
     (case (yaml_str x, yaml_str y) of (Some a, Some b) \<Rightarrow> [(a, b)] | _ \<Rightarrow> [])"
| "yaml_entry (Yaml_array [x]) = (case yaml_str x of Some a \<Rightarrow> [(a, [])] | None \<Rightarrow> [])"
| "yaml_entry (Yaml_string v) = [(v, [])]"
| "yaml_entry _ = []"

definition newline :: char where "newline = char_of (10 :: nat)"
definition carriage :: char where "carriage = char_of (13 :: nat)"

definition trim_end_cr :: "string \<Rightarrow> string" where
  "trim_end_cr s = rev (dropWhile (\<lambda>c. c = carriage) (rev s))"

definition parse_file_list :: "(string \<Rightarrow> yaml list option) \<Rightarrow> string \<Rightarrow> (string \<times> string) list" where
  "parse_file_list yaml content =
     (case yaml content of
        Some docs \<Rightarrow> concat (map (\<lambda>i. concat (map yaml_entry (yaml_items i))) docs)
      | None \<Rightarrow> map (\<lambda>i. (trim_end_cr i, [])) (filter (\<lambda>i. i \<noteq> []) (split_on newline content)))"

text \<open>Entries are popped from the end of the list.\<close>

fun queue_entries :: "(string \<times> string) list \<Rightarrow> work_item list outcome" where
  "queue_entries [] = Done []"
| "queue_entries ((a, b) # es) =
     bind_outcome (unwrap ''unwrap on None'' (path_parent a)) (\<lambda>prefix.
     bind_outcome (unwrap ''unwrap on None'' (path_file_name a)) (\<lambda>name.
     bind_outcome (queue_entries es) (\<lambda>items. Done ((prefix, name, b) # items))))"

definition iterate_file_list :: "(string \<Rightarrow> yaml list option) \<Rightarrow> string \<Rightarrow> work_item list outcome" where
  "iterate_file_list yaml content = queue_entries (rev (parse_file_list yaml content))"

section \<open>Batches of file specifications\<close>

record stat =
  s_size :: i64
  s_mode :: u32
  s_uid :: u32
  s_gid :: u32
  s_atim :: "i64 \<times> i64"
  s_mtim :: "i64 \<times> i64"

type_synonym opened = "fino \<times> string \<times> stat"

record batch =
  bt_tx :: tx_check
  bt_vec :: "opened list"
  bt_files_total :: nat
  bt_bytes_total :: i64
  bt_files_sent :: u64
  bt_counter :: nat
  bt_counter_max :: nat

text \<open>
  What \<open>msg_out\<close> delivers: an opened file, or a timeout after which new frames of the receiver
  and new completions of the workers may be there, with whether the deadline of the check that follows is
  still ahead when the message of the receiver is handled. The end of the list is the disconnection.
\<close>

datatype batch_event = Arrival opened | Quiet "u8 list list" "fc_info list" bool

definition note_name :: "fino \<Rightarrow> string \<Rightarrow> tx_check \<Rightarrow> tx_check" where
  "note_name fino fi t =
     t\<lparr>ck_hm := (ck_hm t)(fino \<mapsto> (case ck_hm t fino of Some (crc, _) \<Rightarrow> (crc, fi) | None \<Rightarrow> (-1, fi)))\<rparr>"

definition take_opened :: "opened \<Rightarrow> batch \<Rightarrow> batch" where
  "take_opened it s =
     (case it of (fino, fi, st) \<Rightarrow>
        s\<lparr>bt_tx := note_name fino fi (bt_tx s), bt_vec := bt_vec s @ [(fino, fi, st)],
          bt_files_total := bt_files_total s + 1, bt_bytes_total := bt_bytes_total s + s_size st,
          bt_counter := bt_counter s + 1\<rparr>)"

text \<open>A timeout runs \<open>file_check\<close>; anything but 1 ends the process. None: it has not returned.\<close>

definition quiet_check :: "'t codec \<Rightarrow> u8 list list \<Rightarrow> fc_info list \<Rightarrow> bool \<Rightarrow> batch \<Rightarrow> batch option outcome" where
  "quiet_check C frames fcs time_left s =
     (let t = bt_tx s;
          t1 = fc_worker fcs (t\<lparr>ck_inbox := ck_inbox t @ frames\<rparr>)
      in bind_outcome (file_check C time_left t1) (\<lambda>(r, t2).
           if r = Returned 1 then Done (Some (s\<lparr>bt_tx := t2\<rparr>))
           else if r = Waiting then Done None else Exited 1))"

fun recv_loop ::
    "'t codec \<Rightarrow> batch_event list \<Rightarrow> batch \<Rightarrow> (batch_event list \<times> bool \<times> batch) option outcome" where
  "recv_loop C [] s = Done (Some ([], True, s))"
| "recv_loop C (Quiet frames fcs time_left # evs) s =
     bind_outcome (quiet_check C frames fcs time_left s) (\<lambda>r. Done (map_option (\<lambda>s1. (evs, False, s1)) r))"
| "recv_loop C (Arrival it # evs) s =
     (let s1 = take_opened it s
      in if bt_counter s1 > bt_counter_max s1
         then Done (Some (evs, False, s1\<lparr>bt_counter_max := 300\<rparr>))
         else recv_loop C evs s1)"

text \<open>The files that continue the sequence of file numbers already sent.\<close>

fun take_run :: "u64 \<Rightarrow> opened list \<Rightarrow> opened list \<times> u64" where
  "take_run sent [] = ([], sent)"
| "take_run sent ((a, b, c) # xs) =
     (if a > 0 \<and> a \<noteq> sent + 1 then ([], sent)
      else let (ys, sent') = take_run (if a > 0 then sent + 1 else sent) xs in ((a, b, c) # ys, sent'))"

definition spec_of :: "bool \<Rightarrow> opened \<Rightarrow> File" where
  "spec_of preserve it =
     (case it of (a, b, c) \<Rightarrow>
        if preserve then
          FileArgs_default
            \<lparr>f_fino := a, f_name := Some b, f_sz := s_size c, f_mode := s_mode c, f_uid := s_uid c,
             f_gid := s_gid c, f_atim_sec := fst (s_atim c), f_atim_nano := snd (s_atim c),
             f_mtim_sec := fst (s_mtim c), f_mtim_nano := snd (s_mtim c)\<rparr>
        else FileArgs_default\<lparr>f_fino := a, f_name := Some b, f_sz := s_size c\<rparr>)"

definition spec_list :: "bool \<Rightarrow> string \<Rightarrow> bool \<Rightarrow> opened list \<Rightarrow> ESCP_file_list" where
  "spec_list preserve dest_path do_break ys =
     ESCP_file_listArgs_default
       \<lparr>fl_root := Some dest_path, fl_files := Some (map (spec_of preserve) ys), fl_complete := do_break\<rparr>"

text \<open>One batch: the run is taken off the sorted queue. No run: the loop starts over.\<close>

definition next_run :: "batch \<Rightarrow> opened list \<times> batch" where
  "next_run s =
     (let v = sort_key fst (bt_vec s); (ys, sent') = take_run (bt_files_sent s) v
      in (ys, s\<lparr>bt_vec := drop (length ys) v, bt_files_sent := sent',
                bt_counter := bt_counter s - length ys\<rparr>))"

definition send_batch ::
    "'t codec \<Rightarrow> bool \<Rightarrow> string \<Rightarrow> bool \<Rightarrow> opened list \<Rightarrow> batch \<Rightarrow> batch outcome" where
  "send_batch C preserve dest_path do_break ys s =
     bind_outcome (send_file_spec C (spec_list preserve dest_path do_break ys)) (\<lambda>frame.
       Done (s\<lparr>bt_tx := (bt_tx s)\<lparr>ck_sent := ck_sent (bt_tx s) @ [frame]\<rparr>\<rparr>))"

text \<open>
  The loop of \<open>iterate_files\<close>. The result has the lists in the order they were sent. After the
  disconnection a queue with a gap at its front makes the loop start over for ever: None.
\<close>

function iterate_loop ::
    "'t codec \<Rightarrow> bool \<Rightarrow> string \<Rightarrow> batch_event list \<Rightarrow> batch \<Rightarrow> (opened list list \<times> batch) option outcome" where
  "iterate_loop C preserve dest_path evs s =
     (case recv_loop C evs s of
        Panicked m \<Rightarrow> Panicked m
      | Exited c \<Rightarrow> Exited c
      | Done None \<Rightarrow> Done None
      | Done (Some (evs1, do_break, s1)) \<Rightarrow>
          if bt_counter s1 > 0 then
            (let (ys, s2) = next_run s1
             in if ys = [] then
                  (if evs = [] then Done None else iterate_loop C preserve dest_path evs1 s2)
                else bind_outcome (send_batch C preserve dest_path do_break ys s2) (\<lambda>s3.
                       if do_break then Done (Some ([ys], s3))
                       else if evs = [] then Done None
                       else bind_outcome (iterate_loop C preserve dest_path evs1 s3)
                              (\<lambda>r. Done (map_option (\<lambda>(yss, s4). (ys # yss, s4)) r))))
          else if do_break then Done (Some ([], s1))
          else if evs = [] then Done None
          else iterate_loop C preserve dest_path evs1 s1)"
  by pat_completeness auto

lemma recv_loop_shorter:
  "recv_loop C evs s = Done (Some (evs1, b, s1)) \<Longrightarrow> evs \<noteq> [] \<Longrightarrow> length evs1 < length evs"
proof (induction C evs s rule: recv_loop.induct)
  case (3 C it evs s)
  then show ?case
    by (cases evs) (auto simp: Let_def split: if_splits)
qed (auto split: option.splits)

termination iterate_loop
  by (relation "measure (\<lambda>(C, p, d, evs, s). length evs)") (auto dest: recv_loop_shorter)

declare iterate_loop.simps [simp del]

definition batch_start :: "tx_check \<Rightarrow> batch" where
  "batch_start t =
     \<lparr>bt_tx = t, bt_vec = [], bt_files_total = 0, bt_bytes_total = 0, bt_files_sent = 0,
      bt_counter = 0, bt_counter_max = 8\<rparr>"

section \<open>The invariant of the loop\<close>

fun arrivals :: "batch_event list \<Rightarrow> opened list" where
  "arrivals [] = []"
| "arrivals (Arrival it # evs) = it # arrivals evs"
| "arrivals (Quiet frames fcs time_left # evs) = arrivals evs"

text \<open>
  \<open>got\<close> are the files received so far and \<open>out\<close> those sent: the file numbers sent are 1 up to
  their count, and the queue holds the rest, all with larger numbers.
\<close>

definition batch_inv :: "opened list \<Rightarrow> opened list \<Rightarrow> batch \<Rightarrow> bool" where
  "batch_inv got out s \<longleftrightarrow>
     mset got = mset out + mset (bt_vec s) \<and>
     map (unat \<circ> fst) out = [1..<Suc (length out)] \<and> unat (bt_files_sent s) = length out \<and>
     bt_counter s = length (bt_vec s) \<and> (\<forall>x \<in> set (bt_vec s). length out < unat (fst x)) \<and>
     distinct (map fst got) \<and> bt_files_total s = length got \<and>
     bt_bytes_total s = sum_list (map (s_size \<circ> snd \<circ> snd) got)"

text \<open>The numbers of a complete transfer: 1 up to the number of files, in any order.\<close>

definition all_finos :: "opened list \<Rightarrow> bool" where
  "all_finos its \<longleftrightarrow> distinct (map fst its) \<and> (unat \<circ> fst) ` set its = {1..length its}"

section \<open>Lemmas\<close>

lemma unat_plus_1_of_less:
  fixes s a :: u64
  assumes "unat s < unat a"
  shows "unat (s + 1) = Suc (unat s)"
proof -
  have "unat a < 2 ^ LENGTH(64)"
    by (rule unsigned_less)
  then have "unat s + 1 < 2 ^ LENGTH(64)"
    using assms by linarith
  then show ?thesis
    by (simp add: unat_word_ariths)
qed

lemma take_run_spec:
  assumes "sorted (map fst v)" and "distinct (map fst v)" and "\<forall>x \<in> set v. unat sent < unat (fst x)"
    and "take_run sent v = (ys, sent')"
  shows "\<exists>zs. v = ys @ zs \<and> map (unat \<circ> fst) ys = [Suc (unat sent)..<Suc (unat sent + length ys)] \<and>
    unat sent' = unat sent + length ys \<and> (\<forall>x \<in> set zs. unat sent' < unat (fst x)) \<and>
    (zs \<noteq> [] \<longrightarrow> unat (fst (hd zs)) \<noteq> Suc (unat sent'))"
  using assms
proof (induction sent v arbitrary: ys sent' rule: take_run.induct)
  case (1 sent)
  then show ?case by simp
next
  case (2 sent a b c xs)
  have lt: "unat sent < unat a" and pos: "a > 0"
    using "2.prems"(3) by (auto simp: word_less_nat_alt)
  have suc: "unat (sent + 1) = Suc (unat sent)"
    by (rule unat_plus_1_of_less [OF lt])
  have eq: "a = sent + 1 \<longleftrightarrow> unat a = Suc (unat sent)"
    by (metis suc word_unat_eq_iff)
  show ?case
  proof (cases "a = sent + 1")
    case False
    then show ?thesis
      using "2.prems" pos eq by auto
  next
    case True
    obtain zs' s' where r: "take_run (sent + 1) xs = (zs', s')"
      by (cases "take_run (sent + 1) xs")
    have "\<forall>x \<in> set xs. unat (sent + 1) < unat (fst x)"
    proof
      fix x
      assume x: "x \<in> set xs"
      then have "a \<le> fst x" and "a \<noteq> fst x"
        using "2.prems"(1,2) by (auto simp: image_iff)
      then show "unat (sent + 1) < unat (fst x)"
        using True by (metis order_le_neq_trans word_less_nat_alt)
    qed
    moreover have run: "\<not> (a > 0 \<and> a \<noteq> sent + 1)" "(if a > 0 then sent + 1 else sent) = sent + 1"
      using True pos by simp_all
    moreover have "sorted (map fst xs)" "distinct (map fst xs)"
      using "2.prems"(1,2) by simp_all
    ultimately obtain zs where zs: "xs = zs' @ zs"
      "map (unat \<circ> fst) zs' = [Suc (unat (sent + 1))..<Suc (unat (sent + 1) + length zs')]"
      "unat s' = unat (sent + 1) + length zs'" "\<forall>x \<in> set zs. unat s' < unat (fst x)"
      "zs \<noteq> [] \<longrightarrow> unat (fst (hd zs)) \<noteq> Suc (unat s')"
      using "2.IH" [OF run(1), unfolded run(2)] r by blast
    have "ys = (a, b, c) # zs'" and "sent' = s'"
      using "2.prems"(4) True pos r by auto
    then show ?thesis
      using zs suc True by (intro exI [of _ zs]) (simp add: upt_conv_Cons comp_def del: upt_Suc)
  qed
qed

subsection \<open>Preservation\<close>

lemma batch_inv_start: "batch_inv [] [] (batch_start t)"
  by (simp add: batch_inv_def batch_start_def)

lemma batch_inv_tx: "batch_inv got out (s\<lparr>bt_tx := t\<rparr>) = batch_inv got out s"
  "batch_inv got out (s\<lparr>bt_counter_max := n\<rparr>) = batch_inv got out s"
  by (simp_all add: batch_inv_def)

lemma out_finos:
  assumes "map (unat \<circ> fst) out = [1..<Suc (length out)]"
  shows "(unat \<circ> fst) ` set out = {1..length out}"
proof -
  have "set (map (unat \<circ> fst) out) = {1..length out}"
    unfolding assms by auto
  then show ?thesis by simp
qed

lemma batch_inv_arrival:
  assumes inv: "batch_inv got out s" and new: "fst it \<notin> fst ` set got" "fst it \<noteq> 0"
  shows "batch_inv (got @ [it]) out (take_opened it s)"
proof -
  have "set out \<subseteq> set got"
  proof -
    have "mset out \<subseteq># mset got"
      using inv by (simp add: batch_inv_def)
    then show ?thesis by (rule set_mset_mono [of "mset out" "mset got", simplified])
  qed
  then have "unat (fst it) \<notin> (unat \<circ> fst) ` set out"
  proof -
    have "fst it \<notin> fst ` set out"
      using new(1) \<open>set out \<subseteq> set got\<close> by blast
    then show ?thesis
      using inj_image_mem_iff [OF inj_unsigned, of "fst it" "fst ` set out"]
      by (simp add: image_comp)
  qed
  moreover have "(unat \<circ> fst) ` set out = {1..length out}"
    using inv by (intro out_finos) (simp add: batch_inv_def del: upt_Suc)
  moreover have "1 \<le> unat (fst it)"
    using new(2) by (simp add: Suc_leI unat_gt_0)
  ultimately have "length out < unat (fst it)"
    by auto
  then show ?thesis
    using inv new(1) by (auto simp: batch_inv_def take_opened_def split: prod.split simp del: upt_Suc)
qed

lemma quiet_check_inv:
  "quiet_check C frames fcs time_left s = Done (Some s') \<Longrightarrow> \<exists>t. s' = s\<lparr>bt_tx := t\<rparr>"
  by (auto simp: quiet_check_def Let_def split: if_splits)

lemma recv_loop_inv:
  assumes "recv_loop C evs s = Done (Some (evs1, b, s1))" and "batch_inv got out s"
    and "distinct (map fst (got @ arrivals evs))" and "\<forall>x \<in> set (arrivals evs). fst x \<noteq> 0"
  shows "\<exists>new. arrivals evs = new @ arrivals evs1 \<and> batch_inv (got @ new) out s1 \<and> (b \<longrightarrow> evs1 = [])"
  using assms
proof (induction C evs s arbitrary: got rule: recv_loop.induct)
  case (1 C s)
  then show ?case by simp
next
  case (2 C frames fcs time_left evs s)
  then show ?case
    by (auto split: option.splits dest!: quiet_check_inv simp: batch_inv_tx)
next
  case (3 C it evs s)
  have inv: "batch_inv (got @ [it]) out (take_opened it s)"
    using 3 by (intro batch_inv_arrival) auto
  show ?case
  proof (cases "bt_counter (take_opened it s) > bt_counter_max (take_opened it s)")
    case True
    then show ?thesis
      using "3.prems"(1) inv by (intro exI [of _ "[it]"]) (auto simp: batch_inv_tx)
  next
    case False
    then have "recv_loop C evs (take_opened it s) = Done (Some (evs1, b, s1))"
      using "3.prems"(1) by simp
    then obtain new where "arrivals evs = new @ arrivals evs1" "batch_inv ((got @ [it]) @ new) out s1"
      "b \<longrightarrow> evs1 = []"
      using "3.IH" [OF refl False _ inv] "3.prems"(3,4) by auto
    then show ?thesis
      by (intro exI [of _ "it # new"]) simp
  qed
qed

lemma next_run_inv:
  assumes inv: "batch_inv got out s" and run: "next_run s = (ys, s')"
  shows "batch_inv got (out @ ys) s' \<and> (all_finos got \<longrightarrow> bt_vec s' = [])"
proof -
  let ?v = "sort_key fst (bt_vec s)"
  obtain sent' where t: "take_run (bt_files_sent s) ?v = (ys, sent')"
    and s': "s' = s\<lparr>bt_vec := drop (length ys) ?v, bt_files_sent := sent', bt_counter := bt_counter s - length ys\<rparr>"
    using run by (auto simp: next_run_def Let_def split: prod.splits)
  have sent: "unat (bt_files_sent s) = length out" and m: "mset got = mset out + mset (bt_vec s)"
    and d: "distinct (map fst got)" and o: "map (unat \<circ> fst) out = [1..<Suc (length out)]"
    and big: "\<forall>x \<in> set (bt_vec s). length out < unat (fst x)" and cnt: "bt_counter s = length (bt_vec s)"
    using inv by (simp_all add: batch_inv_def del: upt_Suc)
  have perm: "mset (map fst got) = mset (map fst out @ map fst ?v)"
    using m by simp
  then have dv: "distinct (map fst ?v)"
    using d mset_eq_imp_distinct_iff [OF perm] by simp
  obtain zs where zs: "?v = ys @ zs"
    "map (unat \<circ> fst) ys = [Suc (length out)..<Suc (length out + length ys)]"
    "unat sent' = length out + length ys" "\<forall>x \<in> set zs. length out + length ys < unat (fst x)"
    "zs \<noteq> [] \<longrightarrow> unat (fst (hd zs)) \<noteq> Suc (length out + length ys)"
    using take_run_spec [OF sorted_sort_key dv _ t] big sent by auto
  have vz: "bt_vec s' = zs"
    using zs(1) by (simp add: s')
  have mv: "mset (bt_vec s) = mset ys + mset zs"
    using zs(1) by (metis mset_append mset_sort)
  have "length (bt_vec s) = length ys + length zs"
    using mv by (metis mset_append size_mset length_append)
  moreover have "map (unat \<circ> fst) (out @ ys) = [1..<Suc (length (out @ ys))]"
    using o zs(2) upt_add_eq_append [of 1 "Suc (length out)" "length ys"] by (simp del: upt_Suc)
  ultimately have inv': "batch_inv got (out @ ys) s'"
    using inv m mv zs vz cnt unfolding batch_inv_def s' by (simp del: upt_Suc)
  have "zs = []" if all: "all_finos got"
  proof (rule ccontr)
    assume ne: "zs \<noteq> []"
    have "size (mset got) = length out + length ys + length zs"
      using m mv by simp
    then have len: "length got = length out + length ys + length zs"
      by simp
    have "1 \<le> length zs"
      using ne by (simp add: Suc_leI)
    then have "Suc (length out + length ys) \<in> {1..length got}"
      using len by simp
    then have "Suc (length out + length ys) \<in> (unat \<circ> fst) ` set got"
      using all by (simp only: all_finos_def)
    moreover have "set got = set out \<union> set ys \<union> set zs"
      using m mv by (metis set_mset_mset set_mset_union sup_assoc)
    moreover have "(unat \<circ> fst) ` set (out @ ys) = {1..length (out @ ys)}"
      using inv' by (intro out_finos) (simp add: batch_inv_def del: upt_Suc)
    moreover have "Suc (length out + length ys) \<notin> {1..length (out @ ys)}"
      by simp
    ultimately have "Suc (length out + length ys) \<in> (unat \<circ> fst) ` set zs"
      by (metis image_Un set_append UnE)
    then obtain x where x: "x \<in> set zs" "unat (fst x) = Suc (length out + length ys)"
      by auto
    have "fst (hd zs) \<le> fst x"
      using sorted_sort_key [of fst "bt_vec s"] ne x(1) unfolding zs(1)
      by (cases zs) (auto simp: sorted_append)
    then have "unat (fst (hd zs)) \<le> Suc (length out + length ys)"
      using x(2) by (simp add: word_le_nat_alt)
    moreover have "length out + length ys < unat (fst (hd zs))"
      using zs(4) ne by simp
    ultimately show False
      using zs(5) ne by simp
  qed
  with inv' vz show ?thesis by simp
qed

subsection \<open>The whole loop\<close>

lemma all_finos_nonzero: "all_finos its \<Longrightarrow> x \<in> set its \<Longrightarrow> fst x \<noteq> 0"
  by (force simp: all_finos_def)

lemma send_batch_Done:
  "send_batch C p d b ys s = Done s' \<Longrightarrow> \<exists>t. s' = s\<lparr>bt_tx := t\<rparr>"
  by (auto simp: send_batch_def)

lemma batch_inv_counter: "batch_inv got out s \<Longrightarrow> bt_counter s = length (bt_vec s)"
  by (simp add: batch_inv_def)

lemma iterate_loop_inv:
  assumes "iterate_loop C p d evs s = Done (Some (yss, s'))" and "batch_inv got out s"
    and "all_finos (got @ arrivals evs)"
  shows "batch_inv (got @ arrivals evs) (out @ concat yss) s' \<and> bt_vec s' = []"
  using assms
proof (induction C p d evs s arbitrary: got out yss rule: iterate_loop.induct)
  case (1 C p d evs s)
  obtain evs1 b s1 where r: "recv_loop C evs s = Done (Some (evs1, b, s1))"
    using "1.prems"(1) by (subst (asm) iterate_loop.simps) (auto split: outcome.splits option.splits prod.splits)
  have fin: "all_finos (got @ arrivals evs)"
    by (rule "1.prems"(3))
  have dist: "distinct (map fst (got @ arrivals evs))"
    using fin by (simp add: all_finos_def)
  have nz: "\<forall>x \<in> set (arrivals evs). fst x \<noteq> 0"
    using all_finos_nonzero [OF fin] by simp
  obtain new where new: "arrivals evs = new @ arrivals evs1" "batch_inv (got @ new) out s1" "b \<longrightarrow> evs1 = []"
    using recv_loop_inv [OF r "1.prems"(2) dist nz] by blast
  have fin1: "all_finos ((got @ new) @ arrivals evs1)"
    using fin new(1) by simp
  obtain ys s2 where n: "next_run s1 = (ys, s2)"
    by (cases "next_run s1")
  note N = next_run_inv [OF new(2) n]
  note I = "1.prems"(1) [unfolded iterate_loop.simps [of C p d evs s] r, simplified]
  show ?case
  proof (cases "bt_counter s1 > 0")
    case False
    then have v: "bt_vec s1 = []"
      using batch_inv_counter [OF new(2)] by simp
    show ?thesis
    proof (cases b)
      case True
      then show ?thesis
        using I False v new by simp
    next
      case nb: False
      then have "evs \<noteq> []" and "iterate_loop C p d evs1 s1 = Done (Some (yss, s'))"
        using I False by (auto split: if_splits)
      then show ?thesis
        using "1.IH"(3) [OF r refl refl refl False nb, where got = "got @ new" and out = out and yss = yss] new fin1 by simp
    qed
  next
    case True
    show ?thesis
    proof (cases "ys = []")
      case nil: True
      then have "evs \<noteq> []" and "iterate_loop C p d evs1 s2 = Done (Some (yss, s'))"
        using I True n by (auto split: if_splits)
      then show ?thesis
        using "1.IH"(1) [OF r refl refl refl True refl n [symmetric] nil, where got = "got @ new" and out = out and yss = yss]
          nil N new fin1 by simp
    next
      case ne: False
      obtain s3 where s3: "send_batch C p d b ys s2 = Done s3"
        using I True n ne by auto
      then have inv3: "batch_inv (got @ new) (out @ ys) s3" and v3: "bt_vec s3 = bt_vec s2"
        using N send_batch_Done [OF s3] by (auto simp: batch_inv_tx)
      show ?thesis
      proof (cases b)
        case fin_b: True
        then show ?thesis
          using I True n ne s3 inv3 v3 N new fin1 by auto
      next
        case nb: False
        obtain yss1 where y: "evs \<noteq> []" "iterate_loop C p d evs1 s3 = Done (Some (yss1, s'))" "yss = ys # yss1"
          using I True n ne s3 nb by (auto split: if_splits)
        then show ?thesis
          using "1.IH"(2) [OF r refl refl refl True refl n [symmetric] ne nb, where got = "got @ new" and out = "out @ ys" and yss = yss1]
            nb inv3 new fin1 by simp
      qed
    qed
  qed
qed

subsection \<open>The loop returns\<close>

text \<open>
  What the loop needs to return: every check at a timeout passes, so the receiver has sent no error,
  and no status with another checksum or for a file the workers have not completed; and the lists of
  opened files that can be sent fit into the buffer they are compressed to. Both are conditions the
  program does not ensure: it exits when a check fails, and panics when a list does not fit.
\<close>

fun checks_pass :: "'t codec \<Rightarrow> batch_event list \<Rightarrow> tx_check \<Rightarrow> bool" where
  "checks_pass C [] t = True"
| "checks_pass C (Arrival it # evs) t = checks_pass C evs (note_name (fst it) (fst (snd it)) t)"
| "checks_pass C (Quiet frames fcs time_left # evs) t =
     (case file_check C time_left (fc_worker fcs (t\<lparr>ck_inbox := ck_inbox t @ frames\<rparr>)) of
        Done (Returned r, t1) \<Rightarrow> r = 1 \<and> checks_pass C evs t1
      | _ \<Rightarrow> False)"

lemma checks_pass_Quiet:
  "checks_pass C (Quiet frames fcs time_left # evs) t \<longleftrightarrow>
     (\<exists>t1. file_check C time_left (fc_worker fcs (t\<lparr>ck_inbox := ck_inbox t @ frames\<rparr>)) = Done (Returned 1, t1) \<and>
        checks_pass C evs t1)"
proof (cases "file_check C time_left (fc_worker fcs (t\<lparr>ck_inbox := ck_inbox t @ frames\<rparr>))")
  case (Done rs)
  then show ?thesis
    by (cases rs; cases "fst rs") auto
qed simp_all

text \<open>
  A list of files is sent as it is up to 160 bytes, and else compressed into 49152 bytes, where a
  compressor that finds no room panics. The lists of a transfer are runs of consecutive file numbers;
  nothing bounds their length, as a file that is opened late holds back all the later ones.
\<close>

definition list_sends :: "'t codec \<Rightarrow> ESCP_file_list \<Rightarrow> bool" where
  "list_sends C fl \<longleftrightarrow> length (file_list_bytes C fl) \<le> 160 \<or> cd_compress C 49152 (file_list_bytes C fl) \<noteq> None"

definition batches_fit :: "'t codec \<Rightarrow> bool \<Rightarrow> string \<Rightarrow> opened list \<Rightarrow> bool" where
  "batches_fit C preserve dest_path its \<longleftrightarrow>
     (\<forall>do_break m ys. distinct ys \<longrightarrow> set ys \<subseteq> set its \<longrightarrow> map (unat \<circ> fst) ys = [m..<m + length ys] \<longrightarrow>
        list_sends C (spec_list preserve dest_path do_break ys))"

text \<open>What was sent before does not matter to the checks.\<close>

lemma check_entry_sent:
  "check_entry e (s\<lparr>ck_sent := x\<rparr>) = bind_outcome (check_entry e s) (\<lambda>(r, s1). Done (r, s1\<lparr>ck_sent := x\<rparr>))"
proof -
  obtain r items hm where w: "wait_crc (ck_closed s) (f_fino e) (ck_fc s) (ck_hm s) = (r, items, hm)"
    by (cases "wait_crc (ck_closed s) (f_fino e) (ck_fc s) (ck_hm s)")
  show ?thesis
    by (cases r; cases "hm (f_fino e)"; cases "f_errmsg e"; cases "f_name e") (auto simp: check_entry_def w Let_def)
qed

lemma check_entries_sent:
  "check_entries es (s\<lparr>ck_sent := x\<rparr>) = bind_outcome (check_entries es s) (\<lambda>(r, s1). Done (r, s1\<lparr>ck_sent := x\<rparr>))"
proof (induction es arbitrary: s)
  case (Cons e es)
  show ?case
  proof (cases "check_entry e s")
    case (Done rs)
    then show ?thesis
      using Cons.IH by (cases rs; cases "fst rs") (simp_all add: check_entry_sent)
  qed (simp_all add: check_entry_sent)
qed simp

lemma handle_msg_sent:
  "handle_msg_from_receiver C s = Done (r, s1) \<Longrightarrow> handle_msg_from_receiver C (s\<lparr>ck_sent := x\<rparr>) = Done (r, s1\<lparr>ck_sent := x\<rparr>)"
proof (cases "ck_inbox s")
  case (Cons ptr rest)
  assume h: "handle_msg_from_receiver C s = Done (r, s1)"
  obtain sz t c where m: "meta_open ptr = Done (sz, t, c)"
    using h Cons by (auto simp: handle_msg_from_receiver_def)
  show ?thesis
  proof (cases "t = msg_file_stat")
    case False
    then show ?thesis
      using h m Cons by (auto simp: handle_msg_from_receiver_def handle_other_def split: if_splits)
  next
    case True
    then obtain fl es s2 where "tx_file_list C ptr = Done fl" "fl_files fl = Some es" "check_entries es s = Done (r, s2)"
      "s1 = (if r = Returned 1 then s2\<lparr>ck_inbox := rest\<rparr> else s2)"
      using h m by (auto simp: handle_msg_from_receiver_def Cons split: prod.splits)
    then show ?thesis
      using m True by (simp add: handle_msg_from_receiver_def Cons check_entries_sent)
  qed
qed (simp add: handle_msg_from_receiver_def)

lemma file_check_sent:
  assumes "file_check C b s = Done (r, s1)"
  shows "\<exists>y. file_check C b (s\<lparr>ck_sent := x\<rparr>) = Done (r, s1\<lparr>ck_sent := y\<rparr>)"
proof -
  obtain q s2 where h: "handle_msg_from_receiver C s = Done (q, s2)"
    using assms by (auto simp: file_check_def)
  note h' = handle_msg_sent [OF h, of x]
  show ?thesis
  proof (cases "q = Returned 0 \<and> b")
    case True
    then have c: "send_file_complete C s2 = Done s1" and r: "r = Returned 1"
      using assms h by (auto simp: file_check_def)
    have "\<exists>y. send_file_complete C (s2\<lparr>ck_sent := x\<rparr>) = Done (s1\<lparr>ck_sent := y\<rparr>)"
      using c by (auto simp: send_file_complete_def Let_def split: if_splits intro: exI [of _ x])
    then show ?thesis
      using True h' r by (auto simp: file_check_def)
  next
    case False
    then show ?thesis
      using assms h h' by (cases q) (auto simp: file_check_def split: if_splits intro: exI [of _ x])
  qed
qed

lemma checks_pass_sent: "checks_pass C evs t \<Longrightarrow> checks_pass C evs (t\<lparr>ck_sent := x\<rparr>)"
proof (induction C evs t arbitrary: x rule: checks_pass.induct)
  case (2 C it evs t)
  have "note_name f n (t\<lparr>ck_sent := x\<rparr>) = (note_name f n t)\<lparr>ck_sent := x\<rparr>" for f n
    by (simp add: note_name_def)
  then show ?case
    using 2 by simp
next
  case (3 C frames fcs time_left evs t)
  let ?t = "fc_worker fcs (t\<lparr>ck_inbox := ck_inbox t @ frames\<rparr>)"
  obtain t1 where t1: "file_check C time_left ?t = Done (Returned 1, t1)" "checks_pass C evs t1"
    using "3.prems" unfolding checks_pass_Quiet by blast
  obtain y where "file_check C time_left (?t\<lparr>ck_sent := x\<rparr>) = Done (Returned 1, t1\<lparr>ck_sent := y\<rparr>)"
    using file_check_sent [OF t1(1)] by blast
  moreover have "fc_worker fcs (t\<lparr>ck_sent := x, ck_inbox := ck_inbox t @ frames\<rparr>) = ?t\<lparr>ck_sent := x\<rparr>"
    by (simp add: fc_worker_eq)
  moreover have "checks_pass C evs (t1\<lparr>ck_sent := y\<rparr>)"
    using "3.IH" [OF t1(1) refl refl] t1(2) by simp
  ultimately show ?case
    unfolding checks_pass_Quiet by simp
qed simp

lemma recv_loop_total:
  assumes "checks_pass C evs (bt_tx s)"
  shows "\<exists>evs1 b s1. recv_loop C evs s = Done (Some (evs1, b, s1)) \<and> checks_pass C evs1 (bt_tx s1)"
  using assms
proof (induction C evs s rule: recv_loop.induct)
  case (1 C s)
  then show ?case by auto
next
  case (2 C frames fcs time_left evs s)
  then obtain t1 where "file_check C time_left (fc_worker fcs ((bt_tx s)\<lparr>ck_inbox := ck_inbox (bt_tx s) @ frames\<rparr>)) =
      Done (Returned 1, t1)" "checks_pass C evs t1"
    unfolding checks_pass_Quiet by blast
  then show ?case
    by (auto simp: quiet_check_def)
next
  case (3 C it evs s)
  have "checks_pass C evs (bt_tx (take_opened it s))"
    using "3.prems" by (cases it) (simp add: take_opened_def)
  then show ?case
    using "3.IH" [OF refl] "3.prems" by (auto simp: Let_def)
qed

lemma send_batch_total:
  assumes "list_sends C (spec_list p d b ys)" and "checks_pass C evs (bt_tx s)"
  shows "\<exists>s'. send_batch C p d b ys s = Done s' \<and> checks_pass C evs (bt_tx s')"
proof -
  obtain frame where "send_file_spec C (spec_list p d b ys) = Done frame"
    using assms(1) by (cases "160 < length (file_list_bytes C (spec_list p d b ys))")
      (auto simp: list_sends_def send_file_spec_def send_compressed_def Let_def)
  then show ?thesis
    using checks_pass_sent [OF assms(2)] by (simp add: send_batch_def)
qed

lemma next_run_tx: "next_run s = (ys, s') \<Longrightarrow> bt_tx s' = bt_tx s"
  by (auto simp: next_run_def Let_def split: prod.splits)

lemma run_from_got:
  assumes "batch_inv got (out @ ys) s"
  shows "distinct ys \<and> set ys \<subseteq> set got"
proof -
  have "mset got = mset out + mset ys + mset (bt_vec s)" "distinct (map fst got)"
    using assms by (simp_all add: batch_inv_def)
  then have perm: "mset got = mset (out @ ys @ bt_vec s)" and "distinct got"
    by (simp_all add: distinct_map)
  then have "distinct (out @ ys @ bt_vec s)"
    using mset_eq_imp_distinct_iff by blast
  then show ?thesis
    using mset_eq_setD [OF perm] by auto
qed

lemma next_run_numbers:
  assumes "batch_inv got out s" and "batch_inv got (out @ ys) s2"
  shows "map (unat \<circ> fst) ys = [Suc (length out)..<Suc (length out) + length ys]"
proof -
  have "map (unat \<circ> fst) out @ map (unat \<circ> fst) ys = [1..<Suc (length (out @ ys))]"
    using assms(2) unfolding batch_inv_def by (metis map_append)
  also have "\<dots> = [1..<Suc (length out)] @ [Suc (length out)..<Suc (length out) + length ys]"
    using upt_add_eq_append [of 1 "Suc (length out)" "length ys"] by simp
  finally show ?thesis
    using assms(1) unfolding batch_inv_def by (metis same_append_eq)
qed

lemma iterate_loop_total:
  assumes "checks_pass C evs (bt_tx s)" and "batches_fit C p d (got @ arrivals evs)"
    and "batch_inv got out s" and "all_finos (got @ arrivals evs)"
  shows "\<exists>yss s'. iterate_loop C p d evs s = Done (Some (yss, s'))"
  using assms
proof (induction C p d evs s arbitrary: got out rule: iterate_loop.induct)
  case (1 C p d evs s)
  obtain evs1 b s1 where r: "recv_loop C evs s = Done (Some (evs1, b, s1))" and t: "checks_pass C evs1 (bt_tx s1)"
    using recv_loop_total [OF "1.prems"(1)] by blast
  have dist: "distinct (map fst (got @ arrivals evs))"
    using "1.prems"(4) by (simp add: all_finos_def)
  have nz: "\<forall>x \<in> set (arrivals evs). fst x \<noteq> 0"
    using all_finos_nonzero [OF "1.prems"(4)] by simp
  obtain new where new: "arrivals evs = new @ arrivals evs1" "batch_inv (got @ new) out s1" "b \<longrightarrow> evs1 = []"
    using recv_loop_inv [OF r "1.prems"(3) dist nz] by blast
  have fin1: "all_finos ((got @ new) @ arrivals evs1)" and fit1: "batches_fit C p d ((got @ new) @ arrivals evs1)"
    using "1.prems"(2,4) new(1) by simp_all
  obtain ys s2 where n: "next_run s1 = (ys, s2)"
    by (cases "next_run s1")
  note N = next_run_inv [OF new(2) n]
  have t2: "checks_pass C evs1 (bt_tx s2)"
    using t next_run_tx [OF n] by simp
  have "distinct ys" "set ys \<subseteq> set (got @ new)"
    using run_from_got N by blast+
  moreover have "map (unat \<circ> fst) ys = [Suc (length out)..<Suc (length out) + length ys]"
    using next_run_numbers new(2) N by blast
  moreover have "set (got @ new) \<subseteq> set ((got @ new) @ arrivals evs1)"
    by auto
  ultimately have "list_sends C (spec_list p d b ys)"
    using fit1 unfolding batches_fit_def by (meson subset_trans)
  then obtain s3 where s3: "send_batch C p d b ys s2 = Done s3" "checks_pass C evs1 (bt_tx s3)"
    using send_batch_total [OF _ t2] by blast
  have inv3: "batch_inv (got @ new) (out @ ys) s3"
    using N send_batch_Done [OF s3(1)] by (auto simp: batch_inv_tx)
  have b: "b" if "evs = []"
    using r that by simp
  have gap: "evs \<noteq> []" if "0 < bt_counter s1" "ys = []"
  proof
    assume "evs = []"
    then have "arrivals evs1 = []"
      using new(1) by simp
    then have "bt_vec s2 = []"
      using N fin1 by simp
    moreover have "mset (bt_vec s2) = mset (bt_vec s1)"
      using N new(2) that(2) unfolding batch_inv_def by (metis add_left_cancel append_Nil2)
    ultimately show False
      using that(1) batch_inv_counter [OF new(2)] by simp
  qed
  show ?case
    unfolding iterate_loop.simps [of C p d evs s] r
    using "1.IH"(3) [OF r refl refl refl _ _ _ t fit1 new(2) fin1]
      "1.IH"(1) [OF r refl refl refl _ refl n [symmetric] _ _ t2 fit1 _ fin1, of "out @ ys"]
      "1.IH"(2) [OF r refl refl refl _ refl n [symmetric] _ _ _ s3(2) fit1 inv3 fin1]
      b gap n s3(1) N by auto
qed

subsection \<open>Lines of a file list\<close>

definition plain_line :: "string \<Rightarrow> bool" where
  "plain_line l \<longleftrightarrow> l \<noteq> [] \<and> newline \<notin> set l \<and> last l \<noteq> carriage"

lemma newline_carriage [simp]: "newline \<noteq> carriage"
  by (simp add: newline_def carriage_def)

lemma trim_end_cr_plain: "plain_line l \<Longrightarrow> trim_end_cr (l @ replicate k carriage) = l"
proof -
  assume "plain_line l"
  then obtain l' c where l: "l = l' @ [c]" "c \<noteq> carriage"
    by (cases l rule: rev_cases) (auto simp: plain_line_def)
  have "dropWhile (\<lambda>c. c = carriage) (replicate k carriage @ c # rev l') = c # rev l'"
    using l(2) by (induction k) auto
  then show ?thesis
    by (simp add: l trim_end_cr_def)
qed

lemma split_lines:
  assumes "\<forall>l \<in> set ls. plain_line l"
  shows "map trim_end_cr (filter (\<lambda>i. i \<noteq> [])
    (split_on newline (concat (map (\<lambda>l. l @ replicate k carriage @ [newline]) ls)))) = ls"
  using assms
proof (induction ls)
  case Nil
  then show ?case by simp
next
  case (Cons l ls)
  have nn: "newline \<notin> set (l @ replicate k carriage)"
    using Cons.prems by (auto simp: plain_line_def)
  have "split_on newline (concat (map (\<lambda>l. l @ replicate k carriage @ [newline]) (l # ls)))
    = (l @ replicate k carriage) # split_on newline (concat (map (\<lambda>l. l @ replicate k carriage @ [newline]) ls))"
    using split_on_append [OF nn] by simp
  then show ?case
    using Cons by (simp add: trim_end_cr_plain) (simp add: plain_line_def)
qed

section \<open>A small batch\<close>

definition demo_stat :: stat where
  "demo_stat = \<lparr>s_size = 10, s_mode = 0, s_uid = 0, s_gid = 0, s_atim = (0, 0), s_mtim = (0, 0)\<rparr>"

definition demo_events :: "batch_event list" where
  "demo_events =
     [Arrival (2, ''b'', demo_stat), Quiet [] [] True, Arrival (3, ''c'', demo_stat), Quiet [] [] False,
      Arrival (1, ''a'', demo_stat)]"

definition demo_tx :: tx_check where
  "demo_tx = \<lparr>ck_hm = Map.empty, ck_files_ok = 0, ck_fc = [], ck_fc2 = [], ck_closed = False,
     ck_inbox = [], ck_sent = []\<rparr>"

lemma demo_arrivals: "arrivals demo_events = [(2, ''b'', demo_stat), (3, ''c'', demo_stat), (1, ''a'', demo_stat)]"
  by (simp add: demo_events_def)

lemma demo_all_finos: "all_finos (arrivals demo_events)"
  by (auto simp: all_finos_def demo_arrivals)

text \<open>A codec with the laws, in which the lists of up to three given files are short.\<close>

definition short_lists :: "opened list \<Rightarrow> opened list list" where
  "short_lists its = concat (map (\<lambda>k. List.n_lists k its) [0..<Suc (length its)])"

definition fit_codec :: "bool \<Rightarrow> string \<Rightarrow> opened list \<Rightarrow> fbpush list codec" where
  "fit_codec preserve dest_path its =
     copy_codec (map (\<lambda>(b, ys). ESCP_file_list_create (spec_list preserve dest_path b ys))
       (List.product [True, False] (short_lists its)))"

lemma fit_codec_laws: "codec_laws (fit_codec preserve dest_path its)"
  by (simp add: fit_codec_def copy_codec_laws)

lemma short_lists_length: "length (short_lists its) = sum_list (map (\<lambda>k. length its ^ k) [0..<Suc (length its)])"
  by (simp add: short_lists_def length_concat comp_def length_n_lists del: upt_Suc)

lemma fit_codec_fits:
  assumes "length its \<le> 3"
  shows "batches_fit (fit_codec preserve dest_path its) preserve dest_path its"
proof -
  let ?exs = "map (\<lambda>(b, ys). ESCP_file_list_create (spec_list preserve dest_path b ys)) (List.product [True, False] (short_lists its))"
  have "length its = 0 \<or> length its = 1 \<or> length its = 2 \<or> length its = 3"
    using assms by linarith
  then have "length (short_lists its) \<le> 40"
    unfolding short_lists_length by (elim disjE) (simp_all add: upt_rec)
  then have len: "length ?exs \<le> 160"
    by (simp add: length_product)
  have "list_sends (fit_codec preserve dest_path its) (spec_list preserve dest_path b ys)"
    if "distinct ys" "set ys \<subseteq> set its" for b ys
  proof -
    have "length ys \<le> length its"
      using that by (metis card_length card_mono distinct_card finite_set le_trans)
    then have "ys \<in> set (short_lists its)"
      using that(2) by (auto simp: short_lists_def set_n_lists)
    then have "(b, ys) \<in> set (List.product [True, False] (short_lists its))"
      by (cases b) auto
    then have "(\<lambda>(b, ys). ESCP_file_list_create (spec_list preserve dest_path b ys)) (b, ys) \<in> set ?exs"
      unfolding set_map by (rule imageI)
    then have "ESCP_file_list_create (spec_list preserve dest_path b ys) \<in> set ?exs"
      by (simp only: case_prod_conv)
    then have "length (file_list_bytes (fit_codec preserve dest_path its) (spec_list preserve dest_path b ys)) \<le> length ?exs"
      using short_finish [of "ESCP_file_list_create (spec_list preserve dest_path b ys)" ?exs]
      by (simp only: fit_codec_def file_list_bytes_def copy_codec_def codec.simps)
    then show ?thesis
      using len by (simp add: list_sends_def)
  qed
  then show ?thesis
    by (simp add: batches_fit_def)
qed

lemma demo_checks: "checks_pass C demo_events demo_tx"
  by (simp add: demo_events_def demo_tx_def note_name_def file_check_def handle_msg_from_receiver_def
      send_file_complete_def)

section \<open>Properties\<close>

text \<open>
  Claim C13. File specifications leave in the order of their file numbers: whatever order the
  workers open the files in and however arrivals, timeouts and batch limits interleave, the
  lists that \<open>iterate_files\<close> sends contain every opened file exactly once, numbered 1, 2, 3 and
  so on without a gap, nothing stays in the queue, and the returned totals are the number of
  files and the sum of their sizes.
\<close>

theorem batches_in_order:
  assumes "all_finos (arrivals evs)"
    and "iterate_loop C preserve dest_path evs (batch_start t) = Done (Some (yss, s'))"
  shows "map (unat \<circ> fst) (concat yss) = [1..<Suc (length (arrivals evs))] \<and>
    mset (concat yss) = mset (arrivals evs) \<and> bt_vec s' = [] \<and>
    bt_files_total s' = length (arrivals evs) \<and>
    bt_bytes_total s' = sum_list (map (s_size \<circ> snd \<circ> snd) (arrivals evs))"
proof -
  have inv: "batch_inv (arrivals evs) (concat yss) s'" and v: "bt_vec s' = []"
    using iterate_loop_inv [OF assms(2) batch_inv_start] assms(1) by simp_all
  then have m: "mset (concat yss) = mset (arrivals evs)"
    by (simp add: batch_inv_def)
  then have "length (concat yss) = length (arrivals evs)"
    by (metis size_mset)
  with inv v m show ?thesis
    unfolding batch_inv_def by simp
qed

theorem batches_in_order_witness:
  "\<exists>yss s'. iterate_loop (fit_codec False ''d'' (arrivals demo_events)) False ''d'' demo_events (batch_start demo_tx)
       = Done (Some (yss, s')) \<and> map (unat \<circ> fst) (concat yss) = [1, 2, 3]"
proof -
  let ?C = "fit_codec False ''d'' (arrivals demo_events)"
  have "length (arrivals demo_events) \<le> 3"
    by (simp add: demo_arrivals)
  then obtain yss s' where r: "iterate_loop ?C False ''d'' demo_events (batch_start demo_tx) = Done (Some (yss, s'))"
    using iterate_loop_total [of ?C demo_events "batch_start demo_tx" False "''d''" "[]" "[]"]
      demo_checks demo_all_finos batch_inv_start fit_codec_fits by (auto simp: batch_start_def)
  then show ?thesis
    using batches_in_order [OF demo_all_finos r] by (simp add: demo_arrivals numeral_2_eq_2 numeral_3_eq_3)
qed


text \<open>Three files, with a keepalive of the receiver at the first timeout.\<close>

definition alive_events :: "batch_event list" where
  "alive_events = Quiet [send_empty msg_keepalive] [] True # demo_events"

lemma alive_checks: "checks_pass C alive_events demo_tx"
proof -
  have "file_check C True (demo_tx\<lparr>ck_inbox := [send_empty msg_keepalive]\<rparr>) = Done (Returned 1, demo_tx)"
    using meta_open_frame [of "[]" msg_keepalive]
    by (simp add: file_check_def handle_msg_from_receiver_def handle_other_def demo_tx_def send_empty_def msg_type_defs)
  then show ?thesis
    using demo_checks [of C] by (simp add: alive_events_def) (simp add: demo_tx_def)
qed


text \<open>
  A plain list of files reads back line by line: when the text is not YAML, the
  names of a file list are its lines in order, whether lines end in a newline or in any number
  of carriage returns and a newline.
\<close>

theorem file_list_lines:
  assumes "\<forall>l \<in> set ls. plain_line l"
    and "yaml (concat (map (\<lambda>l. l @ replicate k carriage @ [newline]) ls)) = None"
  shows "parse_file_list yaml (concat (map (\<lambda>l. l @ replicate k carriage @ [newline]) ls))
    = map (\<lambda>l. (l, [])) ls"
proof -
  let ?lines = "filter (\<lambda>i. i \<noteq> [])
    (split_on newline (concat (map (\<lambda>l. l @ replicate k carriage @ [newline]) ls)))"
  have "map (\<lambda>i. (trim_end_cr i, [])) ?lines = map (\<lambda>l. (l, [])) (map trim_end_cr ?lines)"
    by simp
  then show ?thesis
    unfolding split_lines [OF assms(1)] using assms(2) by (simp add: parse_file_list_def)
qed

end
