(* ===== verification/File_Walk.thy ===== *)
theory File_Walk
  imports File_Batch
begin

text \<open>
  The worker threads of \<open>iterate_files\<close> (\<open>src/escp/sender.rs\<close>): four \<open>iterate_file_worker\<close>s
  that resolve, open and number files, two \<open>iterate_dir_worker\<close>s that read directories, the
  main thread that feeds them, and the protocol of the four global atomics by which the file
  workers agree to exit. Every atomic operation and every channel operation is one step; the
  steps of the threads interleave in any order. A step is a labelled, executable function, so
  a run of the threads is a list of labels.
\<close>

section \<open>Looking at one file\<close>

record walk_fs =
  wf_open :: "string \<Rightarrow> bool \<Rightarrow> i32 \<times> i32"
  wf_fstat :: "i32 \<Rightarrow> stat option"

definition S_IFMT :: u32 where "S_IFMT = 0xF000"
definition S_IFDIR :: u32 where "S_IFDIR = 0x4000"
definition S_IFREG :: u32 where "S_IFREG = 0x8000"

text \<open>The path of an item must exist and lie below its prefix after symbolic links are resolved.\<close>

definition resolve_item :: "(string \<Rightarrow> string option) \<Rightarrow> work_item \<Rightarrow> string option" where
  "resolve_item canon it =
     (case it of (prefix, filename, dest) \<Rightarrow>
        (case canon (path_join prefix filename) of
           None \<Rightarrow> None
         | Some path \<Rightarrow>
             if path = [] then None else if \<not> path_starts_with path prefix then None else Some path))"

text \<open>Opening, with direct I/O switched off for good when the file system refuses it.\<close>

definition open_source :: "walk_fs \<Rightarrow> bool \<Rightarrow> string \<Rightarrow> (i32 \<times> i32) \<times> bool" where
  "open_source F direct path =
     (if direct then
        (let (fd, errno) = wf_open F path True
         in if fd = -1 \<and> errno = 22 then (wf_open F path False, False) else ((fd, errno), True))
      else (wf_open F path False, False))"

datatype walk_action = Ignore | Retry | Leave | Descend | Deliver i32 stat

definition examine :: "walk_fs \<Rightarrow> bool \<Rightarrow> bool \<Rightarrow> string \<Rightarrow> walk_action \<times> bool" where
  "examine F recursive direct path =
     (let ((fd, errno), direct') = open_source F direct path
      in (if fd = -1 then (if errno = 24 then Retry else Leave)
          else case wf_fstat F fd of
                 None \<Rightarrow> Ignore
               | Some st \<Rightarrow>
                   if s_mode st AND S_IFMT = S_IFDIR then (if recursive then Descend else Ignore)
                   else if s_mode st AND S_IFMT = S_IFREG then Deliver fd st
                   else Ignore,
          direct'))"

text \<open>The name sent to the receiver carries the destination name in front, after a NUL.\<close>

definition sent_name :: "work_item \<Rightarrow> string" where
  "sent_name it =
     (case it of (prefix, filename, dest) \<Rightarrow>
        if dest = [] then filename else dest @ char_of (0 :: nat) # filename)"

section \<open>State\<close>

text \<open>
  Where a file worker stands. The items it holds are those of its local variables; \<open>Sending\<close> is
  the send on the bounded channel to the main thread, which waits while the channel is full.
\<close>

datatype file_pc =
    At_recv
  | Timed_out
  | Tail_read nat
  | Balanced
  | Mask_check
  | Got work_item
  | Resolving work_item
  | Opening work_item string
  | Descending work_item
  | Dir_counted work_item
  | Numbering work_item stat
  | Entering work_item fino stat
  | Sending work_item fino stat
  | Finished_loop
  | Returned_early

record worker =
  w_pc :: file_pc
  w_ready :: bool
  w_direct :: bool

datatype dir_pc =
    Dir_idle
  | Dir_opening "string \<times> string"
  | Dir_reading "string \<times> string" "(string \<times> u32) list"

text \<open>
  The channels, the atomics (\<open>wk_tail\<close>, \<open>wk_cleanup\<close>, \<open>wk_mask\<close>, \<open>wk_fino\<close>), the threads, what
  the main thread has still to queue, and what it has received so far (\<open>wk_taken\<close>).
\<close>

record walk =
  wk_files :: "work_item list"
  wk_dirs :: "(string \<times> string) list"
  wk_msgs :: "opened list"
  wk_taken :: "opened list"
  wk_tail :: nat
  wk_cleanup :: nat
  wk_mask :: u64
  wk_fino :: nat
  wk_worker :: "nat \<Rightarrow> worker"
  wk_dirw :: "nat \<Rightarrow> dir_pc"
  wk_sources :: "work_item list"
  wk_list :: "work_item list"
  wk_started :: bool
  wk_exited :: bool

definition GLOBAL_FILEOPEN_COUNT :: nat where "GLOBAL_FILEOPEN_COUNT = 4"
definition GLOBAL_DIROPEN_COUNT :: nat where "GLOBAL_DIROPEN_COUNT = 2"
definition files_cap :: nat where "files_cap = 15000"
definition msgs_cap :: nat where "msgs_cap = 400"

definition walk_start :: "bool \<Rightarrow> work_item list \<Rightarrow> work_item list \<Rightarrow> walk" where
  "walk_start direct sources listed =
     \<lparr>wk_files = [], wk_dirs = [], wk_msgs = [], wk_taken = [], wk_tail = 0, wk_cleanup = 1, wk_mask = 0,
      wk_fino = 0, wk_worker = (\<lambda>_. \<lparr>w_pc = At_recv, w_ready = False, w_direct = direct\<rparr>),
      wk_dirw = (\<lambda>_. Dir_idle), wk_sources = sources, wk_list = listed, wk_started = False,
      wk_exited = False\<rparr>"

section \<open>Steps\<close>

definition set_pc :: "nat \<Rightarrow> file_pc \<Rightarrow> walk \<Rightarrow> walk" where
  "set_pc i pc s = s\<lparr>wk_worker := (wk_worker s)(i := (wk_worker s i)\<lparr>w_pc := pc\<rparr>)\<rparr>"

definition set_dir :: "nat \<Rightarrow> dir_pc \<Rightarrow> walk \<Rightarrow> walk" where
  "set_dir j pc s = s\<lparr>wk_dirw := (wk_dirw s)(j := pc)\<rparr>"

text \<open>
  Waiting and the exit protocol of a file worker: a timeout on the empty queue, the two loads,
  the bit of the mask set once, and the comparison with the full mask.
\<close>

datatype wait_event = Recv | Timeout | Load_tail | Load_cleanup | Set_ready | Check_mask | Unready

definition full_mask :: u64 where
  "full_mask = push_bit GLOBAL_FILEOPEN_COUNT 1 - 1"

definition set_ready :: "nat \<Rightarrow> walk \<Rightarrow> walk" where
  "set_ready i s =
     (if w_ready (wk_worker s i) then s
      else s\<lparr>wk_mask := wk_mask s OR push_bit i 1,
             wk_worker := (wk_worker s)(i := (wk_worker s i)\<lparr>w_ready := True\<rparr>)\<rparr>)"

definition unset_ready :: "nat \<Rightarrow> walk \<Rightarrow> walk" where
  "unset_ready i s =
     (if w_ready (wk_worker s i) then s\<lparr>wk_mask := wk_mask s AND NOT (push_bit i 1)\<rparr> else s)"

definition wait_step :: "nat \<Rightarrow> wait_event \<Rightarrow> file_pc \<Rightarrow> walk \<Rightarrow> walk option" where
  "wait_step i e pc s =
     (case e of
        Recv \<Rightarrow>
          if pc = At_recv \<and> wk_files s \<noteq> []
          then Some (set_pc i (Got (hd (wk_files s))) (s\<lparr>wk_files := tl (wk_files s)\<rparr>)) else None
      | Timeout \<Rightarrow> if pc = At_recv \<and> wk_files s = [] then Some (set_pc i Timed_out s) else None
      | Load_tail \<Rightarrow> if pc = Timed_out then Some (set_pc i (Tail_read (wk_tail s)) s) else None
      | Load_cleanup \<Rightarrow>
          (case pc of
             Tail_read t \<Rightarrow> Some (set_pc i (if t = wk_cleanup s then Balanced else At_recv) s)
           | _ \<Rightarrow> None)
      | Set_ready \<Rightarrow> if pc = Balanced then Some (set_pc i Mask_check (set_ready i s)) else None
      | Check_mask \<Rightarrow>
          if pc = Mask_check
          then Some (set_pc i (if wk_mask s = full_mask then Finished_loop else At_recv) s) else None
      | Unready \<Rightarrow>
          (case pc of Got it \<Rightarrow> Some (set_pc i (Resolving it) (unset_ready i s)) | _ \<Rightarrow> None))"

text \<open>
  Work on an item: resolving, opening, and the two ways on for directories and files.
  \<open>Enter False\<close> is a refusal by \<open>file_addfile\<close>, which is asked again.
\<close>

datatype work_event =
    Resolve "string \<Rightarrow> string option"
  | Open walk_fs
  | Count_dir
  | Send_dir
  | Number
  | Enter bool
  | Send_msg

definition after_open :: "nat \<Rightarrow> work_item \<Rightarrow> string \<Rightarrow> walk_action \<times> bool \<Rightarrow> walk \<Rightarrow> walk" where
  "after_open i it path act s =
     s\<lparr>wk_worker := (wk_worker s)(i := (wk_worker s i)
         \<lparr>w_direct := snd act,
          w_pc := (case fst act of
                     Ignore \<Rightarrow> At_recv | Retry \<Rightarrow> Opening it path | Leave \<Rightarrow> Returned_early
                   | Descend \<Rightarrow> Descending it | Deliver fd st \<Rightarrow> Numbering it st)\<rparr>)\<rparr>"

definition work_step :: "bool \<Rightarrow> nat \<Rightarrow> work_event \<Rightarrow> file_pc \<Rightarrow> walk \<Rightarrow> walk option" where
  "work_step rec i e pc s =
     (case e of
        Resolve canon \<Rightarrow>
          (case pc of
             Resolving it \<Rightarrow>
               Some (set_pc i (case resolve_item canon it of None \<Rightarrow> At_recv | Some p \<Rightarrow> Opening it p) s)
           | _ \<Rightarrow> None)
      | Open F \<Rightarrow>
          (case pc of
             Opening it path \<Rightarrow>
               Some (after_open i it path (examine F rec (w_direct (wk_worker s i)) path) s)
           | _ \<Rightarrow> None)
      | Count_dir \<Rightarrow>
          (case pc of
             Descending it \<Rightarrow> Some (set_pc i (Dir_counted it) (s\<lparr>wk_cleanup := wk_cleanup s + 1\<rparr>))
           | _ \<Rightarrow> None)
      | Send_dir \<Rightarrow>
          (case pc of
             Dir_counted it \<Rightarrow>
               Some (set_pc i At_recv (s\<lparr>wk_dirs := wk_dirs s @ [(fst it, fst (snd it))]\<rparr>))
           | _ \<Rightarrow> None)
      | Number \<Rightarrow>
          (case pc of
             Numbering it st \<Rightarrow>
               Some (set_pc i (Entering it (1 + of_nat (wk_fino s)) st) (s\<lparr>wk_fino := wk_fino s + 1\<rparr>))
           | _ \<Rightarrow> None)
      | Enter accepted \<Rightarrow>
          (case pc of
             Entering it f st \<Rightarrow> Some (if accepted then set_pc i (Sending it f st) s else s)
           | _ \<Rightarrow> None)
      | Send_msg \<Rightarrow>
          (case pc of
             Sending it f st \<Rightarrow>
               if length (wk_msgs s) < msgs_cap
               then Some (set_pc i At_recv (s\<lparr>wk_msgs := wk_msgs s @ [(f, sent_name it, st)]\<rparr>))
               else None
           | _ \<Rightarrow> None))"

text \<open>
  A directory worker: \<open>opendir\<close> is retried while descriptors are short, any other error ends
  the process; entries other than files and directories are passed over, and the counter moves
  at the end.
\<close>

datatype dir_event = Dir_take | Dir_open "nat + (string \<times> u32) list" | Dir_next | Dir_close

definition DT_DIR :: u32 where "DT_DIR = 4"
definition DT_REG :: u32 where "DT_REG = 8"

definition dir_entry_items :: "string \<times> string \<Rightarrow> string \<times> u32 \<Rightarrow> work_item list" where
  "dir_entry_items d e =
     (case (d, e) of ((prefix, filename), (name, ty)) \<Rightarrow>
        if name = ''.'' \<or> name = ''..'' then []
        else if ty = DT_REG \<or> ty = DT_DIR then [(prefix, path_join filename name, [])] else [])"

definition dir_step :: "nat \<Rightarrow> dir_event \<Rightarrow> dir_pc \<Rightarrow> walk \<Rightarrow> walk option" where
  "dir_step j e pc s =
     (case e of
        Dir_take \<Rightarrow>
          if pc = Dir_idle \<and> wk_dirs s \<noteq> []
          then Some (set_dir j (Dir_opening (hd (wk_dirs s))) (s\<lparr>wk_dirs := tl (wk_dirs s)\<rparr>)) else None
      | Dir_open r \<Rightarrow>
          (case pc of
             Dir_opening d \<Rightarrow>
               (case r of
                  Inl errno \<Rightarrow> Some (if errno = 24 then s else s\<lparr>wk_exited := True\<rparr>)
                | Inr es \<Rightarrow> Some (set_dir j (Dir_reading d es) s))
           | _ \<Rightarrow> None)
      | Dir_next \<Rightarrow>
          (case pc of
             Dir_reading d (e # es) \<Rightarrow>
               let items = dir_entry_items d e
               in if items \<noteq> [] \<and> files_cap \<le> length (wk_files s) then None
                  else Some (set_dir j (Dir_reading d es) (s\<lparr>wk_files := wk_files s @ items\<rparr>))
           | _ \<Rightarrow> None)
      | Dir_close \<Rightarrow>
          (case pc of
             Dir_reading d es \<Rightarrow>
               if es = [] then Some (set_dir j Dir_idle (s\<lparr>wk_tail := wk_tail s + 1\<rparr>)) else None
           | _ \<Rightarrow> None))"

text \<open>
  The main thread: the sources, then the counter, then the whole file list, then what the
  workers have opened.
\<close>

datatype main_event = Main_source | Main_tail | Main_list | Main_recv

definition main_step :: "main_event \<Rightarrow> walk \<Rightarrow> walk option" where
  "main_step e s =
     (case e of
        Main_source \<Rightarrow>
          if wk_sources s \<noteq> [] \<and> \<not> wk_started s \<and> length (wk_files s) < files_cap
          then Some (s\<lparr>wk_files := wk_files s @ [hd (wk_sources s)], wk_sources := tl (wk_sources s)\<rparr>)
          else None
      | Main_tail \<Rightarrow>
          if wk_sources s = [] \<and> \<not> wk_started s
          then Some (s\<lparr>wk_tail := wk_tail s + 1, wk_started := True\<rparr>) else None
      | Main_list \<Rightarrow>
          if wk_list s \<noteq> [] \<and> wk_started s \<and> length (wk_files s) < files_cap
          then Some (s\<lparr>wk_files := wk_files s @ [hd (wk_list s)], wk_list := tl (wk_list s)\<rparr>) else None
      | Main_recv \<Rightarrow>
          if wk_msgs s \<noteq> [] \<and> wk_started s \<and> wk_list s = []
          then Some (s\<lparr>wk_taken := wk_taken s @ [hd (wk_msgs s)], wk_msgs := tl (wk_msgs s)\<rparr>) else None)"

datatype walk_event =
    Main main_event
  | Wait nat wait_event
  | Work nat work_event
  | Dir nat dir_event

definition walk_step :: "bool \<Rightarrow> walk_event \<Rightarrow> walk \<Rightarrow> walk option" where
  "walk_step rec e s =
     (if wk_exited s then None
      else case e of
             Main m \<Rightarrow> main_step m s
           | Wait i w \<Rightarrow>
               if i < GLOBAL_FILEOPEN_COUNT then wait_step i w (w_pc (wk_worker s i)) s else None
           | Work i w \<Rightarrow>
               if i < GLOBAL_FILEOPEN_COUNT then work_step rec i w (w_pc (wk_worker s i)) s else None
           | Dir j d \<Rightarrow> if j < GLOBAL_DIROPEN_COUNT then dir_step j d (wk_dirw s j) s else None)"

fun walk_run :: "bool \<Rightarrow> walk_event list \<Rightarrow> walk \<Rightarrow> walk option" where
  "walk_run rec [] s = Some s"
| "walk_run rec (e # es) s = Option.bind (walk_step rec e s) (walk_run rec es)"

definition walk_next :: "bool \<Rightarrow> walk \<Rightarrow> walk \<Rightarrow> bool" where
  "walk_next rec s s' \<longleftrightarrow> (\<exists>e. walk_step rec e s = Some s')"

definition walk_reach :: "bool \<Rightarrow> walk \<Rightarrow> walk \<Rightarrow> bool" where
  "walk_reach rec s0 = reachable (\<lambda>s. s = s0) (walk_next rec)"

section \<open>The steps one by one\<close>

lemma wait_step_cases:
  assumes "wait_step i e (w_pc (wk_worker s i)) s = Some s'"
  obtains
    (recv) it rest where "w_pc (wk_worker s i) = At_recv" "wk_files s = it # rest"
      "s' = set_pc i (Got it) (s\<lparr>wk_files := rest\<rparr>)"
  | (timeout) "w_pc (wk_worker s i) = At_recv" "s' = set_pc i Timed_out s"
  | (load_tail) "w_pc (wk_worker s i) = Timed_out" "s' = set_pc i (Tail_read (wk_tail s)) s"
  | (balanced) "w_pc (wk_worker s i) = Tail_read (wk_cleanup s)" "s' = set_pc i Balanced s"
  | (unbalanced) t where "w_pc (wk_worker s i) = Tail_read t" "t \<noteq> wk_cleanup s" "s' = set_pc i At_recv s"
  | (set_ready) "w_pc (wk_worker s i) = Balanced" "s' = set_pc i Mask_check (set_ready i s)"
  | (leave) "w_pc (wk_worker s i) = Mask_check" "wk_mask s = full_mask" "s' = set_pc i Finished_loop s"
  | (stay) "w_pc (wk_worker s i) = Mask_check" "wk_mask s \<noteq> full_mask" "s' = set_pc i At_recv s"
  | (unready) it where "w_pc (wk_worker s i) = Got it" "s' = set_pc i (Resolving it) (unset_ready i s)"
proof (cases e)
  case Recv
  then show ?thesis using assms that(1) by (cases "wk_files s") (auto simp: wait_step_def split: if_splits)
next
  case Load_cleanup
  then show ?thesis using assms that(4,5) by (auto simp: wait_step_def split: file_pc.splits if_splits)
next
  case Check_mask
  then show ?thesis using assms that(7,8) by (auto simp: wait_step_def split: if_splits)
next
  case Unready
  then show ?thesis using assms that(9) by (auto simp: wait_step_def split: file_pc.splits)
qed (use assms that(2,3,6) in \<open>auto simp: wait_step_def split: if_splits\<close>)

lemma work_step_cases:
  assumes "work_step rec i e (w_pc (wk_worker s i)) s = Some s'"
  obtains
    (resolve) it canon path where "w_pc (wk_worker s i) = Resolving it" "resolve_item canon it = Some path"
      "s' = set_pc i (Opening it path) s"
  | (reject) it where "w_pc (wk_worker s i) = Resolving it" "s' = set_pc i At_recv s"
  | (opened) it path F where "w_pc (wk_worker s i) = Opening it path"
      "s' = after_open i it path (examine F rec (w_direct (wk_worker s i)) path) s"
  | (count_dir) it where "w_pc (wk_worker s i) = Descending it"
      "s' = set_pc i (Dir_counted it) (s\<lparr>wk_cleanup := wk_cleanup s + 1\<rparr>)"
  | (send_dir) it where "w_pc (wk_worker s i) = Dir_counted it"
      "s' = set_pc i At_recv (s\<lparr>wk_dirs := wk_dirs s @ [(fst it, fst (snd it))]\<rparr>)"
  | (number) it st where "w_pc (wk_worker s i) = Numbering it st"
      "s' = set_pc i (Entering it (1 + of_nat (wk_fino s)) st) (s\<lparr>wk_fino := wk_fino s + 1\<rparr>)"
  | (refused) it f st where "w_pc (wk_worker s i) = Entering it f st" "s' = s"
  | (enter) it f st where "w_pc (wk_worker s i) = Entering it f st" "s' = set_pc i (Sending it f st) s"
  | (send) it f st where "w_pc (wk_worker s i) = Sending it f st" "length (wk_msgs s) < msgs_cap"
      "s' = set_pc i At_recv (s\<lparr>wk_msgs := wk_msgs s @ [(f, sent_name it, st)]\<rparr>)"
proof (cases e)
  case (Resolve canon)
  then show ?thesis
    using assms that(1,2)
    by (cases "w_pc (wk_worker s i)"; simp add: work_step_def split: option.splits)
next
  case (Open F)
  then show ?thesis using assms that(3) by (auto simp: work_step_def split: file_pc.splits)
next
  case (Enter b)
  then show ?thesis using assms that(7,8) by (cases b) (auto simp: work_step_def split: file_pc.splits)
next
  case Send_msg
  then show ?thesis using assms that(9) by (auto simp: work_step_def split: file_pc.splits if_splits)
qed (use assms that(4,5,6) in \<open>auto simp: work_step_def split: file_pc.splits\<close>)

lemma dir_step_cases:
  assumes "dir_step j e (wk_dirw s j) s = Some s'"
  obtains
    (dtake) d rest where "wk_dirw s j = Dir_idle" "wk_dirs s = d # rest"
      "s' = set_dir j (Dir_opening d) (s\<lparr>wk_dirs := rest\<rparr>)"
  | (dretry) d where "wk_dirw s j = Dir_opening d" "s' = s"
  | (dexit) d where "wk_dirw s j = Dir_opening d" "s' = s\<lparr>wk_exited := True\<rparr>"
  | (dopen) d es where "wk_dirw s j = Dir_opening d" "s' = set_dir j (Dir_reading d es) s"
  | (dnext) d x es where "wk_dirw s j = Dir_reading d (x # es)"
      "s' = set_dir j (Dir_reading d es) (s\<lparr>wk_files := wk_files s @ dir_entry_items d x\<rparr>)"
  | (dclose) d where "wk_dirw s j = Dir_reading d []"
      "s' = set_dir j Dir_idle (s\<lparr>wk_tail := wk_tail s + 1\<rparr>)"
proof (cases e)
  case Dir_take
  then show ?thesis using assms that(1) by (cases "wk_dirs s") (auto simp: dir_step_def split: if_splits)
next
  case (Dir_open r)
  then obtain d where pc: "wk_dirw s j = Dir_opening d"
    using assms by (cases "wk_dirw s j") (simp_all add: dir_step_def)
  show ?thesis
  proof (cases r)
    case (Inl errno)
    then have "s' = s \<or> s' = s\<lparr>wk_exited := True\<rparr>"
      using assms Dir_open pc by (simp add: dir_step_def split: if_splits)
    then show ?thesis
      using that(2,3) [OF pc] by (elim disjE)
  next
    case (Inr es)
    then have "s' = set_dir j (Dir_reading d es) s"
      using assms Dir_open pc by (simp add: dir_step_def)
    then show ?thesis
      by (rule that(4) [OF pc])
  qed
next
  case Dir_next
  then show ?thesis
    using assms that(5)
    by (cases "wk_dirw s j"; simp add: dir_step_def Let_def split: list.splits if_splits)
next
  case Dir_close
  then show ?thesis using assms that(6) by (auto simp: dir_step_def split: dir_pc.splits if_splits)
qed

lemma main_step_cases:
  assumes "main_step e s = Some s'"
  obtains
    (source) it rest where "wk_sources s = it # rest" "\<not> wk_started s"
      "s' = s\<lparr>wk_files := wk_files s @ [it], wk_sources := rest\<rparr>"
  | (tail) "wk_sources s = []" "\<not> wk_started s" "s' = s\<lparr>wk_tail := wk_tail s + 1, wk_started := True\<rparr>"
  | (listed) it rest where "wk_list s = it # rest" "wk_started s"
      "s' = s\<lparr>wk_files := wk_files s @ [it], wk_list := rest\<rparr>"
  | (received) m rest where "wk_msgs s = m # rest" "wk_list s = []"
      "s' = s\<lparr>wk_taken := wk_taken s @ [m], wk_msgs := rest\<rparr>"
proof (cases e)
  case Main_source
  then show ?thesis using assms that(1) by (cases "wk_sources s") (auto simp: main_step_def split: if_splits)
next
  case Main_list
  then show ?thesis using assms that(3) by (cases "wk_list s") (auto simp: main_step_def split: if_splits)
next
  case Main_recv
  then show ?thesis using assms that(4) by (cases "wk_msgs s") (auto simp: main_step_def split: if_splits)
qed (use assms that(2) in \<open>auto simp: main_step_def split: if_splits\<close>)

lemma walk_step_cases:
  assumes "walk_step rec e s = Some s'"
  obtains (main) m where "main_step m s = Some s'"
  | (wait) i w where "i < GLOBAL_FILEOPEN_COUNT" "wait_step i w (w_pc (wk_worker s i)) s = Some s'"
  | (work) i w where "i < GLOBAL_FILEOPEN_COUNT" "work_step rec i w (w_pc (wk_worker s i)) s = Some s'"
  | (dir) j d where "j < GLOBAL_DIROPEN_COUNT" "dir_step j d (wk_dirw s j) s = Some s'"
  using assms by (cases e) (auto simp: walk_step_def split: if_splits)

lemma walk_run_append:
  "walk_run rec (es @ fs) s = Option.bind (walk_run rec es s) (walk_run rec fs)"
  by (induction es arbitrary: s) (auto split: bind_splits)

lemma walk_reach_run: "walk_run rec es s0 = Some s \<Longrightarrow> walk_reach rec s0 s"
proof (induction es arbitrary: s rule: rev_induct)
  case Nil
  then show ?case by (simp add: walk_reach_def reachable_start)
next
  case (snoc e es)
  then obtain s1 where "walk_run rec es s0 = Some s1" "walk_step rec e s1 = Some s"
    by (auto simp: walk_run_append bind_eq_Some_conv)
  then show ?case
    using snoc.IH [of s1] reachable_step [of "\<lambda>s. s = s0" "walk_next rec" s1 s]
    by (auto simp: walk_reach_def walk_next_def)
qed


lemma set_pc_simps [simp]:
  "wk_worker (set_pc i pc s) = (wk_worker s)(i := (wk_worker s i)\<lparr>w_pc := pc\<rparr>)"
  "wk_files (set_pc i pc s) = wk_files s" "wk_dirs (set_pc i pc s) = wk_dirs s"
  "wk_msgs (set_pc i pc s) = wk_msgs s" "wk_taken (set_pc i pc s) = wk_taken s"
  "wk_tail (set_pc i pc s) = wk_tail s" "wk_cleanup (set_pc i pc s) = wk_cleanup s"
  "wk_mask (set_pc i pc s) = wk_mask s" "wk_fino (set_pc i pc s) = wk_fino s"
  "wk_dirw (set_pc i pc s) = wk_dirw s" "wk_sources (set_pc i pc s) = wk_sources s"
  "wk_list (set_pc i pc s) = wk_list s" "wk_started (set_pc i pc s) = wk_started s"
  "wk_exited (set_pc i pc s) = wk_exited s"
  by (simp_all add: set_pc_def)

lemma set_dir_simps [simp]:
  "wk_dirw (set_dir j pc s) = (wk_dirw s)(j := pc)" "wk_worker (set_dir j pc s) = wk_worker s"
  "wk_files (set_dir j pc s) = wk_files s" "wk_dirs (set_dir j pc s) = wk_dirs s"
  "wk_msgs (set_dir j pc s) = wk_msgs s" "wk_taken (set_dir j pc s) = wk_taken s"
  "wk_tail (set_dir j pc s) = wk_tail s" "wk_cleanup (set_dir j pc s) = wk_cleanup s"
  "wk_mask (set_dir j pc s) = wk_mask s" "wk_fino (set_dir j pc s) = wk_fino s"
  "wk_sources (set_dir j pc s) = wk_sources s" "wk_list (set_dir j pc s) = wk_list s"
  "wk_started (set_dir j pc s) = wk_started s" "wk_exited (set_dir j pc s) = wk_exited s"
  by (simp_all add: set_dir_def)

lemma set_ready_simps [simp]:
  "wk_worker (set_ready i s) = (wk_worker s)(i := (wk_worker s i)\<lparr>w_ready := True\<rparr>)"
  "wk_files (set_ready i s) = wk_files s" "wk_dirs (set_ready i s) = wk_dirs s"
  "wk_msgs (set_ready i s) = wk_msgs s" "wk_taken (set_ready i s) = wk_taken s"
  "wk_tail (set_ready i s) = wk_tail s" "wk_cleanup (set_ready i s) = wk_cleanup s"
  "wk_fino (set_ready i s) = wk_fino s" "wk_dirw (set_ready i s) = wk_dirw s"
  "wk_sources (set_ready i s) = wk_sources s" "wk_list (set_ready i s) = wk_list s"
  "wk_started (set_ready i s) = wk_started s" "wk_exited (set_ready i s) = wk_exited s"
  by (auto simp: set_ready_def fun_eq_iff worker.equality)

lemma unset_ready_simps [simp]:
  "wk_worker (unset_ready i s) = wk_worker s" "wk_files (unset_ready i s) = wk_files s"
  "wk_dirs (unset_ready i s) = wk_dirs s" "wk_msgs (unset_ready i s) = wk_msgs s"
  "wk_taken (unset_ready i s) = wk_taken s" "wk_tail (unset_ready i s) = wk_tail s"
  "wk_cleanup (unset_ready i s) = wk_cleanup s" "wk_fino (unset_ready i s) = wk_fino s"
  "wk_dirw (unset_ready i s) = wk_dirw s" "wk_sources (unset_ready i s) = wk_sources s"
  "wk_list (unset_ready i s) = wk_list s" "wk_started (unset_ready i s) = wk_started s"
  "wk_exited (unset_ready i s) = wk_exited s"
  by (simp_all add: unset_ready_def)

section \<open>The directory counters\<close>

fun counted :: "file_pc \<Rightarrow> nat" where
  "counted (Dir_counted it) = 1"
| "counted _ = 0"

fun busy :: "dir_pc \<Rightarrow> nat" where
  "busy Dir_idle = 0"
| "busy _ = 1"

definition pending_dirs :: "walk \<Rightarrow> nat" where
  "pending_dirs s =
     length (wk_dirs s) + (\<Sum>j<GLOBAL_DIROPEN_COUNT. busy (wk_dirw s j)) +
     (\<Sum>i<GLOBAL_FILEOPEN_COUNT. counted (w_pc (wk_worker s i)))"

definition counters_ok :: "walk \<Rightarrow> bool" where
  "counters_ok s \<longleftrightarrow> wk_cleanup s = wk_tail s + pending_dirs s + (if wk_started s then 0 else 1)"

lemma counted_upd:
  assumes "i < GLOBAL_FILEOPEN_COUNT"
  shows "(\<Sum>k<GLOBAL_FILEOPEN_COUNT. counted (w_pc ((g(i := w)) k))) =
    (\<Sum>k<GLOBAL_FILEOPEN_COUNT. counted (w_pc (g k))) + counted (w_pc w) - counted (w_pc (g i))"
  using sum_fun_upd [OF assms, of "\<lambda>w. counted (w_pc w)" g w] by linarith

lemma busy_upd:
  assumes "j < GLOBAL_DIROPEN_COUNT"
  shows "(\<Sum>k<GLOBAL_DIROPEN_COUNT. busy ((g(j := d)) k)) =
    (\<Sum>k<GLOBAL_DIROPEN_COUNT. busy (g k)) + busy d - busy (g j)"
  using sum_fun_upd [OF assms, of busy g d] by linarith

lemma counted_le: "i < GLOBAL_FILEOPEN_COUNT \<Longrightarrow>
  counted (w_pc (g i)) \<le> (\<Sum>k<GLOBAL_FILEOPEN_COUNT. counted (w_pc (g k)))"
  by (rule member_le_sum) auto

lemma busy_le: "j < GLOBAL_DIROPEN_COUNT \<Longrightarrow> busy (g j) \<le> (\<Sum>k<GLOBAL_DIROPEN_COUNT. busy (g k))"
  by (rule member_le_sum) auto

lemma counters_ok_step:
  assumes "counters_ok s" and "walk_step rec e s = Some s'"
  shows "counters_ok s'"
  using assms(2)
proof (cases rule: walk_step_cases)
  case (main m)
  then show ?thesis
    using assms(1) by (cases rule: main_step_cases) (auto simp: counters_ok_def pending_dirs_def)
next
  case (wait i w)
  from wait(2) show ?thesis
    using assms(1) wait(1)
    by (cases rule: wait_step_cases)
      (auto simp: counters_ok_def pending_dirs_def after_open_def counted_upd fun_upd_same simp del: fun_upd_apply)
next
  case (work i w)
  from work(2) show ?thesis
    using assms(1) work(1) counted_le [OF work(1), of "wk_worker s"]
    by (cases rule: work_step_cases)
      (auto simp: counters_ok_def pending_dirs_def after_open_def counted_upd simp del: fun_upd_apply
        split: walk_action.splits)
next
  case (dir j d)
  from dir(2) show ?thesis
    using assms(1) dir(1) busy_le [OF dir(1), of "wk_dirw s"]
    by (cases rule: dir_step_cases)
      (auto simp: counters_ok_def pending_dirs_def after_open_def busy_upd simp del: fun_upd_apply)
qed


lemma counters_ok_start: "counters_ok (walk_start direct sources listed)"
  by (simp add: counters_ok_def pending_dirs_def walk_start_def)

section \<open>What is opened\<close>

fun item_within :: "string set \<Rightarrow> file_pc \<Rightarrow> bool" where
  "item_within P (Got it) \<longleftrightarrow> fst it \<in> P"
| "item_within P (Resolving it) \<longleftrightarrow> fst it \<in> P"
| "item_within P (Opening it p) \<longleftrightarrow> fst it \<in> P \<and> p \<noteq> [] \<and> path_starts_with p (fst it)"
| "item_within P (Descending it) \<longleftrightarrow> fst it \<in> P"
| "item_within P (Dir_counted it) \<longleftrightarrow> fst it \<in> P"
| "item_within P _ \<longleftrightarrow> True"

fun dir_within :: "string set \<Rightarrow> dir_pc \<Rightarrow> bool" where
  "dir_within P Dir_idle \<longleftrightarrow> True"
| "dir_within P (Dir_opening d) \<longleftrightarrow> fst d \<in> P"
| "dir_within P (Dir_reading d es) \<longleftrightarrow> fst d \<in> P"

definition contained :: "string set \<Rightarrow> walk \<Rightarrow> bool" where
  "contained P s \<longleftrightarrow>
     fst ` set (wk_files s) \<subseteq> P \<and> fst ` set (wk_sources s) \<subseteq> P \<and> fst ` set (wk_list s) \<subseteq> P \<and>
     fst ` set (wk_dirs s) \<subseteq> P \<and> (\<forall>i. item_within P (w_pc (wk_worker s i))) \<and>
     (\<forall>j. dir_within P (wk_dirw s j))"

lemma contained_pc:
  "contained P s \<Longrightarrow> item_within P pc \<Longrightarrow> contained P (set_pc i pc s)"
  by (auto simp: contained_def)

lemma containedD: "contained P s \<Longrightarrow> item_within P (w_pc (wk_worker s i))"
  by (simp add: contained_def)

lemma containedD_dir: "contained P s \<Longrightarrow> dir_within P (wk_dirw s j)"
  by (simp add: contained_def)

lemma contained_simps [simp]:
  "contained P (s\<lparr>wk_tail := t\<rparr>) = contained P s" "contained P (s\<lparr>wk_cleanup := t\<rparr>) = contained P s"
  "contained P (s\<lparr>wk_fino := t\<rparr>) = contained P s" "contained P (s\<lparr>wk_msgs := ms\<rparr>) = contained P s"
  "contained P (set_ready i s) = contained P s" "contained P (unset_ready i s) = contained P s"
  by (auto simp: contained_def)

lemma resolve_item_below:
  "resolve_item canon it = Some path \<Longrightarrow>
   canon (path_join (fst it) (fst (snd it))) = Some path \<and> path \<noteq> [] \<and> path_starts_with path (fst it)"
  by (auto simp: resolve_item_def split: prod.splits option.splits if_splits)

lemma absolute_components: "starts_with q ''/'' \<Longrightarrow> \<exists>names. path_components q = ''/'' # names"
  by (simp add: path_components_def Let_def)

lemma relative_components:
  assumes "\<not> starts_with p ''/''" and "path_components p \<noteq> []"
  shows "hd (path_components p) \<noteq> ''/''"
proof -
  have "c \<noteq> ''/''" if "c \<in> set (path_components p)" for c
    using that assms(1) by (auto simp: path_components_def Let_def split: if_splits dest: split_on_no_sep)
  then show ?thesis
    using assms(2) by (metis list.set_sel(1))
qed

lemma dir_entry_items_prefix: "x \<in> set (dir_entry_items d e) \<Longrightarrow> fst x = fst d"
  by (auto simp: dir_entry_items_def split: prod.splits if_splits)

lemma contained_step:
  assumes "contained P s" and "walk_step rec e s = Some s'"
  shows "contained P s'"
  using assms(2)
proof (cases rule: walk_step_cases)
  case (main m)
  then show ?thesis
    using assms(1) by (cases rule: main_step_cases) (auto simp: contained_def)
next
  case (wait i w)
  from wait(2) show ?thesis
    using assms(1) containedD [OF assms(1), of i]
    by (cases rule: wait_step_cases) (auto intro!: contained_pc, auto simp: contained_def)
next
  case (work i w)
  from work(2) show ?thesis
  proof (cases rule: work_step_cases)
    case (resolve it canon path)
    then show ?thesis
      using assms(1) containedD [OF assms(1), of i]
      by (auto intro!: contained_pc dest: resolve_item_below)
  next
    case (opened it path F)
    then show ?thesis
      using assms(1) containedD [OF assms(1), of i]
      by (auto simp: contained_def after_open_def split: walk_action.splits)
  next
    case (send_dir it)
    then show ?thesis
      using assms(1) containedD [OF assms(1), of i]
      by (auto intro!: contained_pc) (auto simp: contained_def)
  qed (use assms(1) containedD [OF assms(1), of i] in \<open>auto intro!: contained_pc\<close>)
next
  case (dir j d)
  from dir(2) show ?thesis
    using assms(1) containedD_dir [OF assms(1), of j]
    by (cases rule: dir_step_cases) (auto simp: contained_def dest!: dir_entry_items_prefix)
qed

lemma contained_start: "contained (fst ` set (sources @ listed)) (walk_start direct sources listed)"
  by (auto simp: contained_def walk_start_def)

text \<open>A worker comes to open a path only by an answer of \<open>canonicalize\<close>, and keeps it while it tries again.\<close>

lemma opening_step:
  assumes "walk_step rec e s = Some s'" and "w_pc (wk_worker s' i) = Opening it path"
  shows "w_pc (wk_worker s i) = Opening it path \<or> (\<exists>canon. e = Work i (Resolve canon) \<and> resolve_item canon it = Some path)"
proof (cases e)
  case (Main m)
  then have "main_step m s = Some s'"
    using assms(1) by (simp add: walk_step_def split: if_splits)
  then show ?thesis
    using assms(2) by (cases rule: main_step_cases) auto
next
  case (Wait k w)
  then have "wait_step k w (w_pc (wk_worker s k)) s = Some s'"
    using assms(1) by (simp add: walk_step_def split: if_splits)
  then show ?thesis
    using assms(2) by (cases rule: wait_step_cases) (auto split: if_splits)
next
  case (Dir j d)
  then have "dir_step j d (wk_dirw s j) s = Some s'"
    using assms(1) by (simp add: walk_step_def split: if_splits)
  then show ?thesis
    using assms(2) by (cases rule: dir_step_cases) auto
next
  case (Work k w)
  then have step: "work_step rec k w (w_pc (wk_worker s k)) s = Some s'"
    using assms(1) by (simp add: walk_step_def split: if_splits)
  show ?thesis
  proof (cases "\<exists>canon. w = Resolve canon")
    case True
    then show ?thesis
      using Work step assms(2) by (auto simp: work_step_def split: file_pc.splits option.splits if_splits)
  next
    case False
    from step show ?thesis
      using assms(2) False
      by (auto simp: work_step_def after_open_def split: work_event.splits file_pc.splits if_splits walk_action.splits)
  qed
qed

lemma opening_resolved:
  assumes "walk_run rec es (walk_start direct sources listed) = Some s"
    and "w_pc (wk_worker s i) = Opening it path"
  shows "\<exists>canon. Work i (Resolve canon) \<in> set es \<and> canon (path_join (fst it) (fst (snd it))) = Some path"
  using assms
proof (induction es arbitrary: s rule: rev_induct)
  case Nil
  then show ?case by (auto simp: walk_start_def)
next
  case (snoc e es)
  then obtain s1 where s1: "walk_run rec es (walk_start direct sources listed) = Some s1" "walk_step rec e s1 = Some s"
    by (auto simp: walk_run_append bind_eq_Some_conv)
  from opening_step [OF s1(2) snoc.prems(2)] show ?case
    using snoc.IH [OF s1(1)] by (auto dest: resolve_item_below)
qed

section \<open>File numbers\<close>

fun held_fino :: "file_pc \<Rightarrow> fino multiset" where
  "held_fino (Entering it f st) = {#f#}"
| "held_fino (Sending it f st) = {#f#}"
| "held_fino _ = {#}"

definition held_finos :: "walk \<Rightarrow> fino multiset" where
  "held_finos s = (\<Sum>i<GLOBAL_FILEOPEN_COUNT. held_fino (w_pc (wk_worker s i)))"

definition numbers_ok :: "walk \<Rightarrow> bool" where
  "numbers_ok s \<longleftrightarrow>
     mset (map fst (wk_taken s @ wk_msgs s)) + held_finos s = mset (map of_nat [1..<Suc (wk_fino s)])"

lemma held_finos_upd:
  assumes "i < GLOBAL_FILEOPEN_COUNT" and "wk_worker s' = (wk_worker s)(i := w)"
  shows "held_finos s' + held_fino (w_pc (wk_worker s i)) = held_finos s + held_fino (w_pc w)"
  using sum_fun_upd [OF assms(1), of "\<lambda>w. held_fino (w_pc w)" "wk_worker s" w]
  by (simp add: held_finos_def assms(2))

lemma held_finos_none: "\<forall>i. held_fino (w_pc (wk_worker s i)) = {#} \<Longrightarrow> held_finos s = {#}"
  by (simp add: held_finos_def)

lemma held_finos_same: "wk_worker s' = wk_worker s \<Longrightarrow> held_finos s' = held_finos s"
  by (simp add: held_finos_def)

lemma numbers_ok_step:
  assumes "numbers_ok s" and "walk_step rec e s = Some s'"
  shows "numbers_ok s'"
  using assms(2)
proof (cases rule: walk_step_cases)
  case (main m)
  then show ?thesis
    using assms(1) held_finos_same [of s' s] by (cases rule: main_step_cases) (auto simp: numbers_ok_def)
next
  case (wait i w)
  from wait(2) show ?thesis
    using assms(1) held_finos_upd [OF wait(1), of s' s "wk_worker s' i"]
    by (cases rule: wait_step_cases) (auto simp: numbers_ok_def)
next
  case (work i w)
  note upd = held_finos_upd [OF work(1), of s' s "wk_worker s' i"]
  from work(2) show ?thesis
  proof (cases rule: work_step_cases)
    case (send it f st)
    then have "held_finos s = add_mset f (held_finos s')"
      using upd by simp
    moreover have "mset (map fst (wk_taken s' @ wk_msgs s')) = add_mset f (mset (map fst (wk_taken s @ wk_msgs s)))"
      and "wk_fino s' = wk_fino s"
      using send by simp_all
    ultimately show ?thesis
      using assms(1) by (simp add: numbers_ok_def del: upt_Suc mset_upt)
  qed (use assms(1) upd in \<open>auto simp: numbers_ok_def after_open_def split: walk_action.splits\<close>)
next
  case (dir j d)
  from dir(2) show ?thesis
    using assms(1) held_finos_same [of s' s] by (cases rule: dir_step_cases) (auto simp: numbers_ok_def)
qed

lemma numbers_ok_start: "numbers_ok (walk_start direct sources listed)"
  by (simp add: numbers_ok_def walk_start_def held_finos_def)


section \<open>A run\<close>

definition mode_stat :: "u32 \<Rightarrow> stat" where
  "mode_stat mode = \<lparr>s_size = 5, s_mode = mode, s_uid = 0, s_gid = 0, s_atim = (0, 0), s_mtim = (0, 0)\<rparr>"

definition demo_fs :: "u32 \<Rightarrow> walk_fs" where
  "demo_fs mode = \<lparr>wf_open = (\<lambda>_ _. (7, 0)), wf_fstat = (\<lambda>_. Some (mode_stat mode))\<rparr>"

definition denied_fs :: walk_fs where
  "denied_fs = \<lparr>wf_open = (\<lambda>_ _. (-1, 13)), wf_fstat = (\<lambda>_. None)\<rparr>"

definition become_ready :: "nat \<Rightarrow> walk_event list" where
  "become_ready i = map (Wait i) [Timeout, Load_tail, Load_cleanup, Set_ready, Check_mask]"

definition take_item :: "nat \<Rightarrow> walk_fs \<Rightarrow> walk_event list" where
  "take_item i F = [Wait i Recv, Wait i Unready, Work i (Resolve Some), Work i (Open F)]"

definition deliver_item :: "nat \<Rightarrow> walk_event list" where
  "deliver_item i = map (Work i) [Number, Enter True, Send_msg] @ [Main Main_recv]"

text \<open>A directory is being opened by worker 0 while worker 1 times out; then worker 1 gets its file.\<close>

definition stuck_run :: "walk_event list" where
  "stuck_run =
     [Main Main_source, Main Main_tail, Wait 0 Recv] @ become_ready 1 @
     [Wait 0 Unready, Work 0 (Resolve Some), Work 0 (Open (demo_fs S_IFDIR)), Work 0 Count_dir, Work 0 Send_dir,
      Dir 0 Dir_take, Dir 0 (Dir_open (Inr [(''f'', DT_REG)])), Dir 0 Dir_next, Dir 0 Dir_close] @
     take_item 1 (demo_fs S_IFREG) @ deliver_item 1"

definition demo_walk :: walk where
  "demo_walk = walk_start False [(''/s'', ''d'', [])] []"

lemmas run_defs = walk_step_def main_step_def wait_step_def work_step_def dir_step_def set_pc_def set_dir_def
  set_ready_def unset_ready_def after_open_def GLOBAL_FILEOPEN_COUNT_def GLOBAL_DIROPEN_COUNT_def files_cap_def
  msgs_cap_def resolve_item_def examine_def open_source_def dir_entry_items_def sent_name_def
  demo_fs_def mode_stat_def denied_fs_def S_IFMT_def S_IFDIR_def S_IFREG_def DT_DIR_def DT_REG_def full_mask_def

lemma walk_paths: "path_join ''/s'' ''d'' = ''/s/d''" "path_join ''d'' ''f'' = ''d/f''"
  "path_join ''/s'' ''d/f'' = ''/s/d/f''" "path_starts_with ''/s/d'' ''/s''" "path_starts_with ''/s/d/f'' ''/s''"
  by code_simp+


text \<open>A worker whose bit can never be set again.\<close>

definition withdrawn :: "walk \<Rightarrow> nat \<Rightarrow> bool" where
  "withdrawn s i \<longleftrightarrow>
     i < GLOBAL_FILEOPEN_COUNT \<and> \<not> bit (wk_mask s) i \<and>
     (w_ready (wk_worker s i) \<or> w_pc (wk_worker s i) = Returned_early)"

lemma stuck_run_state:
  "\<exists>s. walk_run True stuck_run demo_walk = Some s \<and> withdrawn s 1 \<and> wk_files s = [] \<and> pending_dirs s = 0 \<and>
       map fst (wk_taken s) = [1] \<and> w_pc (wk_worker s 0) = At_recv \<and> wk_msgs s = [] \<and>
       (\<forall>i. held_fino (w_pc (wk_worker s i)) = {#}) \<and> wk_fino s = 1"
  unfolding stuck_run_def demo_walk_def walk_start_def become_ready_def take_item_def deliver_item_def
  by (simp add: run_defs walk_paths withdrawn_def pending_dirs_def)


lemma stuck_run_end:
  obtains s where "walk_reach True (walk_start False [(''/s'', ''d'', [])] []) s" "withdrawn s 1"
    "wk_files s = []" "pending_dirs s = 0" "map fst (wk_taken s) = [1]" "w_pc (wk_worker s 0) = At_recv"
    "wk_msgs s = []" "held_finos s = {#}" "wk_fino s = 1"
proof -
  from stuck_run_state obtain s where run: "walk_run True stuck_run demo_walk = Some s"
    and fin: "withdrawn s 1 \<and> wk_files s = [] \<and> pending_dirs s = 0 \<and> map fst (wk_taken s) = [1] \<and>
      w_pc (wk_worker s 0) = At_recv \<and> wk_msgs s = [] \<and> (\<forall>i. held_fino (w_pc (wk_worker s i)) = {#}) \<and>
      wk_fino s = 1"
    by (elim exE conjE) (rule that, assumption, intro conjI)
  from walk_reach_run [OF run] fin held_finos_none [of s] show thesis
    by (intro that [of s]) (simp_all add: demo_walk_def)
qed

section \<open>The invariants hold in every run\<close>

interpretation counters_run: step_system "\<lambda>s. s = walk_start direct sources listed" "walk_next rec" counters_ok
  by unfold_locales (auto simp: walk_next_def counters_ok_start intro: counters_ok_step)

interpretation contained_run: step_system "\<lambda>s. s = walk_start direct sources listed" "walk_next rec"
  "contained (fst ` set (sources @ listed))"
proof
  show "contained (fst ` set (sources @ listed)) s" if "s = walk_start direct sources listed" for s
    unfolding that by (rule contained_start)
qed (auto simp: walk_next_def intro: contained_step)

interpretation numbers_run: step_system "\<lambda>s. s = walk_start direct sources listed" "walk_next rec" numbers_ok
  by unfold_locales (auto simp: walk_next_def numbers_ok_start intro: numbers_ok_step)

lemma of_nat_word_eq:
  "(of_nat a :: 'a :: len word) = of_nat b \<Longrightarrow> a < 2 ^ LENGTH('a) \<Longrightarrow> b < 2 ^ LENGTH('a) \<Longrightarrow> a = b"
  by (metis of_nat_inverse)

lemma distinct_of_nat_upt:
  "n < 2 ^ LENGTH('a) \<Longrightarrow> distinct (map (of_nat :: nat \<Rightarrow> 'a :: len word) [1..<Suc n])"
  unfolding distinct_map by (intro conjI inj_onI distinct_upt) (auto dest!: of_nat_word_eq)

lemma distinct_mset_part: "mset xs + M = mset ys \<Longrightarrow> distinct ys \<Longrightarrow> distinct xs"
  by (metis distinct_append ex_mset mset_append mset_eq_imp_distinct_iff)

lemma numbers_all_finos:
  assumes "numbers_ok s" and "held_finos s = {#}" and "wk_fino s < 2 ^ 64"
  shows "all_finos (wk_taken s @ wk_msgs s) \<and> length (wk_taken s @ wk_msgs s) = wk_fino s"
proof -
  let ?xs = "map fst (wk_taken s @ wk_msgs s)" and ?ns = "map (of_nat :: nat \<Rightarrow> u64) [1..<Suc (wk_fino s)]"
  have eq: "mset ?xs = mset ?ns"
    using assms(1,2) by (simp add: numbers_ok_def)
  then have len: "length ?xs = wk_fino s"
    by (metis diff_Suc_1 length_map length_upt size_mset)
  have "distinct ?xs"
    using mset_eq_imp_distinct_iff [OF eq] distinct_of_nat_upt [of "wk_fino s", where 'a = 64] assms(3) by simp
  moreover have "unat ` set ?xs = {1..wk_fino s}"
  proof -
    have "unat ` set ?xs = (\<lambda>k. unat (of_nat k :: u64)) ` {1..wk_fino s}"
      unfolding mset_eq_setD [OF eq] by (auto simp: image_image)
    also have "\<dots> = (\<lambda>k. k) ` {1..wk_fino s}"
      using assms(3) by (intro image_cong) (auto simp: unat_of_nat)
    finally show ?thesis by simp
  qed
  ultimately show ?thesis
    using len by (simp add: all_finos_def image_image image_comp [symmetric] image_Un)
qed

section \<open>Claims\<close>

text \<open>
  Claim C16. In every interleaving of the threads the counter of finished directories never
  passes the counter of directories to do, and the two are equal exactly when the sources are
  all queued and no directory is waiting, being announced or being read.
\<close>

theorem directory_counters:
  assumes "walk_reach rec (walk_start direct sources listed) s"
  shows "wk_tail s \<le> wk_cleanup s \<and> (wk_tail s = wk_cleanup s \<longleftrightarrow> wk_started s \<and> pending_dirs s = 0)"
  using counters_run.reachable_inv [OF assms [unfolded walk_reach_def]] by (simp add: counters_ok_def)

theorem directory_counters_witness:
  "\<exists>s. walk_reach True (walk_start False [(''/s'', ''d'', [])] []) s \<and> wk_tail s \<le> wk_cleanup s"
  using stuck_run_end directory_counters [of True False "[(''/s'', ''d'', [])]" "[]"] by metis

text \<open>
  Claim C14. Every path a file worker opens, however deep the recursion has gone, is the answer of
  \<open>canonicalize\<close> for the path of its item, prefix and name, which has no symbolic links left, and
  lies below the prefix of the item, and that prefix is the one of a source or of an entry of the
  file list: a path that a symbolic link resolves to a place outside is never opened by a file
  worker. The step that opens it asks the file system for no other path.
\<close>

theorem opens_below_sources:
  assumes "walk_run rec es (walk_start direct sources listed) = Some s"
    and "w_pc (wk_worker s i) = Opening it path"
  shows "path \<noteq> [] \<and> path_starts_with path (fst it) \<and> fst it \<in> fst ` set (sources @ listed) \<and>
    (\<exists>canon. Work i (Resolve canon) \<in> set es \<and> canon (path_join (fst it) (fst (snd it))) = Some path) \<and>
    (\<forall>F G. wf_open F path = wf_open G path \<longrightarrow> wf_fstat F = wf_fstat G \<longrightarrow>
       walk_step rec (Work i (Open F)) s = walk_step rec (Work i (Open G)) s)"
proof -
  have "contained (fst ` set (sources @ listed)) s"
    by (rule contained_run.reachable_inv [OF walk_reach_run [OF assms(1), unfolded walk_reach_def]])
  moreover have "walk_step rec (Work i (Open F)) s = walk_step rec (Work i (Open G)) s"
    if "wf_open F path = wf_open G path" "wf_fstat F = wf_fstat G" for F G
  proof -
    have "open_source F b path = open_source G b path" for b
      using that(1) by (simp only: open_source_def)
    then have "examine F rec b path = examine G rec b path" for b
      using that(2) by (simp only: examine_def)
    then show ?thesis
      using assms(2) by (simp add: walk_step_def work_step_def)
  qed
  ultimately show ?thesis
    using containedD [of _ s i] assms(2) opening_resolved [OF assms] by fastforce
qed

theorem opens_below_sources_witness:
  "\<exists>s. walk_run True [Main Main_source, Wait 0 Recv, Wait 0 Unready, Work 0 (Resolve Some)]
         (walk_start False [(''/s'', ''d'', [])] []) = Some s \<and>
       w_pc (wk_worker s 0) = Opening (''/s'', ''d'', []) ''/s/d'' \<and> path_starts_with ''/s/d'' ''/s''"
proof -
  obtain s where "walk_run True [Main Main_source, Wait 0 Recv, Wait 0 Unready, Work 0 (Resolve Some)]
      (walk_start False [(''/s'', ''d'', [])] []) = Some s"
    "w_pc (wk_worker s 0) = Opening (''/s'', ''d'', []) ''/s/d''"
    by (simp add: walk_start_def run_defs walk_paths)
  then show ?thesis
    using opens_below_sources [of True _ False "[(''/s'', ''d'', [])]" "[]" s 0] by fastforce
qed

text \<open>
  The prefix of an entry of the file list is the parent of the path as it is written,
  while resolved paths are absolute: an entry with a relative directory in its path is always
  ignored as lying outside of its prefix.
\<close>

theorem relative_entry_ignored:
  assumes "\<And>p q. canon p = Some q \<Longrightarrow> starts_with q ''/''"
    and "\<not> starts_with prefix ''/''" and "path_components prefix \<noteq> []"
  shows "resolve_item canon (prefix, filename, dest) = None"
proof -
  have "\<not> path_starts_with q prefix" if "starts_with q ''/''" for q
    using relative_components [OF assms(2,3)] absolute_components [OF that] assms(3)
    by (cases "path_components prefix") (auto simp: path_starts_with_def)
  then show ?thesis
    using assms(1) by (auto simp: resolve_item_def split: option.splits)
qed

theorem relative_entry_ignored_witness:
  "queue_entries [(''data/f'', [])] = Done [(''data'', ''f'', [])] \<and>
   resolve_item (\<lambda>p. Some (''/home/'' @ p)) (''data'', ''f'', []) = None"
proof
  show "queue_entries [(''data/f'', [])] = Done [(''data'', ''f'', [])]"
    by code_simp
  have "\<not> starts_with ''data'' ''/'' \<and> path_components ''data'' \<noteq> []"
    by code_simp
  then show "resolve_item (\<lambda>p. Some (''/home/'' @ p)) (''data'', ''f'', []) = None"
    using relative_entry_ignored [of "\<lambda>p. Some (''/home/'' @ p)" "''data''" "''f''" "[]"] by auto
qed

text \<open>
  Claim C15. The files handed to the main thread carry distinct numbers in every interleaving
  of the four workers, and when no worker holds a numbered file the numbers are exactly 1 up to
  the number of files, the condition under which the batches of the main thread are complete.
\<close>

theorem file_numbers_complete:
  assumes "walk_reach rec (walk_start direct sources listed) s" and "wk_fino s < 2 ^ 64"
  shows "distinct (map fst (wk_taken s @ wk_msgs s)) \<and>
    (held_finos s = {#} \<longrightarrow>
       all_finos (wk_taken s @ wk_msgs s) \<and> length (wk_taken s @ wk_msgs s) = wk_fino s)"
proof -
  have ok: "numbers_ok s"
    by (rule numbers_run.reachable_inv [OF assms(1) [unfolded walk_reach_def]])
  have "distinct (map (of_nat :: nat \<Rightarrow> u64) [1..<Suc (wk_fino s)])"
    using assms(2) by (intro distinct_of_nat_upt) simp
  then have "distinct (map fst (wk_taken s @ wk_msgs s))"
    by (rule distinct_mset_part [OF ok [unfolded numbers_ok_def]])
  then show ?thesis
    using numbers_all_finos [OF ok] assms(2) by blast
qed

theorem file_numbers_complete_witness:
  "\<exists>s. walk_reach True (walk_start False [(''/s'', ''d'', [])] []) s \<and> held_finos s = {#} \<and>
       all_finos (wk_taken s @ wk_msgs s) \<and> length (wk_taken s @ wk_msgs s) = 1"
proof -
  obtain s where "walk_reach True (walk_start False [(''/s'', ''d'', [])] []) s" "held_finos s = {#}" "wk_fino s = 1"
    by (rule stuck_run_end)
  then show ?thesis
    using file_numbers_complete [of True False "[(''/s'', ''d'', [])]" "[]" s] by auto
qed

end
