(* ===== verification/Walk_Exit.thy ===== *)
theory Walk_Exit
  imports File_Walk
begin

text \<open>
  How the file workers of \<open>iterate_files\<close> (\<open>src/escp/sender.rs\<close>) come to an end. A worker leaves
  its loop when the bits of all four workers are set in \<open>GLOBAL_FILEOPEN_MASK\<close>. The invariant of
  the bits and four consequences: two ways in which a bit is lost for good, a run in which all
  workers leave too early, and a run in which the threads wait for each other for ever.
\<close>

section \<open>The bits of the mask\<close>

text \<open>An item is in hand and the worker has withdrawn its bit, or it has left on an error.\<close>

fun at_work :: "file_pc \<Rightarrow> bool" where
  "at_work (Resolving it) = True"
| "at_work (Opening it p) = True"
| "at_work (Descending it) = True"
| "at_work (Dir_counted it) = True"
| "at_work (Numbering it st) = True"
| "at_work (Entering it f st) = True"
| "at_work (Sending it f st) = True"
| "at_work Returned_early = True"
| "at_work _ = False"

definition bits_ok :: "walk \<Rightarrow> bool" where
  "bits_ok s \<longleftrightarrow>
     (\<forall>i. bit (wk_mask s) i \<longrightarrow> i < GLOBAL_FILEOPEN_COUNT \<and> w_ready (wk_worker s i) \<and>
                             \<not> at_work (w_pc (wk_worker s i)))"

lemma bit_set_ready: "i < GLOBAL_FILEOPEN_COUNT \<Longrightarrow>
  bit (wk_mask (set_ready i s)) k \<longleftrightarrow> bit (wk_mask s) k \<or> k = i \<and> \<not> w_ready (wk_worker s i)"
  by (auto simp: set_ready_def bit_simps GLOBAL_FILEOPEN_COUNT_def)

lemma bit_unset_ready:
  "bit (wk_mask (unset_ready i s)) k \<longleftrightarrow> bit (wk_mask s) k \<and> \<not> (k = i \<and> w_ready (wk_worker s i))"
  by (auto simp: unset_ready_def bit_simps dest: bit_imp_le_length)

lemma bits_ok_step:
  assumes "bits_ok s" and "walk_step rec e s = Some s'"
  shows "bits_ok s'"
  using assms(2)
proof (cases rule: walk_step_cases)
  case (main m)
  then show ?thesis
    using assms(1) by (cases rule: main_step_cases) (auto simp: bits_ok_def)
next
  case (wait i w)
  from wait(2) show ?thesis
  proof (cases rule: wait_step_cases)
    case set_ready
    then show ?thesis
      using assms(1) wait(1) by (auto simp: bits_ok_def bit_set_ready)
  next
    case (unready it)
    then show ?thesis
      using assms(1) by (auto simp: bits_ok_def bit_unset_ready)
  qed (use assms(1) in \<open>auto simp: bits_ok_def\<close>)
next
  case (work i w)
  from work(2) show ?thesis
    using assms(1)
    by (cases rule: work_step_cases)
      (force simp: bits_ok_def after_open_def)+
next
  case (dir j d)
  from dir(2) show ?thesis
    using assms(1) by (cases rule: dir_step_cases) (auto simp: bits_ok_def)
qed

lemma bits_ok_start: "bits_ok (walk_start direct sources listed)"
  by (simp add: bits_ok_def walk_start_def)

interpretation bits_run: step_system "\<lambda>s. s = walk_start direct sources listed" "walk_next rec" bits_ok
  by unfold_locales (auto simp: walk_next_def bits_ok_start intro: bits_ok_step)

section \<open>Workers that block the exit\<close>

lemma full_mask_bits: "bit full_mask i \<longleftrightarrow> i < GLOBAL_FILEOPEN_COUNT"
proof -
  have "full_mask = mask GLOBAL_FILEOPEN_COUNT"
    by (simp add: full_mask_def mask_eq_decr_exp flip: push_bit_of_1)
  moreover have "bit (mask GLOBAL_FILEOPEN_COUNT :: u64) i \<longleftrightarrow> i < GLOBAL_FILEOPEN_COUNT"
    by (auto simp: bit_mask_iff GLOBAL_FILEOPEN_COUNT_def)
  ultimately show ?thesis
    by simp
qed

lemma withdrawn_step:
  assumes "withdrawn s k" and "walk_step rec e s = Some s'"
  shows "withdrawn s' k \<and> (\<forall>i. w_pc (wk_worker s' i) = Finished_loop \<longrightarrow> w_pc (wk_worker s i) = Finished_loop)"
  using assms(2)
proof (cases rule: walk_step_cases)
  case (main m)
  then show ?thesis
    using assms(1) by (cases rule: main_step_cases) (auto simp: withdrawn_def)
next
  case (wait i w)
  have "wk_mask s \<noteq> full_mask"
    using assms(1) full_mask_bits [of k] by (auto simp: withdrawn_def)
  note open_mask = this
  from wait(2) show ?thesis
  proof (cases rule: wait_step_cases)
    case set_ready
    then show ?thesis
      using assms(1) wait(1) by (auto simp: withdrawn_def bit_set_ready)
  next
    case (unready it)
    then show ?thesis
      using assms(1) by (auto simp: withdrawn_def bit_unset_ready)
  next
    case leave
    then show ?thesis
      using open_mask by simp
  qed (use assms(1) in \<open>auto simp: withdrawn_def\<close>)
next
  case (work i w)
  from work(2) show ?thesis
    using assms(1)
    by (cases rule: work_step_cases) (auto simp: withdrawn_def after_open_def split: walk_action.splits)
next
  case (dir j d)
  from dir(2) show ?thesis
    using assms(1) by (cases rule: dir_step_cases) (auto simp: withdrawn_def)
qed

lemma withdrawn_run:
  assumes "withdrawn s k" and "walk_run rec es s = Some s'"
  shows "withdrawn s' k \<and> (\<forall>i. w_pc (wk_worker s' i) = Finished_loop \<longrightarrow> w_pc (wk_worker s i) = Finished_loop)"
  using assms
proof (induction es arbitrary: s)
  case (Cons e es)
  then obtain s1 where "walk_step rec e s = Some s1" "walk_run rec es s1 = Some s'"
    by (auto simp: bind_eq_Some_conv)
  then show ?case
    using Cons.IH [of s1] Cons.prems(1) withdrawn_step [of s k rec e s1] by blast
qed simp
section \<open>Runs\<close>

definition denied_run :: "walk_event list" where
  "denied_run = [Main Main_source, Main Main_tail] @ take_item 0 denied_fs"

lemma denied_run_state:
  "\<exists>s. walk_run True denied_run demo_walk = Some s \<and> w_pc (wk_worker s 0) = Returned_early \<and>
       w_pc (wk_worker s 1) = At_recv"
  unfolding denied_run_def demo_walk_def walk_start_def take_item_def
  by (simp add: run_defs walk_paths)

definition race_run :: "walk_event list" where
  "race_run =
     [Main Main_tail] @ concat (map (\<lambda>i. map (Wait i) [Timeout, Load_tail, Load_cleanup, Set_ready]) [0, 1, 2, 3]) @
     [Main Main_list] @ map (\<lambda>i. Wait i Check_mask) [0, 1, 2, 3]"

lemma race_run_state:
  "\<exists>s. walk_run True race_run (walk_start False [] [(''/s'', ''d'', [])]) = Some s \<and>
       map (\<lambda>i. w_pc (wk_worker s i)) [0..<GLOBAL_FILEOPEN_COUNT] =
         [Finished_loop, Finished_loop, Finished_loop, Finished_loop] \<and> wk_files s = [(''/s'', ''d'', [])] \<and>
       wk_msgs s = [] \<and> wk_taken s = []"
  unfolding race_run_def walk_start_def
  by (simp add: run_defs upt_rec)



section \<open>A file list that clogs the channels\<close>

definition leads :: "bool \<Rightarrow> walk \<Rightarrow> walk \<Rightarrow> bool" where
  "leads rec s s' \<longleftrightarrow> (\<exists>es. walk_run rec es s = Some s')"

lemma leads_refl: "leads rec s s"
  unfolding leads_def by (rule exI [of _ "[]"]) simp

lemma leads_trans: "leads rec s s1 \<Longrightarrow> leads rec s1 s2 \<Longrightarrow> leads rec s s2"
  by (auto simp: leads_def) (metis bind.bind_lunit walk_run_append)

lemma leads_step: "walk_step rec e s = Some s1 \<Longrightarrow> leads rec s1 s2 \<Longrightarrow> leads rec s s2"
  by (auto simp: leads_def) (metis bind.bind_lunit walk_run.simps(2))

fun is_Sending :: "file_pc \<Rightarrow> bool" where
  "is_Sending (Sending it f st) = True"
| "is_Sending _ = False"

text \<open>\<open>n\<close> names wait for the main thread, the first \<open>k\<close> workers wait to send theirs, and \<open>m\<close> items are queued.\<close>

definition clogging :: "work_item list \<Rightarrow> nat \<Rightarrow> nat \<Rightarrow> nat \<Rightarrow> walk \<Rightarrow> bool" where
  "clogging listed n k m s \<longleftrightarrow>
     \<not> wk_exited s \<and> wk_started s \<and> wk_dirs s = [] \<and> (\<forall>j. wk_dirw s j = Dir_idle) \<and> wk_taken s = [] \<and>
     length (wk_msgs s) = n \<and> length (wk_files s) = m \<and> wk_list s = drop (n + k + m) listed \<and>
     (\<forall>i<k. is_Sending (w_pc (wk_worker s i))) \<and>
     (\<forall>i. k \<le> i \<longrightarrow> i < GLOBAL_FILEOPEN_COUNT \<longrightarrow> w_pc (wk_worker s i) = At_recv)"

lemma clogging_push:
  assumes s: "clogging listed n k m s" and m: "m < files_cap" and more: "n + k + m < length listed"
  shows "\<exists>s'. leads rec s s' \<and> clogging listed n k (Suc m) s' \<and> wk_files s' = wk_files s @ [listed ! (n + k + m)]"
proof -
  define s' where "s' = s\<lparr>wk_files := wk_files s @ [listed ! (n + k + m)], wk_list := drop (Suc (n + k + m)) listed\<rparr>"
  have "wk_list s \<noteq> []" "hd (wk_list s) = listed ! (n + k + m)" "tl (wk_list s) = drop (Suc (n + k + m)) listed"
    using s more by (simp_all add: clogging_def hd_drop_conv_nth drop_Suc tl_drop)
  then have "walk_step rec (Main Main_list) s = Some s'"
    using s m unfolding s'_def by (simp add: clogging_def walk_step_def main_step_def)
  moreover have "clogging listed n k (Suc m) s'"
    using s by (simp add: clogging_def s'_def)
  ultimately show ?thesis
    using leads_step [OF _ leads_refl] by (fastforce simp: s'_def)
qed

lemma clogging_take:
  assumes s: "clogging listed n k 1 s" and k: "k < GLOBAL_FILEOPEN_COUNT" and n: "n \<le> msgs_cap"
    and res: "\<And>it. it \<in> set listed \<Longrightarrow> resolve_item canon it \<noteq> None"
    and reg: "\<And>direct path. \<exists>fd st d. examine F rec direct path = (Deliver fd st, d)"
    and fs: "set (wk_files s) \<subseteq> set listed"
  shows "\<exists>s'. leads rec s s' \<and> clogging listed n (Suc k) 0 s'"
proof -
  obtain it where it: "wk_files s = [it]" "it \<in> set listed"
    using s fs by (cases "wk_files s") (auto simp: clogging_def)
  obtain path where path: "resolve_item canon it = Some path"
    using res [OF it(2)] by auto
  obtain fd st d where ex: "examine F rec (w_direct (wk_worker s k)) path = (Deliver fd st, d)"
    using reg by blast
  define run where "run = [Wait k Recv, Wait k Unready, Work k (Resolve canon), Work k (Open F), Work k Number, Work k (Enter True)]"
  obtain s' where s': "walk_run rec run s = Some s'"
    "w_pc (wk_worker s' k) = Sending it (1 + of_nat (wk_fino s)) st"
    "\<And>i. i \<noteq> k \<Longrightarrow> wk_worker s' i = wk_worker s i"
    "wk_files s' = []" "wk_exited s' = wk_exited s" "wk_started s' = wk_started s" "wk_dirs s' = wk_dirs s"
    "wk_dirw s' = wk_dirw s" "wk_taken s' = wk_taken s" "wk_msgs s' = wk_msgs s" "wk_list s' = wk_list s"
    using s k it path ex 
    by (simp add: clogging_def run_def walk_step_def wait_step_def work_step_def after_open_def)
  show ?thesis
    using s s' k
    by (intro exI [of _ s']) (auto simp: clogging_def leads_def less_Suc_eq)
qed


lemma clogging_send:
  assumes s: "clogging listed n 1 0 s" and n: "n < msgs_cap"
  shows "\<exists>s'. leads rec s s' \<and> clogging listed (Suc n) 0 0 s'"
proof -
  have "is_Sending (w_pc (wk_worker s 0))"
    using s by (simp add: clogging_def)
  then obtain it f st where pc: "w_pc (wk_worker s 0) = Sending it f st"
    by (cases "w_pc (wk_worker s 0)") auto
  define s' where "s' = set_pc 0 At_recv (s\<lparr>wk_msgs := wk_msgs s @ [(f, sent_name it, st)]\<rparr>)"
  have "walk_step rec (Work 0 Send_msg) s = Some s'"
    using s pc n by (simp add: clogging_def walk_step_def work_step_def s'_def GLOBAL_FILEOPEN_COUNT_def)
  moreover have "clogging listed (Suc n) 0 0 s'"
    using s by (simp add: clogging_def s'_def)
  ultimately show ?thesis
    using leads_step [OF _ leads_refl] by blast
qed

lemma clogging_hold:
  assumes s: "clogging listed n k 0 s" and k: "k < GLOBAL_FILEOPEN_COUNT" and more: "n + k < length listed"
    and n: "n \<le> msgs_cap"
    and res: "\<And>it. it \<in> set listed \<Longrightarrow> resolve_item canon it \<noteq> None"
    and reg: "\<And>direct path. \<exists>fd st d. examine F rec direct path = (Deliver fd st, d)"
  shows "\<exists>s'. leads rec s s' \<and> clogging listed n (Suc k) 0 s'"
proof -
  have "wk_files s = []"
    using s by (simp add: clogging_def)
  moreover obtain s1 where s1: "leads rec s s1" "clogging listed n k (Suc 0) s1"
    "wk_files s1 = wk_files s @ [listed ! (n + k + 0)]"
    using clogging_push [OF s, of rec] more by (auto simp: files_cap_def)
  ultimately have "set (wk_files s1) \<subseteq> set listed"
    using more by simp
  then obtain s' where "leads rec s1 s'" "clogging listed n (Suc k) 0 s'"
    using clogging_take [OF s1(2) [folded One_nat_def] k n res reg] by blast
  then show ?thesis
    using leads_trans [OF s1(1)] by blast
qed

lemma clogging_steps:
  assumes "P 0 s0" and "\<And>n s. P n s \<Longrightarrow> n < N \<Longrightarrow> \<exists>s'. leads rec s s' \<and> P (Suc n) s'"
  shows "\<exists>s'. leads rec s0 s' \<and> P N s'"
  using assms
proof (induction N)
  case 0
  then show ?case using leads_refl by blast
next
  case (Suc N)
  then obtain s1 where "leads rec s0 s1" "P N s1"
    by (metis less_SucI)
  then show ?case
    using Suc.prems(2) [of N s1] leads_trans by blast
qed

lemma clogged_reachable:
  assumes more: "files_cap + msgs_cap + GLOBAL_FILEOPEN_COUNT < length listed"
    and res: "\<And>it. it \<in> set listed \<Longrightarrow> resolve_item canon it \<noteq> None"
    and reg: "\<And>direct path. \<exists>fd st d. examine F rec direct path = (Deliver fd st, d)"
  shows "\<exists>s. leads rec (walk_start direct [] listed) s \<and>
    clogging listed msgs_cap GLOBAL_FILEOPEN_COUNT files_cap s"
proof -
  have less: "msgs_cap + GLOBAL_FILEOPEN_COUNT + files_cap < length listed"
    using more by simp
  define s1 where "s1 = (walk_start direct [] listed)\<lparr>wk_tail := 1, wk_started := True\<rparr>"
  have s1: "leads rec (walk_start direct [] listed) s1" "clogging listed 0 0 0 s1"
  proof -
    have "walk_step rec (Main Main_tail) (walk_start direct [] listed) = Some s1"
      by (simp add: walk_step_def main_step_def s1_def walk_start_def)
    then show "leads rec (walk_start direct [] listed) s1"
      using leads_step [OF _ leads_refl] by blast
    show "clogging listed 0 0 0 s1"
      by (simp add: clogging_def s1_def walk_start_def)
  qed
  have "\<exists>s'. leads rec s s' \<and> clogging listed (Suc n) 0 0 s'" if c: "clogging listed n 0 0 s" and n: "n < msgs_cap" for n s
  proof -
    obtain s' where "leads rec s s'" "clogging listed n 1 0 s'"
      using clogging_hold [OF c _ _ _ res reg] n less by (auto simp: GLOBAL_FILEOPEN_COUNT_def)
    then show ?thesis
      using clogging_send [of listed n s' rec] n leads_trans by blast
  qed
  then obtain s2 where s2: "leads rec s1 s2" "clogging listed msgs_cap 0 0 s2"
    using clogging_steps [of "\<lambda>n. clogging listed n 0 0" s1 msgs_cap rec] s1(2) by blast
  have "\<exists>s'. leads rec s s' \<and> clogging listed msgs_cap (Suc k) 0 s'"
    if "clogging listed msgs_cap k 0 s" "k < GLOBAL_FILEOPEN_COUNT" for k s
    using clogging_hold [OF that _ _ res reg] that(2) less by simp
  then obtain s3 where s3: "leads rec s2 s3" "clogging listed msgs_cap GLOBAL_FILEOPEN_COUNT 0 s3"
    using clogging_steps [of "\<lambda>k. clogging listed msgs_cap k 0" s2 GLOBAL_FILEOPEN_COUNT rec] s2(2) by blast
  have "\<exists>s'. leads rec s s' \<and> clogging listed msgs_cap GLOBAL_FILEOPEN_COUNT (Suc m) s'"
    if "clogging listed msgs_cap GLOBAL_FILEOPEN_COUNT m s" "m < files_cap" for m s
    using clogging_push [OF that, of rec] that(2) less by auto
  then obtain s4 where "leads rec s3 s4" "clogging listed msgs_cap GLOBAL_FILEOPEN_COUNT files_cap s4"
    using clogging_steps [of "clogging listed msgs_cap GLOBAL_FILEOPEN_COUNT" s3 files_cap rec] s3(2) by blast
  then show ?thesis
    using s1(1) s2(1) s3(1) leads_trans by meson
qed

lemma clogged_stuck:
  assumes s: "clogging listed msgs_cap GLOBAL_FILEOPEN_COUNT files_cap s"
    and more: "files_cap + msgs_cap + GLOBAL_FILEOPEN_COUNT < length listed"
  shows "wk_list s \<noteq> [] \<and> walk_step rec e s = None"
proof -
  have lst: "wk_list s \<noteq> []"
    using assms by (auto simp: clogging_def)
  have pc: "\<exists>it f st. w_pc (wk_worker s i) = Sending it f st" if "i < GLOBAL_FILEOPEN_COUNT" for i
  proof -
    have "is_Sending (w_pc (wk_worker s i))"
      using s that by (simp add: clogging_def)
    then show ?thesis
      by (cases "w_pc (wk_worker s i)") auto
  qed
  have "walk_step rec e s = None"
  proof (cases e)
    case (Main m)
    then show ?thesis
      using s lst by (cases m) (auto simp: clogging_def walk_step_def main_step_def)
  next
    case (Wait i w)
    then show ?thesis
      using pc [of i] by (cases w) (auto simp: walk_step_def wait_step_def)
  next
    case (Work i w)
    then show ?thesis
      using pc [of i] s by (cases w) (auto simp: walk_step_def work_step_def clogging_def)
  next
    case (Dir j d)
    then show ?thesis
      using s by (cases d) (auto simp: walk_step_def dir_step_def clogging_def)
  qed
  then show ?thesis
    using lst by simp
qed

section \<open>Claims\<close>

text \<open>
  Claim C34. A worker that was ready to exit and then received another item clears its bit and
  never sets it again, because \<open>exit_ready\<close> stays true; a worker that returns on an open error
  never had one. From then on no worker leaves its loop, whatever steps follow, so the main
  thread never sees the end of the files.
\<close>

theorem withdrawn_blocks_exit:
  assumes "withdrawn s k" and "walk_run rec es s = Some s'"
    and "w_pc (wk_worker s' i) = Finished_loop"
  shows "w_pc (wk_worker s i) = Finished_loop"
  using withdrawn_run [OF assms(1,2)] assms(3) by blast

theorem withdrawn_blocks_exit_witness:
  "\<exists>s. walk_reach True (walk_start False [(''/s'', ''d'', [])] []) s \<and> wk_files s = [] \<and> pending_dirs s = 0 \<and>
       map fst (wk_taken s) = [1] \<and>
       (\<forall>es s'. walk_run True es s = Some s' \<longrightarrow> w_pc (wk_worker s' 0) \<noteq> Finished_loop)"
proof -
  obtain s where s: "walk_reach True (walk_start False [(''/s'', ''d'', [])] []) s" "withdrawn s 1"
    "wk_files s = []" "pending_dirs s = 0" "map fst (wk_taken s) = [1]" "w_pc (wk_worker s 0) = At_recv"
    by (rule stuck_run_end)
  have "w_pc (wk_worker s' 0) \<noteq> Finished_loop" if "walk_run True es s = Some s'" for es s'
    using withdrawn_blocks_exit [OF s(2) that, of 0] s(6) by auto
  then show ?thesis
    using s by (intro exI [of _ s]) simp
qed

text \<open>
  An open that fails with anything but too many open files ends its worker without a
  bit in the mask: in every state a run can reach, once one worker has left this way, no other
  worker ever leaves its loop.
\<close>

theorem open_error_blocks_exit:
  assumes "walk_reach rec (walk_start direct sources listed) s" and "k < GLOBAL_FILEOPEN_COUNT"
    and "w_pc (wk_worker s k) = Returned_early" and "walk_run rec es s = Some s'"
    and "w_pc (wk_worker s' i) = Finished_loop"
  shows "w_pc (wk_worker s i) = Finished_loop"
proof -
  have "bits_ok s"
    by (rule bits_run.reachable_inv [OF assms(1) [unfolded walk_reach_def]])
  then have "withdrawn s k"
    using assms(2,3) by (auto simp: bits_ok_def withdrawn_def)
  then show ?thesis
    using withdrawn_run assms(4,5) by blast
qed

theorem open_error_blocks_exit_witness:
  "\<exists>s. walk_reach True (walk_start False [(''/s'', ''d'', [])] []) s \<and>
       (\<forall>es s'. walk_run True es s = Some s' \<longrightarrow> w_pc (wk_worker s' 1) \<noteq> Finished_loop)"
proof -
  obtain s where s: "walk_run True denied_run demo_walk = Some s" "w_pc (wk_worker s 0) = Returned_early"
    "w_pc (wk_worker s 1) = At_recv"
    using denied_run_state by blast
  have reach: "walk_reach True (walk_start False [(''/s'', ''d'', [])] []) s"
    using walk_reach_run [OF s(1)] by (simp add: demo_walk_def)
  have "w_pc (wk_worker s' 1) \<noteq> Finished_loop" if "walk_run True es s = Some s'" for es s'
    using open_error_blocks_exit [OF reach _ s(2) that, of 1] s(3) by (auto simp: GLOBAL_FILEOPEN_COUNT_def)
  then show ?thesis
    using reach by blast
qed

text \<open>
  The exit protocol looks at the counters after the queue: there is a run in which the
  four workers find the queue empty and the counters equal just before the main thread queues
  the entry of the file list, and all of them leave with the entry still queued.
\<close>

theorem exit_with_file_queued:
  "\<exists>s. walk_reach True (walk_start False [] [(''/s'', ''d'', [])]) s \<and>
       map (\<lambda>i. w_pc (wk_worker s i)) [0..<GLOBAL_FILEOPEN_COUNT] =
         [Finished_loop, Finished_loop, Finished_loop, Finished_loop] \<and> wk_files s = [(''/s'', ''d'', [])] \<and>
       wk_taken s = []"
proof -
  from race_run_state obtain s where "walk_run True race_run (walk_start False [] [(''/s'', ''d'', [])]) = Some s"
    "map (\<lambda>i. w_pc (wk_worker s i)) [0..<GLOBAL_FILEOPEN_COUNT] =
       [Finished_loop, Finished_loop, Finished_loop, Finished_loop]"
    "wk_files s = [(''/s'', ''d'', [])]" "wk_taken s = []"
    by (elim exE conjE)
  then show ?thesis
    using walk_reach_run by (intro exI [of _ s] conjI)
qed

text \<open>
  Claim C35. The main thread queues the whole file list before it takes a single opened file,
  and both channels are bounded: with more entries than the two channels and the four workers
  can hold, all of them regular files, there is a run that ends in a deadlock, where entries
  are left, nothing was taken and no thread can move.
\<close>

theorem long_file_list_deadlock:
  assumes "files_cap + msgs_cap + GLOBAL_FILEOPEN_COUNT < length listed"
    and "\<And>it. it \<in> set listed \<Longrightarrow> resolve_item canon it \<noteq> None"
    and "\<And>direct path. \<exists>fd st d. examine F rec direct path = (Deliver fd st, d)"
  shows "\<exists>s. walk_reach rec (walk_start direct [] listed) s \<and> wk_list s \<noteq> [] \<and> wk_taken s = [] \<and>
    (\<forall>e. walk_step rec e s = None)"
proof -
  obtain s where "leads rec (walk_start direct [] listed) s"
    and s: "clogging listed msgs_cap GLOBAL_FILEOPEN_COUNT files_cap s"
    using clogged_reachable [OF assms] by blast
  then have "walk_reach rec (walk_start direct [] listed) s"
    using walk_reach_run by (auto simp: leads_def)
  moreover have "wk_taken s = []"
    using s by (simp add: clogging_def)
  ultimately show ?thesis
    using clogged_stuck [OF s assms(1)] by blast
qed

theorem long_file_list_deadlock_witness:
  "\<exists>s. walk_reach False (walk_start False [] (replicate 15405 (''/s'', ''d'', []))) s \<and> wk_list s \<noteq> [] \<and>
       (\<forall>e. walk_step False e s = None)"
proof -
  obtain n :: nat where n: "n = 15405"
    by simp
  let ?it = "(''/s'', ''d'', []) :: work_item"
  have "files_cap + msgs_cap + GLOBAL_FILEOPEN_COUNT < length (replicate n ?it)"
    by (simp add: n files_cap_def msgs_cap_def GLOBAL_FILEOPEN_COUNT_def)
  moreover have "resolve_item Some it \<noteq> None" if "it \<in> set (replicate n ?it)" for it
    using that by (simp add: resolve_item_def walk_paths)
  moreover have "\<exists>fd st d. examine (demo_fs S_IFREG) False direct path = (Deliver fd st, d)" for direct path
    by (auto simp: examine_def open_source_def demo_fs_def mode_stat_def S_IFMT_def S_IFREG_def S_IFDIR_def)
  ultimately have "\<exists>s. walk_reach False (walk_start False [] (replicate n ?it)) s \<and> wk_list s \<noteq> [] \<and>
      wk_taken s = [] \<and> (\<forall>e. walk_step False e s = None)"
    by (rule long_file_list_deadlock)
  then show ?thesis
    unfolding n by blast
qed

end
