(* ===== verification/Transfer_End.thy ===== *)
theory Transfer_End
  imports File_Batch
begin

text \<open>
  The end of \<open>escp_sender\<close> (\<open>src/escp/sender.rs\<close>): after the files are listed, the progress loop and
  the loop that waits until every file is confirmed, then the end of the session. What happens
  outside between two turns of a loop is a \<open>tick\<close>: frames of the receiver, completions of the I/O
  workers, whether the deadline of \<open>file_check\<close> is ahead, and the bytes transferred so far. The
  progress bar has no effect on the state.
\<close>

section \<open>The loops\<close>

record tick =
  tk_frames :: "u8 list list"
  tk_fcs :: "fc_info list"
  tk_time :: bool
  tk_bytes :: i64

definition deliver :: "tick \<Rightarrow> tx_check \<Rightarrow> tx_check" where
  "deliver tk s = fc_worker (tk_fcs tk) (s\<lparr>ck_inbox := ck_inbox s @ tk_frames tk\<rparr>)"

text \<open>None: the loop has not ended on the given ticks.\<close>

fun progress_loop ::
    "'t codec \<Rightarrow> bool \<Rightarrow> i64 \<Rightarrow> nat \<Rightarrow> tick list \<Rightarrow> tx_check \<Rightarrow> (tick list \<times> tx_check) option outcome" where
  "progress_loop C quiet bytes_total files_total [] s = Done (if quiet then Some ([], s) else None)"
| "progress_loop C quiet bytes_total files_total (tk # tks) s =
     (if quiet then Done (Some (tk # tks, s))
      else bind_outcome (file_check C (tk_time tk) (deliver tk s)) (\<lambda>(r, s1).
             if r = Waiting then Done None
             else if r \<noteq> Returned 1 then Exited 1
             else if tk_bytes tk \<ge> bytes_total \<or> ck_files_ok s1 \<ge> files_total then Done (Some (tks, s1))
             else progress_loop C quiet bytes_total files_total tks s1))"

fun confirm_loop ::
    "'t codec \<Rightarrow> nat \<Rightarrow> tick list \<Rightarrow> tx_check \<Rightarrow> (tick list \<times> tx_check) option outcome" where
  "confirm_loop C files_total [] s = Done (if ck_files_ok s \<ge> files_total then Some ([], s) else None)"
| "confirm_loop C files_total (tk # tks) s =
     (if ck_files_ok s \<ge> files_total then Done (Some (tk # tks, s))
      else bind_outcome (file_check C (tk_time tk) (deliver tk s)) (\<lambda>(r, s1).
             if r = Waiting then Done None
             else if r = Returned 0 then Exited 1
             else confirm_loop C files_total tks s1))"

text \<open>The end: the session is declared complete, and the next message, of any type, is the answer.\<close>

definition finish_session :: "u8 list list \<Rightarrow> tx_check \<Rightarrow> tx_check option" where
  "finish_session frames s =
     (case ck_inbox s @ frames of
        [] \<Rightarrow> None
      | _ # rest \<Rightarrow>
          Some (s\<lparr>ck_sent := ck_sent s @ [send_empty msg_session_complete], ck_inbox := rest\<rparr>))"

definition end_transfer ::
    "'t codec \<Rightarrow> EScp_Args \<Rightarrow> i64 \<Rightarrow> nat \<Rightarrow> tick list \<Rightarrow> u8 list list \<Rightarrow> tx_check \<Rightarrow> tx_check option outcome" where
  "end_transfer C flags bytes_total files_total tks frames s =
     (if bytes_total \<le> 0 \<and> files_total = 0 \<and> ea_io_engine flags \<noteq> ''shmem'' then Exited 1
      else bind_outcome (progress_loop C (ea_quiet flags) bytes_total files_total tks s) (\<lambda>r.
        case r of
          None \<Rightarrow> Done None
        | Some (tks1, s1) \<Rightarrow>
            bind_outcome (confirm_loop C files_total tks1 s1) (\<lambda>r2.
              case r2 of None \<Rightarrow> Done None | Some (tks2, s2) \<Rightarrow> Done (finish_session frames s2))))"

text \<open>All of it: the files are listed and sent, then the transfer ends.\<close>

definition send_files ::
    "'t codec \<Rightarrow> EScp_Args \<Rightarrow> string \<Rightarrow> batch_event list \<Rightarrow> tick list \<Rightarrow> u8 list list \<Rightarrow> tx_check \<Rightarrow>
     (opened list list \<times> tx_check) option outcome" where
  "send_files C flags dest_path evs tks frames t =
     bind_outcome (iterate_loop C (ea_preserve flags) dest_path evs (batch_start t)) (\<lambda>r.
       case r of
         None \<Rightarrow> Done None
       | Some (yss, b) \<Rightarrow>
           bind_outcome (end_transfer C flags (bt_bytes_total b) (bt_files_total b) tks frames (bt_tx b)) (\<lambda>r2.
             Done (map_option (\<lambda>s. (yss, s)) r2)))"

section \<open>Counting confirmations\<close>

text \<open>
  The files confirmed so far and those that can still be: each confirmation uses up one
  completion of the sender's own workers.
\<close>

definition known :: "tx_check \<Rightarrow> fino set" where
  "known s = {f. expected s f \<noteq> None}"

definition confirmable :: "tx_check \<Rightarrow> nat" where
  "confirmable s = ck_files_ok s + card (known s)"

text \<open>The completions the workers report, file number and checksum, up to the final report.\<close>

definition crc_reports :: "fc_info list \<Rightarrow> (fino \<times> u32) list" where
  "crc_reports fcs = map (\<lambda>fc. (fc_file_no fc, fc_crc fc)) (takeWhile (\<lambda>fc. fc_file_no fc \<noteq> 0) fcs)"

definition completions :: "tick list \<Rightarrow> fino list" where
  "completions tks = concat (map (\<lambda>tk. map fst (crc_reports (tk_fcs tk))) tks)"

text \<open>A status of the receiver that confirms a file with its checksum.\<close>

definition confirms :: "'t codec \<Rightarrow> u8 list \<Rightarrow> fino \<Rightarrow> u32 \<Rightarrow> bool" where
  "confirms C frame f crc \<longleftrightarrow>
     (\<exists>sz c fl es. meta_open frame = Done (sz, msg_file_stat, c) \<and> tx_file_list C frame = Done fl \<and>
        fl_files fl = Some es \<and> (\<exists>e \<in> set es. f_fino e = f \<and> f_crc e = crc \<and> f_errno e \<le> 0))"

text \<open>The receiver never sends a status for file number 0.\<close>

definition status_frame :: "'t codec \<Rightarrow> u8 list \<Rightarrow> bool" where
  "status_frame C frame \<longleftrightarrow>
     (\<forall>sz c fl es. meta_open frame = Done (sz, msg_file_stat, c) \<longrightarrow> tx_file_list C frame = Done fl \<longrightarrow>
        fl_files fl = Some es \<longrightarrow> (\<forall>e \<in> set es. f_fino e \<noteq> 0))"

text \<open>
  Of the completions \<open>K\<close>, every one is still to come, is known and waits for its confirmation, or was
  confirmed by one of the frames \<open>F\<close>.
\<close>

definition cover :: "'t codec \<Rightarrow> u8 list set \<Rightarrow> (fino \<times> u32) set \<Rightarrow> fino list \<Rightarrow> tx_check \<Rightarrow> bool" where
  "cover C F K new s \<longleftrightarrow>
     set (ck_inbox s) \<subseteq> F \<and> (\<forall>f c. expected s f = Some c \<longrightarrow> (f, c) \<in> K) \<and>
     (\<forall>f c. (f, c) \<in> K \<longrightarrow> f \<in> set new \<or> expected s f = Some c \<or> (\<exists>frame \<in> F. confirms C frame f c))"

text \<open>What a turn of a loop brings is part of the frames and the completions of the run.\<close>

definition within :: "u8 list set \<Rightarrow> (fino \<times> u32) set \<Rightarrow> u8 list list \<Rightarrow> fc_info list \<Rightarrow> bool" where
  "within F K frames fcs \<longleftrightarrow> set frames \<subseteq> F \<and> set (crc_reports fcs) \<subseteq> K \<and> inj_on fst K"

definition count_inv :: "'t codec \<Rightarrow> fino list \<Rightarrow> tx_check \<Rightarrow> bool" where
  "count_inv C new s \<longleftrightarrow>
     fc_fresh s \<and> finite (known s) \<and> distinct new \<and> set new \<inter> known s = {} \<and>
     (\<forall>frame \<in> set (ck_inbox s). status_frame C frame)"


section \<open>Lemmas\<close>

lemma check_entry_inbox: "check_entry e s = Done (r, s') \<Longrightarrow> ck_inbox s' = ck_inbox s"
  by (auto simp: check_entry_def Let_def split: if_splits prod.splits wait_result.splits)

lemma check_entry_Confirmed:
  assumes "fc_fresh s" and "f_fino e \<noteq> 0" and "check_entry e s = Done (Confirmed, s')"
  shows "fc_fresh s' \<and> ck_files_ok s' = ck_files_ok s + 1 \<and> f_errno e \<le> 0 \<and> expected s (f_fino e) = Some (f_crc e) \<and>
    expected s' = (expected s)(f_fino e := None)"
proof -
  have no_err: "f_errno e \<le> 0"
    using assms(3) by (cases "f_errno e > 0") (auto simp: check_entry_def)
  have "expected s (f_fino e) = Some (f_crc e)"
  proof (cases "expected s (f_fino e)")
    case None
    then show ?thesis
      using check_entry_unknown [OF assms(1) no_err assms(2)] assms(3) by (auto split: if_splits)
  next
    case (Some c)
    then show ?thesis
      using check_entry_mismatch [OF assms(1) no_err assms(2) Some] assms(3) by auto
  qed
  then show ?thesis
    using check_entry_match [OF assms(1) no_err assms(2)] assms(3) no_err by auto
qed

lemma check_entries_ConsE:
  assumes "check_entries (e # es) s = Done (r, s')"
  obtains s1 where "check_entry e s = Done (Confirmed, s1)" "check_entries es s1 = Done (r, s')"
  | "r = Returned (-1)"
  | "r = Waiting"
proof -
  obtain x s1 where "check_entry e s = Done (x, s1)"
    using assms by auto
  then show ?thesis
    using assms that by (cases x) auto
qed

lemma check_entries_count:
  assumes "check_entries es s = Done (Returned 1, s')" and "\<forall>e \<in> set es. f_fino e \<noteq> 0"
    and "fc_fresh s" and "finite (known s)"
  shows "fc_fresh s' \<and> known s' \<subseteq> known s \<and> confirmable s' = confirmable s \<and> ck_inbox s' = ck_inbox s \<and>
    (\<forall>f c. expected s' f = Some c \<longrightarrow> expected s f = Some c) \<and>
    (\<forall>f c. expected s f = Some c \<longrightarrow> expected s' f = Some c \<or> (\<exists>e \<in> set es. f_fino e = f \<and> f_crc e = c \<and> f_errno e \<le> 0))"
  using assms
proof (induction es arbitrary: s)
  case Nil
  then show ?case by simp
next
  case (Cons e es)
  obtain s1 where s1: "check_entry e s = Done (Confirmed, s1)" "check_entries es s1 = Done (Returned 1, s')"
    using Cons.prems(1) by (rule check_entries_ConsE) simp_all
  have e: "fc_fresh s1" "ck_files_ok s1 = ck_files_ok s + 1" "expected s (f_fino e) = Some (f_crc e)"
    "expected s1 = (expected s)(f_fino e := None)" "f_errno e \<le> 0"
    using check_entry_Confirmed [OF Cons.prems(3) _ s1(1)] Cons.prems(2) by simp_all
  then have "known s = insert (f_fino e) (known s1)" "f_fino e \<notin> known s1"
    by (auto simp: known_def)
  then have "known s1 \<subseteq> known s" "finite (known s1)" "confirmable s1 = confirmable s"
    using e(2) Cons.prems(4) by (auto simp: confirmable_def)
  then have IH: "fc_fresh s'" "known s' \<subseteq> known s1" "confirmable s' = confirmable s1" "ck_inbox s' = ck_inbox s1"
    "\<forall>f c. expected s' f = Some c \<longrightarrow> expected s1 f = Some c"
    "\<forall>f c. expected s1 f = Some c \<longrightarrow> expected s' f = Some c \<or> (\<exists>e \<in> set es. f_fino e = f \<and> f_crc e = c \<and> f_errno e \<le> 0)"
    using Cons.IH [OF s1(2) _ e(1)] Cons.prems(2) by auto
  have bwd: "expected s f = Some c" if "expected s' f = Some c" for f c
  proof -
    have "expected s1 f = Some c"
      using IH(5) that by blast
    then show ?thesis
      using e(4) by (auto split: if_splits)
  qed
  have forth: "expected s' f = Some c \<or> (\<exists>e \<in> set (e # es). f_fino e = f \<and> f_crc e = c \<and> f_errno e \<le> 0)"
    if "expected s f = Some c" for f c
    using IH(6) that e(3-5) by (cases "f = f_fino e") auto
  show ?case
    using IH(1-4) \<open>known s1 \<subseteq> known s\<close> \<open>confirmable s1 = confirmable s\<close> check_entry_inbox [OF s1(1)] bwd forth by auto
qed

lemma check_entries_result: "check_entries es s = Done (Returned r, s') \<Longrightarrow> r = 1 \<or> r = -1"
proof (induction es arbitrary: s)
  case (Cons e es)
  from Cons.prems show ?case
    by (rule check_entries_ConsE) (use Cons.IH in auto)
qed simp

lemma count_inv_mono:
  "count_inv C new s \<Longrightarrow> fc_fresh s' \<Longrightarrow> known s' \<subseteq> known s \<Longrightarrow> set (ck_inbox s') \<subseteq> set (ck_inbox s) \<Longrightarrow>
   count_inv C new s'"
  by (auto simp: count_inv_def intro: finite_subset)

lemma known_cong:
  "ck_hm s' = ck_hm s \<Longrightarrow> ck_fc s' = ck_fc s \<Longrightarrow> known s' = known s \<and> fc_fresh s' = fc_fresh s \<and> expected s' = expected s"
  by (simp add: known_def expected_def fc_fresh_def)

lemma cover_cong:
  "cover C F K new s \<Longrightarrow> expected s' = expected s \<Longrightarrow> set (ck_inbox s') \<subseteq> set (ck_inbox s) \<Longrightarrow> cover C F K new s'"
  unfolding cover_def by (simp add: subset_trans)

text \<open>A status frame in hand keeps the cover when all it takes away it confirms.\<close>

lemma cover_confirm:
  assumes "cover C F K new s" and "set (ck_inbox s') \<subseteq> set (ck_inbox s)"
    and "\<And>f c. expected s' f = Some c \<Longrightarrow> expected s f = Some c"
    and "\<And>f c. expected s f = Some c \<Longrightarrow> expected s' f = Some c \<or> confirms C ptr f c" and "ptr \<in> set (ck_inbox s)"
  shows "cover C F K new s'"
  using assms unfolding cover_def by (metis subset_trans subsetD)

lemma handle_count:
  assumes inv: "count_inv C new s" and h: "handle_msg_from_receiver C s = Done (Returned r, s')" and r: "0 \<le> r"
  shows "count_inv C new s' \<and> confirmable s' = confirmable s \<and> (cover C F K new s \<longrightarrow> cover C F K new s')"
proof (cases "ck_inbox s")
  case Nil
  then show ?thesis
    using inv h by (simp add: handle_msg_from_receiver_def)
next
  case (Cons ptr rest)
  let ?rest = "s\<lparr>ck_inbox := rest\<rparr>"
  obtain sz t c where m: "meta_open ptr = Done (sz, t, c)"
    using h Cons by (auto simp: handle_msg_from_receiver_def)
  show ?thesis
  proof (cases "t = msg_file_stat")
    case False
    then have "s' = ?rest"
      using h m by (auto simp: handle_msg_from_receiver_def Cons handle_other_def split: if_splits)
    then show ?thesis
      using count_inv_mono [OF inv, of s'] known_cong [of s' s] cover_cong [of C F K new s s'] inv Cons
      by (auto simp: count_inv_def confirmable_def)
  next
    case True
    then obtain fl es s1 where l: "tx_file_list C ptr = Done fl" "fl_files fl = Some es"
      "check_entries es s = Done (Returned r, s1)" "s' = (if r = 1 then s1\<lparr>ck_inbox := rest\<rparr> else s1)"
      using h m by (auto simp: handle_msg_from_receiver_def Cons split: prod.splits)
    have "r = 1"
      using check_entries_result [OF l(3)] r by simp
    moreover have "\<forall>e \<in> set es. f_fino e \<noteq> 0"
      using inv Cons m l(1,2) True by (simp add: count_inv_def status_frame_def)
    ultimately have c: "fc_fresh s1" "known s1 \<subseteq> known s" "confirmable s1 = confirmable s" "ck_inbox s1 = ck_inbox s"
      "\<forall>f c. expected s1 f = Some c \<longrightarrow> expected s f = Some c"
      "\<forall>f c. expected s f = Some c \<longrightarrow> expected s1 f = Some c \<or> (\<exists>e \<in> set es. f_fino e = f \<and> f_crc e = c \<and> f_errno e \<le> 0)"
      using check_entries_count [of es s s1] l(3) inv by (auto simp: count_inv_def)
    have k: "known s' = known s1 \<and> fc_fresh s' = fc_fresh s1 \<and> expected s' = expected s1"
      using l(4) by (intro known_cong) simp_all
    have conf: "confirms C ptr f d" if "\<exists>e \<in> set es. f_fino e = f \<and> f_crc e = d \<and> f_errno e \<le> 0" for f d
      using that m l(1,2) True by (auto simp: confirms_def)
    have inbox: "set (ck_inbox s') \<subseteq> set (ck_inbox s)"
      using l(4) Cons \<open>r = 1\<close> by auto
    have "cover C F K new s'" if "cover C F K new s"
    proof (rule cover_confirm [OF that inbox])
      show "expected s f = Some d" if "expected s' f = Some d" for f d
        using that c(5) k by simp
      show "expected s' f = Some d \<or> confirms C ptr f d" if "expected s f = Some d" for f d
        using that c(6) k conf [of f d] by metis
    qed (simp add: Cons)
    then show ?thesis
      using count_inv_mono [OF inv, of s'] c k l(4) Cons \<open>r = 1\<close> by (auto simp: confirmable_def)
  qed
qed

lemma file_check_count:
  assumes inv: "count_inv C new s" and f: "file_check C b s = Done (Returned 1, s')"
  shows "count_inv C new s' \<and> confirmable s' = confirmable s \<and> (cover C F K new s \<longrightarrow> cover C F K new s')"
proof -
  obtain x s1 where x: "handle_msg_from_receiver C s = Done (x, s1)"
    using f by (auto simp: file_check_def)
  then obtain r where h: "handle_msg_from_receiver C s = Done (Returned r, s1)" "0 \<le> r"
    and s': "s' = s1 \<or> send_file_complete C s1 = Done s'"
    using f by (cases x) (auto simp: file_check_def split: if_splits)
  have "ck_hm s' = ck_hm s1 \<and> ck_fc s' = ck_fc s1 \<and> ck_inbox s' = ck_inbox s1 \<and> ck_files_ok s' = ck_files_ok s1"
    using s' by (auto simp: send_file_complete_def Let_def split: if_splits)
  then show ?thesis
    using handle_count [OF inv h, of F K] known_cong [of s' s1] cover_cong [of C F K new s1 s']
    by (simp add: count_inv_def confirmable_def)
qed

lemma deliver_count:
  assumes inv: "count_inv C (completions [tk] @ rest) s" and fr: "\<forall>frame \<in> set (tk_frames tk). status_frame C frame"
  shows "count_inv C rest (deliver tk s) \<and>
    confirmable (deliver tk s) = confirmable s + length (completions [tk]) \<and>
    (cover C F K (completions [tk] @ rest) s \<longrightarrow> within F K (tk_frames tk) (tk_fcs tk) \<longrightarrow> cover C F K rest (deliver tk s))"
proof -
  define news where "news = crc_reports (tk_fcs tk)"
  have d: "ck_hm (deliver tk s) = ck_hm s" "ck_fc (deliver tk s) = ck_fc s @ news"
    "ck_inbox (deliver tk s) = ck_inbox s @ tk_frames tk" "ck_files_ok (deliver tk s) = ck_files_ok s"
    by (simp_all add: deliver_def fc_worker_eq news_def crc_reports_def)
  have names: "completions [tk] = map fst news"
    by (simp add: completions_def news_def)
  have k: "f \<in> known s \<longleftrightarrow> has_crc (ck_hm s) f \<or> f \<in> fst ` set (ck_fc s)" for f
    by (auto simp: known_def expected_def expects_def map_of_eq_None_iff simp flip: not_None_eq)
  have k': "known (deliver tk s) = known s \<union> fst ` set news"
    by (auto simp: known_def expected_def expects_def d map_of_eq_None_iff simp flip: not_None_eq)
  have dis: "distinct (map fst news)" "set (map fst news) \<inter> known s = {}" "set (map fst news) \<inter> set rest = {}"
    using inv names by (auto simp: count_inv_def)
  have "fc_fresh (deliver tk s)"
    using inv dis k by (auto simp: count_inv_def fc_fresh_def fresh_items_def d)
  moreover have "card (known (deliver tk s)) = card (known s) + length (map fst news)"
    using dis inv distinct_card [OF dis(1)] unfolding k' by (subst card_Un_disjoint) (auto simp: count_inv_def)
  moreover have "cover C F K rest (deliver tk s)"
    if c: "cover C F K (completions [tk] @ rest) s" "set (tk_frames tk) \<subseteq> F" "set news \<subseteq> K" "inj_on fst K"
  proof -
    have old: "expected (deliver tk s) f = Some x" if "expected s f = Some x" for f x
    proof -
      have "f \<in> known s"
        using that by (simp add: known_def)
      then have "f \<notin> fst ` set news"
        using dis(2) by auto
      then show ?thesis
        using that by (auto simp: expected_def expects_def d map_add_def split: option.splits)
    qed
    have origin: "expected s f = Some x \<or> (f, x) \<in> set news" if "expected (deliver tk s) f = Some x" for f x
      using that by (auto simp: expected_def expects_def d map_add_def split: option.splits if_splits dest: map_of_SomeD)
    have new: "expected (deliver tk s) f = Some x" if "(f, x) \<in> K" "f \<in> fst ` set news" for f x
    proof -
      have "f \<in> known (deliver tk s)"
        using that k' by auto
      then obtain y where y: "expected (deliver tk s) f = Some y"
        by (auto simp: known_def)
      then have "(f, y) \<in> K"
        using origin [OF y] c(1,3) by (auto simp: cover_def)
      then show ?thesis
        using y that(1) c(4) by (auto dest: inj_onD [where x = "(f, x)" and y = "(f, y)"])
    qed
    show ?thesis
      unfolding cover_def
    proof (intro conjI allI impI)
      show "set (ck_inbox (deliver tk s)) \<subseteq> F"
        using c(1,2) by (auto simp: cover_def d)
      show "(f, x) \<in> K" if "expected (deliver tk s) f = Some x" for f x
        using origin [OF that] c(1,3) by (auto simp: cover_def)
      show "f \<in> set rest \<or> expected (deliver tk s) f = Some x \<or> (\<exists>frame \<in> F. confirms C frame f x)" if "(f, x) \<in> K" for f x
      proof -
        have "f \<in> fst ` set news \<or> f \<in> set rest \<or> expected s f = Some x \<or> (\<exists>frame \<in> F. confirms C frame f x)"
          using c(1) that names by (auto simp: cover_def)
        then show ?thesis
          using old [of f x] new [OF that] by blast
      qed
    qed
  qed
  ultimately show ?thesis
    using inv dis fr names k' by (auto simp: count_inv_def confirmable_def within_def d news_def)
qed


text \<open>One turn of either loop.\<close>

lemma turn_count:
  assumes "count_inv C (completions [tk] @ rest) s" and "\<forall>frame \<in> set (tk_frames tk). status_frame C frame"
    and "file_check C b (deliver tk s) = Done (Returned 1, s1)"
  shows "count_inv C rest s1 \<and> confirmable s1 = confirmable s + length (completions [tk]) \<and>
    (cover C F K (completions [tk] @ rest) s \<longrightarrow> within F K (tk_frames tk) (tk_fcs tk) \<longrightarrow> cover C F K rest s1)"
proof -
  note d = deliver_count [OF assms(1,2), of F K]
  note f = file_check_count [OF d [THEN conjunct1] assms(3), of F K]
  show ?thesis
    using d f by auto
qed

lemma file_check_result: "file_check C b s = Done (Returned r, s') \<Longrightarrow> r = 0 \<or> r = 1"
proof -
  assume f: "file_check C b s = Done (Returned r, s')"
  then obtain x s1 where "handle_msg_from_receiver C s = Done (x, s1)"
    by (auto simp: file_check_def)
  then show ?thesis
    using f by (cases x) (auto simp: file_check_def split: if_splits)
qed

lemma completions_Cons: "completions (tk # tks) = completions [tk] @ completions tks"
  by (simp add: completions_def)

lemma progress_loop_count:
  assumes "progress_loop C q bt n tks s = Done (Some (tks', s'))" and "count_inv C (completions tks) s"
    and "\<forall>tk \<in> set tks. \<forall>frame \<in> set (tk_frames tk). status_frame C frame"
    and "cover C F K (completions tks) s" and "\<forall>tk \<in> set tks. within F K (tk_frames tk) (tk_fcs tk)"
  shows "count_inv C (completions tks') s' \<and> cover C F K (completions tks') s' \<and> set tks' \<subseteq> set tks \<and>
    confirmable s' + length (completions tks') = confirmable s + length (completions tks)"
  using assms
proof (induction C q bt n tks s rule: progress_loop.induct)
  case (1 C q bt n s)
  then show ?case by (auto split: if_splits)
next
  case (2 C q bt n tk tks s)
  show ?case
  proof (cases q)
    case True
    then show ?thesis using "2.prems" by auto
  next
    case False
    then obtain s1 where s1: "file_check C (tk_time tk) (deliver tk s) = Done (Returned 1, s1)"
      and next1: "if tk_bytes tk \<ge> bt \<or> ck_files_ok s1 \<ge> n then (tks', s') = (tks, s1)
        else progress_loop C q bt n tks s1 = Done (Some (tks', s'))"
      using "2.prems"(1) by (auto split: if_splits)
    have c: "count_inv C (completions tks) s1" "confirmable s1 = confirmable s + length (completions [tk])"
      "cover C F K (completions tks) s1"
      using turn_count [OF "2.prems"(2) [unfolded completions_Cons [of tk tks]] _ s1, of F K]
        "2.prems"(3,4) [unfolded completions_Cons [of tk tks]] "2.prems"(5) by simp_all
    show ?thesis
    proof (cases "tk_bytes tk \<ge> bt \<or> ck_files_ok s1 \<ge> n")
      case True
      then show ?thesis
        using next1 c by (auto simp: completions_Cons [of tk tks])
    next
      case more: False
      then show ?thesis
        using "2.IH" [OF False _ _ more, of "Returned 1"] next1 c "2.prems"(3,5) by (auto simp: completions_Cons [of tk tks])
    qed
  qed
qed

lemma confirm_loop_count:
  assumes "confirm_loop C n tks s = Done (Some (tks', s'))" and "count_inv C (completions tks) s"
    and "\<forall>tk \<in> set tks. \<forall>frame \<in> set (tk_frames tk). status_frame C frame"
    and "cover C F K (completions tks) s" and "\<forall>tk \<in> set tks. within F K (tk_frames tk) (tk_fcs tk)"
  shows "n \<le> ck_files_ok s' \<and> count_inv C (completions tks') s' \<and> cover C F K (completions tks') s' \<and> confirmable s' + length (completions tks') = confirmable s + length (completions tks)"
  using assms
proof (induction C n tks s rule: confirm_loop.induct)
  case (1 C n s)
  then show ?case by (auto split: if_splits)
next
  case (2 C n tk tks s)
  show ?case
  proof (cases "n \<le> ck_files_ok s")
    case True
    then show ?thesis using "2.prems" by auto
  next
    case False
    then obtain r s1 where r: "file_check C (tk_time tk) (deliver tk s) = Done (r, s1)" "r \<noteq> Waiting" "r \<noteq> Returned 0"
      and next1: "confirm_loop C n tks s1 = Done (Some (tks', s'))"
      using "2.prems"(1) by (auto split: if_splits)
    then have s1: "file_check C (tk_time tk) (deliver tk s) = Done (Returned 1, s1)"
      by (cases r) (auto dest!: file_check_result)
    have "count_inv C (completions tks) s1" "confirmable s1 = confirmable s + length (completions [tk])"
      "cover C F K (completions tks) s1"
      using turn_count [OF "2.prems"(2) [unfolded completions_Cons [of tk tks]] _ s1, of F K]
        "2.prems"(3,4) [unfolded completions_Cons [of tk tks]] "2.prems"(5) by simp_all
    then show ?thesis
      using "2.IH" [OF False _ _ next1, of "Returned 1"] "2.prems"(3,5) by (auto simp: completions_Cons [of tk tks])
  qed
qed


subsection \<open>Through the batching loop\<close>

text \<open>A property of the events to come and the state of the checks that every receive loop keeps.\<close>

lemma recv_loop_break: "recv_loop C evs s = Done (Some (evs1, True, s1)) \<Longrightarrow> evs1 = []"
proof (induction C evs s rule: recv_loop.induct)
  case (3 C it evs s)
  then show ?case by (auto simp: Let_def split: if_splits)
qed (auto split: option.splits)

lemma iterate_loop_tx:
  assumes recv: "\<And>evs s evs1 b s1. recv_loop C evs s = Done (Some (evs1, b, s1)) \<Longrightarrow> P evs (bt_tx s) \<Longrightarrow> P evs1 (bt_tx s1)"
    and send: "\<And>evs t frame. P evs t \<Longrightarrow> P evs (t\<lparr>ck_sent := ck_sent t @ [frame]\<rparr>)"
    and loop: "iterate_loop C p d evs s = Done (Some (yss, s'))" and start: "P evs (bt_tx s)"
  shows "P [] (bt_tx s')"
  using loop start
proof (induction "length evs" arbitrary: evs s yss rule: less_induct)
  case less
  obtain evs1 b s1 where r: "recv_loop C evs s = Done (Some (evs1, b, s1))"
    using less.prems(1) by (subst (asm) iterate_loop.simps) (auto split: outcome.splits option.splits prod.splits)
  have P1: "P evs1 (bt_tx s1)"
    by (rule recv [OF r less.prems(2)])
  have shorter: "length evs1 < length evs" if "evs \<noteq> []"
    by (rule recv_loop_shorter [OF r that])
  obtain ys s2 where n: "next_run s1 = (ys, s2)"
    by (cases "next_run s1")
  have P2: "P evs1 (bt_tx s2)"
    using P1 next_run_tx [OF n] by simp
  have P3: "P evs1 (bt_tx s3)" if s3: "send_batch C p d b ys s2 = Done s3" for s3
  proof -
    obtain frame where "s3 = s2\<lparr>bt_tx := (bt_tx s2)\<lparr>ck_sent := ck_sent (bt_tx s2) @ [frame]\<rparr>\<rparr>"
      using s3 by (auto simp: send_batch_def)
    then show ?thesis
      using send [OF P2] by simp
  qed
  have fin: "evs1 = []" if b
    using r that recv_loop_break by simp
  note I = less.prems(1) [unfolded iterate_loop.simps [of C p d evs s] r, simplified]
  show ?case
    using I n P1 P2 P3 fin less.hyps [OF shorter] by (auto split: if_splits)
qed

fun event_frames :: "batch_event \<Rightarrow> u8 list list" where
  "event_frames (Arrival it) = []"
| "event_frames (Quiet frames fcs time_left) = frames"

fun event_fcs :: "batch_event \<Rightarrow> fc_info list" where
  "event_fcs (Arrival it) = []"
| "event_fcs (Quiet frames fcs time_left) = fcs"

definition batch_completions :: "batch_event list \<Rightarrow> fino list" where
  "batch_completions evs = concat (map (\<lambda>ev. map fst (crc_reports (event_fcs ev))) evs)"

lemma batch_completions_simps [simp]:
  "batch_completions [] = []" "batch_completions (Arrival it # evs) = batch_completions evs"
  "batch_completions (Quiet frames fcs b # evs) =
     completions [\<lparr>tk_frames = frames, tk_fcs = fcs, tk_time = b, tk_bytes = 0\<rparr>] @ batch_completions evs"
  by (simp_all add: batch_completions_def completions_def crc_reports_def)

lemma note_name_count: "expected (note_name f n t) = expected t" "known (note_name f n t) = known t" "fc_fresh (note_name f n t) = fc_fresh t"
  "ck_inbox (note_name f n t) = ck_inbox t" "ck_files_ok (note_name f n t) = ck_files_ok t"
proof -
  have h: "has_crc (ck_hm (note_name f n t)) g = has_crc (ck_hm t) g" for g
    by (auto simp: note_name_def has_crc_def split: option.splits)
  have "expected (note_name f n t) = expected t"
  proof
    fix g
    show "expected (note_name f n t) g = expected t g"
      using h [of g]
      by (auto simp: expected_def expects_def) (auto simp: note_name_def has_crc_def split: option.splits)
  qed
  then show "expected (note_name f n t) = expected t" "known (note_name f n t) = known t" "fc_fresh (note_name f n t) = fc_fresh t"
    using h by (simp_all add: known_def fc_fresh_def fresh_items_def) (simp add: note_name_def)
qed (simp_all add: note_name_def)

definition batch_count ::
    "'t codec \<Rightarrow> u8 list set \<Rightarrow> (fino \<times> u32) set \<Rightarrow> fino list \<Rightarrow> nat \<Rightarrow> batch_event list \<Rightarrow> tx_check \<Rightarrow> bool" where
  "batch_count C F K later n evs t \<longleftrightarrow>
     count_inv C (batch_completions evs @ later) t \<and> cover C F K (batch_completions evs @ later) t \<and>
     confirmable t + length (batch_completions evs) = n \<and>
     (\<forall>ev \<in> set evs. (\<forall>frame \<in> set (event_frames ev). status_frame C frame) \<and>
        within F K (event_frames ev) (event_fcs ev))"

lemma batch_count_cong:
  "batch_count C F K later n evs t \<Longrightarrow> expected t' = expected t \<Longrightarrow> fc_fresh t' = fc_fresh t \<Longrightarrow>
   ck_inbox t' = ck_inbox t \<Longrightarrow> ck_files_ok t' = ck_files_ok t \<Longrightarrow> batch_count C F K later n evs t'"
  by (simp add: batch_count_def count_inv_def confirmable_def cover_def known_def)


lemma quiet_check_count:
  assumes "quiet_check C frames fcs b s = Done (Some s1)"
    and "batch_count C F K later n (Quiet frames fcs b # evs) (bt_tx s)"
  shows "batch_count C F K later n evs (bt_tx s1)"
proof -
  let ?tk = "\<lparr>tk_frames = frames, tk_fcs = fcs, tk_time = b, tk_bytes = 0\<rparr>"
  have "file_check C b (deliver ?tk (bt_tx s)) = Done (Returned 1, bt_tx s1)"
    using assms(1) by (auto simp: quiet_check_def Let_def deliver_def split: if_splits)
  then show ?thesis
    using turn_count [of C ?tk "batch_completions evs @ later" "bt_tx s" b "bt_tx s1" F K] assms(2)
    by (auto simp: batch_count_def)
qed

lemma recv_loop_count:
  assumes "recv_loop C evs s = Done (Some (evs1, b, s1))" and "batch_count C F K later n evs (bt_tx s)"
  shows "batch_count C F K later n evs1 (bt_tx s1)"
  using assms
proof (induction C evs s rule: recv_loop.induct)
  case (1 C s)
  then show ?case by simp
next
  case (2 C frames fcs b evs s)
  then show ?case by (auto intro: quiet_check_count)
next
  case (3 C it evs s)
  obtain f name st where it: "it = (f, name, st)"
    by (cases it)
  then have "bt_tx (take_opened it s) = note_name f name (bt_tx s)"
    by (simp add: take_opened_def)
  then have "batch_count C F K later n evs (bt_tx (take_opened it s))"
    using batch_count_cong [of C F K later n evs "bt_tx s", OF _ note_name_count(1,3,4,5)] "3.prems"(2)
    by (simp add: batch_count_def)
  then show ?case
    using "3.IH" "3.prems"(1) by (auto simp: Let_def split: if_splits)
qed

lemma iterate_loop_count:
  assumes "iterate_loop C p d evs s = Done (Some (yss, s'))" and "batch_count C F K later n evs (bt_tx s)"
  shows "count_inv C later (bt_tx s') \<and> cover C F K later (bt_tx s') \<and> confirmable (bt_tx s') = n"
proof -
  have "batch_count C F K later n [] (bt_tx s')"
  proof (rule iterate_loop_tx [where P = "batch_count C F K later n", OF _ _ assms])
    show "batch_count C F K later n evs1 (bt_tx s1)"
      if "recv_loop C evs s = Done (Some (evs1, b, s1))" and "batch_count C F K later n evs (bt_tx s)" for evs s evs1 b s1
      using that by (rule recv_loop_count)
    show "batch_count C F K later n evs (t\<lparr>ck_sent := ck_sent t @ [frame]\<rparr>)" if "batch_count C F K later n evs t" for evs t frame
      using that by (rule batch_count_cong) (simp_all add: known_def expected_def fc_fresh_def)
  qed
  then show ?thesis
    by (simp add: batch_count_def)
qed


section \<open>Claims\<close>

text \<open>The state \<open>escp_sender\<close> starts with.\<close>

definition check_start :: tx_check where
  "check_start =
     \<lparr>ck_hm = Map.empty, ck_files_ok = 0, ck_fc = [], ck_fc2 = [], ck_closed = False, ck_inbox = [], ck_sent = []\<rparr>"

lemma check_start_count:
  "distinct new \<Longrightarrow> count_inv C new check_start \<and> confirmable check_start = 0"
  by (simp add: check_start_def count_inv_def confirmable_def known_def expected_def expects_def has_crc_def
    fc_fresh_def fresh_items_def)

text \<open>All the frames that reach the sender and all the completions its workers report, with the checksums.\<close>

definition run_frames :: "batch_event list \<Rightarrow> tick list \<Rightarrow> u8 list list" where
  "run_frames evs tks = concat (map event_frames evs @ map tk_frames tks)"

definition run_reports :: "batch_event list \<Rightarrow> tick list \<Rightarrow> (fino \<times> u32) list" where
  "run_reports evs tks = concat (map (crc_reports \<circ> event_fcs) evs @ map (crc_reports \<circ> tk_fcs) tks)"

lemma run_reports_names: "map fst (run_reports evs tks) = batch_completions evs @ completions tks"
  by (simp add: run_reports_def batch_completions_def completions_def map_concat comp_def)

lemma check_start_cover: "cover C F (set (run_reports evs tks)) (batch_completions evs @ completions tks) check_start"
proof -
  have "f \<in> set (batch_completions evs @ completions tks)" if "(f, c) \<in> set (run_reports evs tks)" for f c
    using that unfolding run_reports_names [symmetric] by (force simp: image_iff)
  then show ?thesis
    by (auto simp: cover_def check_start_def expected_def expects_def has_crc_def)
qed

lemma run_within:
  assumes "distinct (batch_completions evs @ completions tks)"
  shows "ev \<in> set evs \<Longrightarrow> within (set (run_frames evs tks)) (set (run_reports evs tks)) (event_frames ev) (event_fcs ev)"
    and "tk \<in> set tks \<Longrightarrow> within (set (run_frames evs tks)) (set (run_reports evs tks)) (tk_frames tk) (tk_fcs tk)"
proof -
  have "inj_on fst (set (run_reports evs tks))"
    using assms unfolding run_reports_names [symmetric] by (simp add: distinct_map)
  then show "ev \<in> set evs \<Longrightarrow> within (set (run_frames evs tks)) (set (run_reports evs tks)) (event_frames ev) (event_fcs ev)"
    and "tk \<in> set tks \<Longrightarrow> within (set (run_frames evs tks)) (set (run_reports evs tks)) (tk_frames tk) (tk_fcs tk)"
    by (auto simp: within_def run_frames_def run_reports_def)
qed

text \<open>
  When as many files are confirmed as files completed, no completion is left over: every one was
  confirmed.
\<close>

lemma all_confirmed:
  assumes "count_inv C rest s" and "cover C F K rest s" and "confirmable s + length rest \<le> ck_files_ok s"
    and "(f, c) \<in> K"
  shows "\<exists>frame \<in> F. confirms C frame f c"
proof -
  have "rest = []" "known s = {}"
    using assms(1,3) by (auto simp: confirmable_def count_inv_def)
  then show ?thesis
    using assms(2,4) by (auto simp: cover_def known_def)
qed

text \<open>
  Claim C2. The sender ends a transfer successfully only when it is complete, whenever its own
  workers report no file twice and only files that were opened, and the receiver sends no status
  for file number 0: every opened file was specified to the receiver once, in the order of the
  file numbers; for every opened file the workers reported its completion, with a checksum, and a
  status of the receiver confirmed that file with that checksum and without an error; exactly as
  many confirmations were counted as files were opened; and the end of the session is the last
  message sent.
\<close>

theorem transfer_sound:
  assumes "all_finos (arrivals evs)"
    and "distinct (batch_completions evs @ completions tks)"
    and "set (batch_completions evs @ completions tks) \<subseteq> fst ` set (arrivals evs)"
    and "\<forall>ev \<in> set evs. \<forall>frame \<in> set (event_frames ev). status_frame C frame"
    and "\<forall>tk \<in> set tks. \<forall>frame \<in> set (tk_frames tk). status_frame C frame"
    and "send_files C flags dest_path evs tks frames check_start = Done (Some (yss, s'))"
  shows "map (unat \<circ> fst) (concat yss) = [1..<Suc (length (arrivals evs))] \<and>
    mset (concat yss) = mset (arrivals evs) \<and> ck_files_ok s' = length (arrivals evs) \<and>
    (\<forall>it \<in> set (arrivals evs). \<exists>crc frame. (fst it, crc) \<in> set (run_reports evs tks) \<and>
       frame \<in> set (run_frames evs tks) \<and> confirms C frame (fst it) crc) \<and>
    (\<exists>sent. ck_sent s' = sent @ [send_empty msg_session_complete])"
proof -
  let ?F = "set (run_frames evs tks)" and ?K = "set (run_reports evs tks)"
  obtain b where it: "iterate_loop C (ea_preserve flags) dest_path evs (batch_start check_start) = Done (Some (yss, b))"
    and fin: "end_transfer C flags (bt_bytes_total b) (bt_files_total b) tks frames (bt_tx b) = Done (Some s')"
    using assms(6) by (auto simp: send_files_def split: option.splits)
  obtain tks1 s1 tks2 s2 where p: "progress_loop C (ea_quiet flags) (bt_bytes_total b) (bt_files_total b) tks (bt_tx b)
      = Done (Some (tks1, s1))" and c: "confirm_loop C (bt_files_total b) tks1 s1 = Done (Some (tks2, s2))"
    and s': "finish_session frames s2 = Some s'"
    using fin by (auto simp: end_transfer_def split: if_splits option.splits)
  have inv: "batch_inv (arrivals evs) (concat yss) b" "bt_vec b = []"
    using iterate_loop_inv [OF it batch_inv_start] assms(1) by simp_all
  then have out: "map (unat \<circ> fst) (concat yss) = [1..<Suc (length (arrivals evs))]" "mset (concat yss) = mset (arrivals evs)"
    "bt_files_total b = length (arrivals evs)"
    by (auto simp: batch_inv_def dest: arg_cong [where f = size])
  have "batch_count C ?F ?K (completions tks) (length (batch_completions evs)) evs (bt_tx (batch_start check_start))"
    using check_start_count [OF assms(2), of C] check_start_cover [of C ?F evs tks] assms(4) run_within(1) [OF assms(2)]
    by (simp add: batch_count_def batch_start_def)
  then have b: "count_inv C (completions tks) (bt_tx b)" "cover C ?F ?K (completions tks) (bt_tx b)"
    "confirmable (bt_tx b) = length (batch_completions evs)"
    using iterate_loop_count [OF it] by simp_all
  have q: "count_inv C (completions tks1) s1" "cover C ?F ?K (completions tks1) s1" "set tks1 \<subseteq> set tks"
    "confirmable s1 + length (completions tks1) = length (batch_completions evs @ completions tks)"
    using progress_loop_count [OF p b(1) assms(5) b(2)] run_within(2) [OF assms(2)] b(3) by simp_all
  have r: "bt_files_total b \<le> ck_files_ok s2" "count_inv C (completions tks2) s2" "cover C ?F ?K (completions tks2) s2"
    "confirmable s2 + length (completions tks2) = confirmable s1 + length (completions tks1)"
    using confirm_loop_count [OF c q(1) _ q(2)] q(3) assms(5) run_within(2) [OF assms(2)] by blast+
  have "length (batch_completions evs @ completions tks) \<le> card (fst ` set (arrivals evs))"
    using card_mono [OF _ assms(3)] distinct_card [OF assms(2)] by simp
  also have "\<dots> \<le> length (arrivals evs)"
    by (metis card_image_le card_length finite_set le_trans)
  finally have few: "length (batch_completions evs @ completions tks) \<le> length (arrivals evs)" .
  then have ok: "ck_files_ok s2 = length (arrivals evs)" "confirmable s2 + length (completions tks2) \<le> ck_files_ok s2"
    using r(1,4) q(4) out(3) by (simp_all add: confirmable_def)
  have "card (set (batch_completions evs @ completions tks)) = length (arrivals evs)"
    using distinct_card [OF assms(2)] few ok r(4) q(4) by (simp add: confirmable_def)
  then have all: "set (batch_completions evs @ completions tks) = fst ` set (arrivals evs)"
    using card_seteq [OF _ assms(3)] \<open>card (fst ` set (arrivals evs)) \<le> length (arrivals evs)\<close> by simp
  have conf: "\<exists>crc frame. (fst x, crc) \<in> ?K \<and> frame \<in> ?F \<and> confirms C frame (fst x) crc" if "x \<in> set (arrivals evs)" for x
  proof -
    have "fst x \<in> fst ` ?K"
      using that all unfolding run_reports_names [symmetric] by auto
    then obtain crc where "(fst x, crc) \<in> ?K"
      by auto
    then show ?thesis
      using all_confirmed [OF r(2,3) ok(2)] by blast
  qed
  have "ck_files_ok s' = ck_files_ok s2" "\<exists>sent. ck_sent s' = sent @ [send_empty msg_session_complete]"
    using s' by (auto simp: finish_session_def split: list.splits)
  then show ?thesis
    using out conf ok(1) by simp
qed


text \<open>A transfer of one file.\<close>

definition one_file :: opened where
  "one_file = (1, ''a'', demo_stat)"

definition one_status :: ESCP_file_list where
  "one_status = ESCP_file_listArgs_default\<lparr>fl_files := Some [FileArgs_default\<lparr>f_fino := 1, f_crc := 5\<rparr>], fl_fc_stat := True\<rparr>"

definition one_codec :: "fbpush list codec" where
  "one_codec = copy_codec [ESCP_file_list_create one_status, ESCP_file_list_create (spec_list False ''d'' True [one_file])]"

definition one_tick :: tick where
  "one_tick =
     \<lparr>tk_frames = [meta_frame (to_header 1 msg_file_stat) [0]],
      tk_fcs = [\<lparr>fc_file_no = 1, fc_blocks = 1, fc_crc = 5\<rparr>], tk_time = True, tk_bytes = 0\<rparr>"

lemma one_status_frame: "send_file_stat one_codec 1000 one_status = Done (meta_frame (to_header 1 msg_file_stat) [0])"
  "list_fits one_codec one_status" "codec_laws one_codec" "fl_files one_status = Some [FileArgs_default\<lparr>f_fino := 1, f_crc := 5\<rparr>]"
  by (simp_all add: one_codec_def send_file_stat_def send_compressed_def copy_codec_laws one_status_def)

lemma one_spec_sent: "\<exists>frame. send_file_spec one_codec (spec_list False ''d'' True [one_file]) = Done frame"
proof -
  have "length (file_list_bytes one_codec (spec_list False ''d'' True [one_file])) \<le> 2"
    using short_finish [of "ESCP_file_list_create (spec_list False ''d'' True [one_file])"
      "[ESCP_file_list_create one_status, ESCP_file_list_create (spec_list False ''d'' True [one_file])]"]
    by (simp add: one_codec_def copy_codec_def file_list_bytes_def)
  then show ?thesis
    by (simp add: send_file_spec_def Let_def)
qed

lemma one_listed:
  "\<exists>frame. iterate_loop one_codec False ''d'' [Arrival one_file] (batch_start check_start) =
    Done (Some ([[one_file]], \<lparr>bt_tx = check_start\<lparr>ck_hm := [1 \<mapsto> (-1, ''a'')], ck_sent := [frame]\<rparr>, bt_vec = [],
      bt_files_total = 1, bt_bytes_total = 10, bt_files_sent = 1, bt_counter = 0, bt_counter_max = 8\<rparr>))"
  using one_spec_sent
  by (subst iterate_loop.simps)
    (auto simp: batch_start_def take_opened_def note_name_def check_start_def one_file_def demo_stat_def
      next_run_def send_batch_def)


lemma one_status_read: "tx_file_list one_codec (meta_frame (to_header 1 msg_file_stat) [0]) = Done one_status"
  by (rule error_link.recv_send [OF one_status_frame(3,2,1)])

lemma one_confirmed:
  "\<exists>s1. file_check one_codec True (deliver one_tick (check_start\<lparr>ck_hm := [1 \<mapsto> (-1, ''a'')], ck_sent := [frame]\<rparr>)) =
    Done (Returned 1, s1) \<and> ck_files_ok s1 = 1 \<and> ck_inbox s1 = []"
proof -
  let ?s = "deliver one_tick (check_start\<lparr>ck_hm := [1 \<mapsto> (-1, ''a'')], ck_sent := [frame]\<rparr>)"
  let ?e = "FileArgs_default\<lparr>f_fino := 1, f_crc := 5\<rparr>"
  have "ck_inbox ?s = [meta_frame (to_header 1 msg_file_stat) [0]]"
    by (simp add: deliver_def one_tick_def check_start_def)
  then have "handle_msg_from_receiver one_codec ?s = bind_outcome (check_entries [?e] ?s) (\<lambda>(r, s1).
      Done (r, if r = Returned 1 then s1\<lparr>ck_inbox := []\<rparr> else s1))"
    by (intro handle_status_frame [OF one_status_frame(3,2,4,1)]) simp_all
  moreover have "fc_fresh ?s" "expected ?s 1 = Some 5" "ck_files_ok ?s = 0"
    by (simp_all add: deliver_def one_tick_def check_start_def fc_fresh_def fresh_items_def has_crc_def
      expected_def expects_def)
  then obtain s1 where "check_entry ?e ?s = Done (Confirmed, s1)" "ck_files_ok s1 = 1"
    using check_entry_match [of ?s ?e] by (auto simp: FileArgs_default_def)
  ultimately show ?thesis
    by (simp add: file_check_def)
qed

theorem transfer_sound_witness:
  "\<exists>yss s'. send_files one_codec EScp_Args_default ''d'' [Arrival one_file] [one_tick] [send_empty msg_keepalive] check_start
      = Done (Some (yss, s')) \<and> map (unat \<circ> fst) (concat yss) = [1] \<and> ck_files_ok s' = 1 \<and>
      confirms one_codec (meta_frame (to_header 1 msg_file_stat) [0]) 1 5"
proof -
  have flags: "\<not> ea_preserve EScp_Args_default" "\<not> ea_quiet EScp_Args_default"
    by (simp_all add: EScp_Args_default_def)
  obtain frame where l: "iterate_loop one_codec False ''d'' [Arrival one_file] (batch_start check_start) =
    Done (Some ([[one_file]], \<lparr>bt_tx = check_start\<lparr>ck_hm := [1 \<mapsto> (-1, ''a'')], ck_sent := [frame]\<rparr>, bt_vec = [],
      bt_files_total = 1, bt_bytes_total = 10, bt_files_sent = 1, bt_counter = 0, bt_counter_max = 8\<rparr>))"
    using one_listed by blast
  obtain s1 where c: "file_check one_codec True (deliver one_tick (check_start\<lparr>ck_hm := [1 \<mapsto> (-1, ''a'')], ck_sent := [frame]\<rparr>)) =
    Done (Returned 1, s1)" "ck_files_ok s1 = 1" "ck_inbox s1 = []"
    using one_confirmed by blast
  have time: "tk_time one_tick"
    by (simp add: one_tick_def)
  obtain s' where run: "send_files one_codec EScp_Args_default ''d'' [Arrival one_file] [one_tick] [send_empty msg_keepalive] check_start
      = Done (Some ([[one_file]], s'))"
    using l c time flags by (simp add: send_files_def end_transfer_def finish_session_def)
  have "status_frame one_codec (meta_frame (to_header 1 msg_file_stat) [0])"
    by (simp add: status_frame_def one_status_read one_status_frame(4))
  moreover have "all_finos (arrivals [Arrival one_file])"
    by (simp add: all_finos_def one_file_def)
  moreover have "completions [one_tick] = [1]" "tk_frames one_tick = [meta_frame (to_header 1 msg_file_stat) [0]]"
    by (simp_all add: completions_def one_tick_def crc_reports_def)
  moreover have "arrivals [Arrival one_file] = [one_file]" "fst one_file = 1" "run_frames [Arrival one_file] [one_tick] = tk_frames one_tick"
    "run_reports [Arrival one_file] [one_tick] = [(1, 5)]" "batch_completions [Arrival one_file] = []"
    by (simp_all add: one_file_def run_frames_def run_reports_def crc_reports_def one_tick_def)
  ultimately have "map (unat \<circ> fst) (concat [[one_file]]) = [1..<Suc (length (arrivals [Arrival one_file]))] \<and>
      ck_files_ok s' = 1 \<and> confirms one_codec (meta_frame (to_header 1 msg_file_stat) [0]) 1 5"
    using transfer_sound [OF _ _ _ _ _ run] by simp
  then show ?thesis
    using run by simp
qed

end
