(* ===== verification/Cksum_Log.thy ===== *)
theory Cksum_Log
  imports EScp_Prelude
begin

text \<open>
  \<open>cksum_worker\<close> of \<open>src/escp/receiver.rs\<close>: the thread that writes the block checksums of a session,
  as they are dequeued from the ring of the C workers, into one file per file number below
  \<open>.escp/<session id>\<close>. A record is its file number with its raw bytes. A file is reopened for
  appending whenever the file number changes.
\<close>

section \<open>The worker\<close>

record cksum_state =
  cs_current :: fino
  cs_fd :: "fino option"
  cs_files :: "fino \<Rightarrow> u8 list"

text \<open>What the ring gives: a record, or nothing with the number of finished threads.\<close>

datatype cksum_event = Cksum fino "u8 list" | Empty_ring nat

definition cksum_start :: cksum_state where
  "cksum_start = \<lparr>cs_current = 0, cs_fd = None, cs_files = (\<lambda>_. [])\<rparr>"

definition cksum_write :: "(fino \<Rightarrow> bool) \<Rightarrow> fino \<Rightarrow> u8 list \<Rightarrow> cksum_state \<Rightarrow> cksum_state outcome" where
  "cksum_write can_open f bytes s =
     bind_outcome
       (if f \<noteq> cs_current s
        then if can_open f then Done (s\<lparr>cs_fd := Some f, cs_current := f\<rparr>) else Panicked ''Failed to open''
        else Done s)
       (\<lambda>s1. case cs_fd s1 of
               None \<Rightarrow> Done s1
             | Some g \<Rightarrow> Done (s1\<lparr>cs_files := (cs_files s1)(g := cs_files s1 g @ bytes)\<rparr>))"

text \<open>None: still running at the end of the given events.\<close>

fun cksum_worker :: "(fino \<Rightarrow> bool) \<Rightarrow> nat \<Rightarrow> cksum_event list \<Rightarrow> cksum_state \<Rightarrow> cksum_state option outcome" where
  "cksum_worker can_open thread_count [] s = Done None"
| "cksum_worker can_open thread_count (Cksum f bytes # evs) s =
     bind_outcome (cksum_write can_open f bytes s) (cksum_worker can_open thread_count evs)"
| "cksum_worker can_open thread_count (Empty_ring threads # evs) s =
     (if threads \<ge> thread_count + 1 then Done (Some s) else cksum_worker can_open thread_count evs s)"

section \<open>What the files hold\<close>

text \<open>The records dequeued before the worker ends.\<close>

fun dequeued :: "nat \<Rightarrow> cksum_event list \<Rightarrow> (fino \<times> u8 list) list" where
  "dequeued n [] = []"
| "dequeued n (Cksum f bytes # evs) = (f, bytes) # dequeued n evs"
| "dequeued n (Empty_ring threads # evs) = (if threads \<ge> n + 1 then [] else dequeued n evs)"

fun ends :: "nat \<Rightarrow> cksum_event list \<Rightarrow> bool" where
  "ends n [] = False"
| "ends n (Cksum f bytes # evs) = ends n evs"
| "ends n (Empty_ring threads # evs) = (threads \<ge> n + 1 \<or> ends n evs)"

definition records_of :: "fino \<Rightarrow> (fino \<times> u8 list) list \<Rightarrow> u8 list" where
  "records_of f rs = concat (map snd (filter (\<lambda>r. fst r = f) rs))"

text \<open>The open file is the one of the current file number; only number 0 has none at the start.\<close>

definition cksum_inv :: "cksum_state \<Rightarrow> bool" where
  "cksum_inv s \<longleftrightarrow> cs_fd s = Some (cs_current s) \<or> cs_fd s = None \<and> cs_current s = 0"

lemma cksum_write_spec:
  assumes "cksum_inv s" and "f \<noteq> 0" and "can_open f"
  shows "\<exists>s'. cksum_write can_open f bytes s = Done s' \<and> cksum_inv s' \<and>
    cs_files s' = (cs_files s)(f := cs_files s f @ bytes)"
  using assms by (cases "f = cs_current s") (auto simp: cksum_write_def cksum_inv_def)

lemma cksum_worker_spec:
  assumes "cksum_inv s" and "\<forall>r \<in> set (dequeued n evs). fst r \<noteq> 0 \<and> can_open (fst r)" and "ends n evs"
  shows "\<exists>s'. cksum_worker can_open n evs s = Done (Some s') \<and>
    (\<forall>f. cs_files s' f = cs_files s f @ records_of f (dequeued n evs))"
  using assms
proof (induction n evs arbitrary: s rule: dequeued.induct)
  case (1 n)
  then show ?case by simp
next
  case (2 n f bytes evs)
  then obtain s1 where s1: "cksum_write can_open f bytes s = Done s1" "cksum_inv s1"
    "cs_files s1 = (cs_files s)(f := cs_files s f @ bytes)"
    using cksum_write_spec [of s f can_open bytes] by auto
  then show ?case
    using "2.IH" [OF s1(2)] "2.prems" by (auto simp: records_of_def)
next
  case (3 n threads evs)
  then show ?case by (auto simp: records_of_def)
qed

text \<open>
  The checksum thread ends once the ring is empty and the workers and the listener have
  finished, and each checksum file then holds exactly the records of its file number, in the
  order they were dequeued, however the records of different files alternate.
\<close>

theorem cksum_files_complete:
  assumes "\<forall>r \<in> set (dequeued n evs). fst r \<noteq> 0 \<and> can_open (fst r)" and "ends n evs"
  shows "\<exists>s. cksum_worker can_open n evs cksum_start = Done (Some s) \<and>
    (\<forall>f. cs_files s f = records_of f (dequeued n evs))"
  using cksum_worker_spec [OF _ assms, of cksum_start] by (auto simp: cksum_inv_def cksum_start_def)

theorem cksum_files_complete_witness:
  "\<exists>s. cksum_worker (\<lambda>_. True) 1 [Cksum 3 [1], Cksum 5 [2], Empty_ring 1, Cksum 3 [4], Empty_ring 2] cksum_start = Done (Some s) \<and>
    cs_files s 3 = [1, 4] \<and> cs_files s 5 = [2]"
proof -
  let ?evs = "[Cksum 3 [1], Cksum 5 [2], Empty_ring 1, Cksum 3 [4], Empty_ring 2]"
  obtain s where s: "cksum_worker (\<lambda>_. True) 1 ?evs cksum_start = Done (Some s)"
    "\<And>f. cs_files s f = records_of f (dequeued 1 ?evs)"
    using cksum_files_complete [of 1 ?evs "\<lambda>_. True"] by auto
  have "cs_files s 3 = [1, 4]" "cs_files s 5 = [2]"
    by (simp_all add: s(2) records_of_def)
  then show ?thesis
    using s(1) by blast
qed

end
