(* ===== verification/Fc_Ring.thy ===== *)
theory Fc_Ring
  imports EScp_Prelude
begin

text \<open>
  The queue of completed files between the C workers and the Rust side
  (\<open>libdtn/src/dtn.c\<close>: \<open>fc_push\<close>, \<open>fc_pop\<close>).
\<close>

text \<open>\<open>struct fc_info_struct\<close> of \<open>args.h\<close>, without its padding.\<close>

record fc_info_struct =
  fis_state :: u64
  fis_file_no :: u64
  fis_bytes :: u64
  fis_crc :: u32
  fis_completion :: u32
  fis_blocks :: u64

definition fc_make :: "u64 \<Rightarrow> u64 \<Rightarrow> u64 \<Rightarrow> u32 \<Rightarrow> fc_info_struct" where
  "fc_make file_no bytes blocks crc =
     \<lparr>fis_state = 1, fis_file_no = file_no, fis_bytes = bytes, fis_crc = crc, fis_completion = 4,
      fis_blocks = blocks\<rparr>"

end
