(* ===== verification/Fc_Queue.thy ===== *)
theory Fc_Queue
  imports Fc_Ring "HOL-Library.Sublist"
begin

text \<open>
  The ring behind \<open>fc_push\<close> and \<open>fc_pop\<close> (\<open>libdtn/src/dtn.c\<close>): the I/O workers report completed files,
  one thread of the Rust side (\<open>fc_worker\<close>) takes the reports. Both sides draw a ticket by an addition and then
  wait for the slot of the ticket. Each atomic operation and each copy of a report is a step.
\<close>

section \<open>State and operations\<close>

definition fc_info_cnt :: nat where "fc_info_cnt = 16384"

definition fc_zero :: fc_info_struct where
  "fc_zero = \<lparr>fis_state = 0, fis_file_no = 0, fis_bytes = 0, fis_crc = 0, fis_completion = 0, fis_blocks = 0\<rparr>"

text \<open>A worker in \<open>fc_push\<close> with its report and ticket, and the thread in \<open>fc_pop\<close>.\<close>

datatype fc_pusher =
    Fp_idle
  | Fp_load fc_info_struct nat
  | Fp_wait fc_info_struct nat nat
  | Fp_slot fc_info_struct nat
  | Fp_write fc_info_struct nat

datatype fc_popper =
    Fg_idle
  | Fg_load nat
  | Fg_wait nat nat
  | Fg_slot nat
  | Fg_copy nat
  | Fg_clear nat fc_info_struct

text \<open>\<open>fq_log\<close> are the reports in the order of their tickets, \<open>fq_written\<close> the tickets whose report was copied into the ring.\<close>

record fc_queue =
  fq_slot :: "nat \<Rightarrow> fc_info_struct"
  fq_head :: nat
  fq_tail :: nat
  fq_push :: "nat \<Rightarrow> fc_pusher"
  fq_pop :: fc_popper
  fq_log :: "fc_info_struct list"
  fq_written :: "nat set"
  fq_got :: "fc_info_struct list"

definition fq_start :: fc_queue where
  "fq_start =
     \<lparr>fq_slot = (\<lambda>_. fc_zero), fq_head = 0, fq_tail = 0, fq_push = (\<lambda>_. Fp_idle), fq_pop = Fg_idle, fq_log = [],
      fq_written = {}, fq_got = []\<rparr>"

definition set_push :: "nat \<Rightarrow> fc_pusher \<Rightarrow> fc_queue \<Rightarrow> fc_queue" where
  "set_push i pc s = s\<lparr>fq_push := (fq_push s)(i := pc)\<rparr>"

definition fc_push_begin :: "nat \<Rightarrow> fc_info_struct \<Rightarrow> fc_queue \<Rightarrow> fc_queue" where
  "fc_push_begin i fc s =
     set_push i (Fp_load fc (fq_head s)) (s\<lparr>fq_head := fq_head s + 1, fq_log := fq_log s @ [fc]\<rparr>)"

fun fc_push_step :: "nat \<Rightarrow> fc_queue \<Rightarrow> fc_pusher \<Rightarrow> fc_queue" where
  "fc_push_step i s Fp_idle = s"
| "fc_push_step i s (Fp_load fc k) = set_push i (Fp_wait fc k (fq_tail s)) s"
| "fc_push_step i s (Fp_wait fc k t) =
     (if t + fc_info_cnt \<le> k then set_push i (Fp_load fc k) s else set_push i (Fp_slot fc k) s)"
| "fc_push_step i s (Fp_slot fc k) =
     (if fis_state (fq_slot s (k mod fc_info_cnt)) \<noteq> 0 then s else set_push i (Fp_write fc k) s)"
| "fc_push_step i s (Fp_write fc k) =
     set_push i Fp_idle
       (s\<lparr>fq_slot := (fq_slot s)(k mod fc_info_cnt := fc), fq_written := insert k (fq_written s)\<rparr>)"

fun fc_pop_step :: "fc_queue \<Rightarrow> fc_popper \<Rightarrow> fc_queue" where
  "fc_pop_step s Fg_idle = s\<lparr>fq_tail := fq_tail s + 1, fq_pop := Fg_load (fq_tail s)\<rparr>"
| "fc_pop_step s (Fg_load k) = s\<lparr>fq_pop := Fg_wait k (fq_head s)\<rparr>"
| "fc_pop_step s (Fg_wait k h) = s\<lparr>fq_pop := (if k \<ge> h then Fg_load k else Fg_slot k)\<rparr>"
| "fc_pop_step s (Fg_slot k) =
     (if fis_state (fq_slot s (k mod fc_info_cnt)) = 0 then s else s\<lparr>fq_pop := Fg_copy k\<rparr>)"
| "fc_pop_step s (Fg_copy k) = s\<lparr>fq_pop := Fg_clear k (fq_slot s (k mod fc_info_cnt))\<rparr>"
| "fc_pop_step s (Fg_clear k fc) =
     s\<lparr>fq_slot := (fq_slot s)(k mod fc_info_cnt := fc_zero), fq_pop := Fg_idle, fq_got := fq_got s @ [fc]\<rparr>"

inductive fc_step :: "fc_queue \<Rightarrow> fc_queue \<Rightarrow> bool" where
  fc_begin: "fq_push s i = Fp_idle \<Longrightarrow> fc_step s (fc_push_begin i (fc_make f n b c) s)"
| fc_push: "fc_step s (fc_push_step i s (fq_push s i))"
| fc_pop: "fc_step s (fc_pop_step s (fq_pop s))"

text \<open>The ticket of a worker that has not copied its report yet; nobody laps it while fewer than 16384 tickets follow.\<close>

fun ticket :: "fc_pusher \<Rightarrow> nat option" where
  "ticket Fp_idle = None"
| "ticket (Fp_load fc k) = Some k"
| "ticket (Fp_wait fc k t) = Some k"
| "ticket (Fp_slot fc k) = Some k"
| "ticket (Fp_write fc k) = Some k"

fun report_of :: "fc_pusher \<Rightarrow> fc_info_struct" where
  "report_of Fp_idle = fc_zero"
| "report_of (Fp_load fc k) = fc"
| "report_of (Fp_wait fc k t) = fc"
| "report_of (Fp_slot fc k) = fc"
| "report_of (Fp_write fc k) = fc"

fun pop_ticket :: "fc_popper \<Rightarrow> nat option" where
  "pop_ticket Fg_idle = None"
| "pop_ticket (Fg_load k) = Some k"
| "pop_ticket (Fg_wait k h) = Some k"
| "pop_ticket (Fg_slot k) = Some k"
| "pop_ticket (Fg_copy k) = Some k"
| "pop_ticket (Fg_clear k fc) = Some k"

definition not_lapped :: "fc_queue \<Rightarrow> bool" where
  "not_lapped s \<longleftrightarrow> (\<forall>i k. ticket (fq_push s i) = Some k \<longrightarrow> fq_head s \<le> k + fc_info_cnt)"

definition fc_reach :: "fc_queue \<Rightarrow> bool" where
  "fc_reach = reachable (\<lambda>s. s = fq_start) fc_step"

definition fc_reach_near :: "fc_queue \<Rightarrow> bool" where
  "fc_reach_near = reachable (\<lambda>s. s = fq_start) (\<lambda>s s'. fc_step s s' \<and> not_lapped s')"

section \<open>Invariant\<close>

text \<open>Tickets whose report is in the ring.\<close>

definition in_ring :: "fc_queue \<Rightarrow> nat set" where
  "in_ring s = {k \<in> fq_written s. length (fq_got s) \<le> k}"

definition slots_inv :: "fc_queue \<Rightarrow> bool" where
  "slots_inv s \<longleftrightarrow>
     (\<forall>k \<in> in_ring s. fq_slot s (k mod fc_info_cnt) = fq_log s ! k) \<and>
     (\<forall>x. fis_state (fq_slot s x) \<noteq> 0 \<longrightarrow> (\<exists>k \<in> in_ring s. k mod fc_info_cnt = x)) \<and>
     inj_on (\<lambda>k. k mod fc_info_cnt) (in_ring s)"

definition tickets_inv :: "fc_queue \<Rightarrow> bool" where
  "tickets_inv s \<longleftrightarrow>
     length (fq_log s) = fq_head s \<and> (\<forall>fc \<in> set (fq_log s). fis_state fc \<noteq> 0) \<and> fq_written s \<subseteq> {..<fq_head s} \<and>
     (\<forall>i k. ticket (fq_push s i) = Some k \<longrightarrow>
        k < fq_head s \<and> k \<notin> fq_written s \<and> report_of (fq_push s i) = fq_log s ! k \<and> fq_head s \<le> k + fc_info_cnt) \<and>
     (\<forall>i j k. ticket (fq_push s i) = Some k \<longrightarrow> ticket (fq_push s j) = Some k \<longrightarrow> i = j) \<and>
     (\<forall>k < fq_head s. k \<in> fq_written s \<or> (\<exists>i. ticket (fq_push s i) = Some k))"

definition writers_inv :: "fc_queue \<Rightarrow> bool" where
  "writers_inv s \<longleftrightarrow>
     (\<forall>i fc k. fq_push s i = Fp_write fc k \<longrightarrow> (\<forall>k' \<in> in_ring s. k' mod fc_info_cnt \<noteq> k mod fc_info_cnt))"

fun popper_inv :: "fc_queue \<Rightarrow> fc_popper \<Rightarrow> bool" where
  "popper_inv s Fg_idle = True"
| "popper_inv s (Fg_load k) = True"
| "popper_inv s (Fg_wait k h) = (h \<le> fq_head s)"
| "popper_inv s (Fg_slot k) = (k < fq_head s)"
| "popper_inv s (Fg_copy k) = (k \<in> in_ring s)"
| "popper_inv s (Fg_clear k fc) = (k \<in> in_ring s \<and> fc = fq_log s ! k)"

definition pop_inv :: "fc_queue \<Rightarrow> bool" where
  "pop_inv s \<longleftrightarrow>
     prefix (fq_got s) (fq_log s) \<and> {..<length (fq_got s)} \<subseteq> fq_written s \<and>
     (\<forall>k. pop_ticket (fq_pop s) = Some k \<longrightarrow> k = length (fq_got s)) \<and>
     fq_tail s = length (fq_got s) + (if fq_pop s = Fg_idle then 0 else 1) \<and> popper_inv s (fq_pop s)"

definition fq_inv :: "fc_queue \<Rightarrow> bool" where
  "fq_inv s \<longleftrightarrow> slots_inv s \<and> tickets_inv s \<and> writers_inv s \<and> pop_inv s"

lemma set_push_simps [simp]:
  "fq_slot (set_push i pc s) = fq_slot s" "fq_head (set_push i pc s) = fq_head s" "fq_tail (set_push i pc s) = fq_tail s"
  "fq_push (set_push i pc s) = (fq_push s)(i := pc)" "fq_pop (set_push i pc s) = fq_pop s"
  "fq_log (set_push i pc s) = fq_log s" "fq_written (set_push i pc s) = fq_written s" "fq_got (set_push i pc s) = fq_got s"
  by (simp_all add: set_push_def)

lemma fc_info_cnt_pos [simp]: "0 < fc_info_cnt"
  by (simp add: fc_info_cnt_def)

lemma same_slot_far:
  assumes "a mod n = b mod n" and "a < (b :: nat)"
  shows "a + n \<le> b"
proof -
  have "n dvd b - a"
    using assms by (simp add: mod_eq_dvd_iff_nat [symmetric])
  then show ?thesis
    using assms(2) by (auto dest: dvd_imp_le)
qed

text \<open>A step of a worker that keeps its ticket and report.\<close>

lemma push_wait:
  assumes "fq_inv s" and "ticket pc = ticket (fq_push s i)" and "report_of pc = report_of (fq_push s i)"
    and "\<And>fc k. pc = Fp_write fc k \<Longrightarrow> \<forall>k' \<in> in_ring s. k' mod fc_info_cnt \<noteq> k mod fc_info_cnt"
  shows "fq_inv (set_push i pc s)"
proof -
  have ir: "in_ring (set_push i pc s) = in_ring s"
    by (simp add: in_ring_def)
  have tk: "ticket (((fq_push s)(i := pc)) j) = ticket (fq_push s j)"
    "report_of (((fq_push s)(i := pc)) j) = report_of (fq_push s j)" for j
    using assms(2,3) by simp_all
  have "popper_inv (set_push i pc s) p = popper_inv s p" for p
    by (cases p) (simp_all add: ir)
  then have "pop_inv (set_push i pc s) = pop_inv s"
    by (simp add: pop_inv_def)
  moreover have "slots_inv (set_push i pc s) = slots_inv s"
    by (simp add: slots_inv_def ir)
  moreover have "tickets_inv (set_push i pc s) = tickets_inv s"
    by (simp add: tickets_inv_def tk del: fun_upd_apply)
  moreover have "writers_inv (set_push i pc s)"
    using assms(1,4) by (auto simp: fq_inv_def writers_inv_def ir)
  ultimately show ?thesis
    using assms(1) by (simp add: fq_inv_def)
qed

lemma ticketD:
  assumes "tickets_inv s" and "ticket (fq_push s i) = Some k"
  shows "k < fq_head s" and "k \<notin> fq_written s" and "report_of (fq_push s i) = fq_log s ! k" and "fq_head s \<le> k + fc_info_cnt"
  using assms unfolding tickets_inv_def by blast+

lemma ticket_unique:
  "tickets_inv s \<Longrightarrow> ticket (fq_push s i) = Some k \<Longrightarrow> ticket (fq_push s j) = Some k \<Longrightarrow> i = j"
  unfolding tickets_inv_def by blast

lemma push_begin:
  assumes "fq_inv s" and "fq_push s i = Fp_idle" and "fis_state fc \<noteq> 0" and "not_lapped (fc_push_begin i fc s)"
  shows "fq_inv (fc_push_begin i fc s)"
proof -
  let ?s = "fc_push_begin i fc s"
  have t: "tickets_inv s" "slots_inv s" "pop_inv s" "writers_inv s"
    using assms(1) by (simp_all add: fq_inv_def)
  then have len: "length (fq_log s) = fq_head s" "fq_written s \<subseteq> {..<fq_head s}"
    by (simp_all add: tickets_inv_def)
  have f: "fq_slot ?s = fq_slot s" "fq_head ?s = fq_head s + 1" "fq_push ?s = (fq_push s)(i := Fp_load fc (fq_head s))"
    "fq_log ?s = fq_log s @ [fc]" "fq_written ?s = fq_written s" "fq_got ?s = fq_got s" "fq_pop ?s = fq_pop s"
    "fq_tail ?s = fq_tail s"
    by (simp_all add: fc_push_begin_def)
  have ir: "in_ring ?s = in_ring s"
    by (simp add: in_ring_def f)
  have old: "(fq_log s @ [fc]) ! k = fq_log s ! k" if "k < fq_head s" for k
    using that len(1) by (simp add: nth_append)
  have "k < fq_head s" if "k \<in> in_ring s" for k
    using that len(2) by (auto simp: in_ring_def)
  then have "slots_inv ?s"
    using t(2) old by (simp add: slots_inv_def ir f)
  moreover have "tickets_inv ?s"
  proof -
    have a: "k < fq_head ?s \<and> k \<notin> fq_written ?s \<and> report_of (fq_push ?s j) = fq_log ?s ! k \<and> fq_head ?s \<le> k + fc_info_cnt"
      if "ticket (fq_push ?s j) = Some k" for j k
    proof (cases "j = i")
      case True
      then have "k = fq_head s"
        using that by (simp add: f)
      then show ?thesis
        using True len by (auto simp: f nth_append Suc_le_eq)
    next
      case False
      then have "ticket (fq_push s j) = Some k"
        using that by (simp add: f)
      then have "k < fq_head s" "k \<notin> fq_written s" "report_of (fq_push s j) = fq_log s ! k"
        using t(1) unfolding tickets_inv_def by blast+
      moreover have "fq_head ?s \<le> k + fc_info_cnt"
        using assms(4) that unfolding not_lapped_def by blast
      ultimately show ?thesis
        using False old by (simp add: f)
    qed
    have lt: "k < fq_head s" if "ticket (fq_push s j) = Some k" for j k
      using t(1) that unfolding tickets_inv_def by blast
    have b: "j = j'" if "ticket (fq_push ?s j) = Some k" "ticket (fq_push ?s j') = Some k" for j j' k
    proof (cases "j = i \<or> j' = i")
      case True
      then show ?thesis
        using that lt by (fastforce simp: f split: if_splits)
    next
      case False
      then show ?thesis
        using that by (intro ticket_unique [OF t(1)]) (simp_all add: f)
    qed
    have c: "k \<in> fq_written ?s \<or> (\<exists>j. ticket (fq_push ?s j) = Some k)" if "k < fq_head ?s" for k
    proof (cases "k = fq_head s")
      case True
      then show ?thesis
        by (auto simp: f intro!: exI [of _ i])
    next
      case False
      then have "k \<in> fq_written s \<or> (\<exists>j. ticket (fq_push s j) = Some k)"
        using that t(1) by (simp add: tickets_inv_def f)
      moreover have "ticket (fq_push ?s j) = Some k" if "ticket (fq_push s j) = Some k" for j
        using that assms(2) by (auto simp: f)
      ultimately show ?thesis
        by (auto simp: f(5))
    qed
    show ?thesis
      unfolding tickets_inv_def
    proof (intro conjI allI impI)
      show "length (fq_log ?s) = fq_head ?s" "\<forall>fc \<in> set (fq_log ?s). fis_state fc \<noteq> 0" "fq_written ?s \<subseteq> {..<fq_head ?s}"
        using t(1) assms(3) by (auto simp: tickets_inv_def f)
    qed (use a b c in blast)+
  qed
  moreover have "writers_inv ?s"
    using t(4) by (auto simp: writers_inv_def ir f split: if_splits)
  moreover have "pop_inv ?s"
  proof -
    have "popper_inv ?s p" if "popper_inv s p" for p
      using that old \<open>\<And>k. k \<in> in_ring s \<Longrightarrow> k < fq_head s\<close> by (cases p) (auto simp: ir f)
    then show ?thesis
      using t(3) len(1) by (auto simp: pop_inv_def f)
  qed
  ultimately show ?thesis
    by (simp add: fq_inv_def)
qed

text \<open>Workers without a common ticket do not share a slot.\<close>

lemma pending_apart:
  assumes "tickets_inv s" and "ticket (fq_push s i) = Some k" and "ticket (fq_push s j) = Some l"
    and "k mod fc_info_cnt = l mod fc_info_cnt"
  shows "k = l"
proof -
  have "k < fq_head s" "l < fq_head s" "fq_head s \<le> k + fc_info_cnt" "fq_head s \<le> l + fc_info_cnt"
    using assms(1-3) unfolding tickets_inv_def by blast+
  then show ?thesis
    using same_slot_far [of k fc_info_cnt l] same_slot_far [of l fc_info_cnt k] assms(4) by linarith
qed

lemma push_write:
  assumes "fq_inv s" and "fq_push s i = Fp_write fc k"
  shows "fq_inv (fc_push_step i s (Fp_write fc k))"
proof -
  let ?s = "fc_push_step i s (Fp_write fc k)"
  have t: "tickets_inv s" "slots_inv s" "pop_inv s" "writers_inv s"
    using assms(1) by (simp_all add: fq_inv_def)
  have tk: "ticket (fq_push s i) = Some k"
    by (simp add: assms(2))
  note k = ticketD [OF t(1) tk]
  have free: "\<forall>k' \<in> in_ring s. k' mod fc_info_cnt \<noteq> k mod fc_info_cnt"
    using t(4) assms(2) unfolding writers_inv_def by blast
  have f: "fq_slot ?s = (fq_slot s)(k mod fc_info_cnt := fc)" "fq_head ?s = fq_head s" "fq_push ?s = (fq_push s)(i := Fp_idle)"
    "fq_log ?s = fq_log s" "fq_written ?s = insert k (fq_written s)" "fq_got ?s = fq_got s" "fq_pop ?s = fq_pop s"
    "fq_tail ?s = fq_tail s"
    by simp_all
  have "{..<length (fq_got s)} \<subseteq> fq_written s"
    using t(3) by (simp add: pop_inv_def)
  then have "length (fq_got s) \<le> k"
    using k(2) by (meson lessThan_iff not_le subsetD)
  then have ir: "in_ring ?s = insert k (in_ring s)"
    unfolding in_ring_def f by auto
  have "slots_inv ?s"
    using t(2) free k(3) assms(2) unfolding slots_inv_def ir f
    by (auto simp: inj_on_insert)
  moreover have "tickets_inv ?s"
    unfolding tickets_inv_def
  proof (intro conjI allI impI)
    show "length (fq_log ?s) = fq_head ?s" "\<forall>fc \<in> set (fq_log ?s). fis_state fc \<noteq> 0" "fq_written ?s \<subseteq> {..<fq_head ?s}"
      using t(1) k(1) by (simp_all add: tickets_inv_def)
    show "j = j'" if "ticket (fq_push ?s j) = Some l" "ticket (fq_push ?s j') = Some l" for j j' l
      using that by (intro ticket_unique [OF t(1)]) (simp_all add: f split: if_splits)
    show "l \<in> fq_written ?s \<or> (\<exists>j. ticket (fq_push ?s j) = Some l)" if "l < fq_head ?s" for l
    proof -
      have "l \<in> fq_written s \<or> (\<exists>j. ticket (fq_push s j) = Some l)"
        using that t(1) unfolding tickets_inv_def f by blast
      then show ?thesis
        using tk unfolding f by (metis fun_upd_other insert_iff option.inject)
    qed
    fix j l assume j: "ticket (fq_push ?s j) = Some l"
    then have "j \<noteq> i" and l: "ticket (fq_push s j) = Some l"
      by (auto simp: f split: if_splits)
    then have "l \<noteq> k"
      using t(1) tk unfolding tickets_inv_def by blast
    with ticketD [OF t(1) l] \<open>j \<noteq> i\<close> show "l < fq_head ?s" "l \<notin> fq_written ?s" "report_of (fq_push ?s j) = fq_log ?s ! l"
      "fq_head ?s \<le> l + fc_info_cnt"
      by simp_all
  qed
  moreover have "writers_inv ?s"
    unfolding writers_inv_def ir
  proof (intro allI impI ballI)
    fix j r l k' assume j: "fq_push ?s j = Fp_write r l" and k': "k' \<in> insert k (in_ring s)"
    then have "j \<noteq> i" and old: "fq_push s j = Fp_write r l"
      by (auto simp: f split: if_splits)
    have "l \<noteq> k"
      using t(1) tk old \<open>j \<noteq> i\<close> unfolding tickets_inv_def by (metis ticket.simps(5))
    then have "k mod fc_info_cnt \<noteq> l mod fc_info_cnt"
      using pending_apart [OF t(1) tk, of j l] old by auto
    then show "k' mod fc_info_cnt \<noteq> l mod fc_info_cnt"
      using k' t(4) old unfolding writers_inv_def by blast
  qed
  moreover have "popper_inv ?s p" if "popper_inv s p" for p
    using that by (cases p) (simp_all add: ir del: fc_push_step.simps, simp_all)
  then have "pop_inv ?s"
    using t(3) unfolding pop_inv_def f by auto
  ultimately show ?thesis
    by (simp add: fq_inv_def)
qed

lemma push_step:
  assumes "fq_inv s"
  shows "fq_inv (fc_push_step i s (fq_push s i))"
proof (cases "fq_push s i")
  case (Fp_slot fc k)
  have "\<forall>k' \<in> in_ring s. k' mod fc_info_cnt \<noteq> k mod fc_info_cnt" if z: "fis_state (fq_slot s (k mod fc_info_cnt)) = 0"
  proof (intro ballI notI)
    fix k' assume k': "k' \<in> in_ring s" "k' mod fc_info_cnt = k mod fc_info_cnt"
    then have "fq_slot s (k mod fc_info_cnt) = fq_log s ! k'" "k' < length (fq_log s)"
      using assms by (auto simp: fq_inv_def slots_inv_def tickets_inv_def in_ring_def)
    then show False
      using z assms by (simp add: fq_inv_def tickets_inv_def)
  qed
  then show ?thesis
    using assms Fp_slot by (auto intro!: push_wait)
next
  case (Fp_write fc k)
  then show ?thesis
    using push_write [OF assms Fp_write] by simp
qed (use assms in \<open>auto intro!: push_wait\<close>)

subsection \<open>The reader\<close>

lemma pop_frame:
  assumes "fq_inv s" and "pop_ticket p = Some (length (fq_got s))" and "fq_pop s \<noteq> Fg_idle" and "popper_inv s p"
  shows "fq_inv (s\<lparr>fq_pop := p\<rparr>)"
proof -
  let ?s = "s\<lparr>fq_pop := p\<rparr>"
  have ir: "in_ring ?s = in_ring s"
    by (simp add: in_ring_def)
  have "popper_inv ?s p"
    using assms(4) by (cases p) (simp_all add: in_ring_def)
  then show ?thesis
    using assms(1-3) by (auto simp: fq_inv_def slots_inv_def tickets_inv_def writers_inv_def pop_inv_def ir)
qed

text \<open>The report in the slot of the reader's ticket is the one of that ticket.\<close>

lemma popped_ticket:
  assumes "fq_inv s" and "k = length (fq_got s)" and "k < fq_head s" and "fis_state (fq_slot s (k mod fc_info_cnt)) \<noteq> 0"
  shows "k \<in> in_ring s"
proof -
  obtain l where l: "l \<in> in_ring s" "l mod fc_info_cnt = k mod fc_info_cnt"
    using assms(1,4) by (auto simp: fq_inv_def slots_inv_def)
  then have le: "k \<le> l" "l < fq_head s"
    using assms(1,2) by (auto simp: in_ring_def fq_inv_def tickets_inv_def)
  have t: "tickets_inv s"
    using assms(1) by (simp add: fq_inv_def)
  have "k \<in> fq_written s"
  proof (rule ccontr)
    assume "k \<notin> fq_written s"
    then obtain i where i: "ticket (fq_push s i) = Some k"
      using t assms(3) unfolding tickets_inv_def by blast
    have "l \<noteq> k"
      using l(1) \<open>k \<notin> fq_written s\<close> by (auto simp: in_ring_def)
    then have "k + fc_info_cnt \<le> l"
      using same_slot_far [of k fc_info_cnt l] l(2) le(1) by simp
    then show False
      using ticketD(4) [OF t i] le(2) by simp
  qed
  then show ?thesis
    using assms(2) by (simp add: in_ring_def)
qed

lemma pop_clear:
  assumes "fq_inv s" and "fq_pop s = Fg_clear k fc"
  shows "fq_inv (fc_pop_step s (Fg_clear k fc))"
proof -
  let ?s = "fc_pop_step s (Fg_clear k fc)"
  have t: "tickets_inv s" "slots_inv s" "pop_inv s" "writers_inv s"
    using assms(1) by (simp_all add: fq_inv_def)
  have k: "k = length (fq_got s)" "k \<in> in_ring s" "fc = fq_log s ! k" "fq_tail s = Suc k"
    using t(3) unfolding pop_inv_def assms(2) by auto
  have f: "fq_slot ?s = (fq_slot s)(k mod fc_info_cnt := fc_zero)" "fq_head ?s = fq_head s" "fq_push ?s = fq_push s"
    "fq_log ?s = fq_log s" "fq_written ?s = fq_written s" "fq_got ?s = fq_got s @ [fc]" "fq_pop ?s = Fg_idle"
    "fq_tail ?s = fq_tail s"
    by simp_all
  have ir: "in_ring ?s = in_ring s - {k}"
    using k(1) unfolding in_ring_def f by auto
  have other: "l mod fc_info_cnt \<noteq> k mod fc_info_cnt" if "l \<in> in_ring s" "l \<noteq> k" for l
    using t(2) that k(2) unfolding slots_inv_def inj_on_def by blast
  have "slots_inv ?s"
    unfolding slots_inv_def ir f
  proof (intro conjI ballI allI impI)
    show "((fq_slot s)(k mod fc_info_cnt := fc_zero)) (l mod fc_info_cnt) = fq_log s ! l" if "l \<in> in_ring s - {k}" for l
      using that other t(2) by (simp add: slots_inv_def)
    show "\<exists>l \<in> in_ring s - {k}. l mod fc_info_cnt = x" if "fis_state (((fq_slot s)(k mod fc_info_cnt := fc_zero)) x) \<noteq> 0" for x
    proof -
      have "x \<noteq> k mod fc_info_cnt" "fis_state (fq_slot s x) \<noteq> 0"
        using that by (auto simp: fc_zero_def split: if_splits)
      then show ?thesis
        using t(2) unfolding slots_inv_def by blast
    qed
    show "inj_on (\<lambda>k. k mod fc_info_cnt) (in_ring s - {k})"
      using t(2) by (auto simp: slots_inv_def inj_on_def)
  qed
  moreover have "tickets_inv ?s"
    using t(1) by (simp add: tickets_inv_def)
  moreover have "writers_inv ?s"
    using t(4) unfolding writers_inv_def ir f by blast
  moreover have "k < length (fq_log s)" and w: "k \<in> fq_written s"
    using k(2) t(1) by (auto simp: in_ring_def tickets_inv_def)
  then have "prefix (fq_got s @ [fc]) (fq_log s)"
    using append_one_prefix [of "fq_got s" "fq_log s"] t(3) k(1,3) by (simp add: pop_inv_def)
  moreover have "{..<length (fq_got s @ [fc])} \<subseteq> fq_written s"
    using t(3) w k(1) by (auto simp: pop_inv_def less_Suc_eq)
  ultimately have "pop_inv ?s"
    using k(1,4) by (simp add: pop_inv_def)
  with \<open>slots_inv ?s\<close> \<open>tickets_inv ?s\<close> \<open>writers_inv ?s\<close> show ?thesis
    by (simp add: fq_inv_def)
qed

lemma pop_step:
  assumes "fq_inv s"
  shows "fq_inv (fc_pop_step s (fq_pop s))"
proof -
  have p: "pop_inv s"
    using assms by (simp add: fq_inv_def)
  show ?thesis
  proof (cases "fq_pop s")
    case Fg_idle
    let ?s = "s\<lparr>fq_tail := fq_tail s + 1, fq_pop := Fg_load (fq_tail s)\<rparr>"
    have ir: "in_ring ?s = in_ring s"
      by (simp add: in_ring_def)
    have "slots_inv ?s = slots_inv s" "tickets_inv ?s = tickets_inv s" "writers_inv ?s = writers_inv s"
      by (simp_all add: slots_inv_def tickets_inv_def writers_inv_def in_ring_def)
    moreover have "pop_inv ?s"
      using p Fg_idle by (simp add: pop_inv_def)
    ultimately show ?thesis
      using assms Fg_idle by (simp add: fq_inv_def)
  next
    case (Fg_slot k)
    then have "fq_inv (s\<lparr>fq_pop := Fg_copy k\<rparr>)" if "fis_state (fq_slot s (k mod fc_info_cnt)) \<noteq> 0"
      using p popped_ticket [OF assms _ _ that] by (intro pop_frame [OF assms]) (auto simp: pop_inv_def)
    then show ?thesis
      using assms Fg_slot by auto
  next
    case (Fg_copy k)
    then have "k \<in> in_ring s" "k = length (fq_got s)"
      using p by (auto simp: pop_inv_def)
    moreover from this(1) have "fq_slot s (k mod fc_info_cnt) = fq_log s ! k"
      using assms by (simp add: fq_inv_def slots_inv_def)
    ultimately show ?thesis
      using Fg_copy by (auto intro!: pop_frame [OF assms])
  next
    case (Fg_clear k fc)
    then show ?thesis
      using pop_clear [OF assms Fg_clear] by simp
  qed (use p in \<open>auto intro!: pop_frame [OF assms] simp: pop_inv_def\<close>)
qed

lemma fq_inv_start: "fq_inv fq_start"
  by (simp add: fq_inv_def slots_inv_def tickets_inv_def writers_inv_def pop_inv_def fq_start_def in_ring_def fc_zero_def)

lemma fc_step_inv: "fc_step s s' \<Longrightarrow> not_lapped s' \<Longrightarrow> fq_inv s \<Longrightarrow> fq_inv s'"
  by (induction rule: fc_step.induct) (auto intro: push_begin push_step pop_step simp: fc_make_def)

interpretation fc_run: step_system "\<lambda>s. s = fq_start" "\<lambda>s s'. fc_step s s' \<and> not_lapped s'" fq_inv
  by unfold_locales (auto simp: fq_inv_start intro: fc_step_inv)

section \<open>Runs\<close>

lemma fc_reach_step: "fc_reach s \<Longrightarrow> fc_step s s' \<Longrightarrow> fc_reach s'"
  unfolding fc_reach_def by (rule reachable.reachable_step)

lemma near_step: "fc_reach_near s \<Longrightarrow> fc_step s s' \<Longrightarrow> not_lapped s' \<Longrightarrow> fc_reach_near s'"
  unfolding fc_reach_near_def by (blast intro: reachable.reachable_step)

text \<open>An undisturbed \<open>fc_push\<close>, up to the copy.\<close>

definition drawn_ticket :: "nat \<Rightarrow> fc_info_struct \<Rightarrow> fc_pusher \<Rightarrow> fc_queue \<Rightarrow> fc_queue" where
  "drawn_ticket i fc pc s = s\<lparr>fq_head := fq_head s + 1, fq_log := fq_log s @ [fc], fq_push := (fq_push s)(i := pc)\<rparr>"

lemma push_steps:
  assumes "fq_push s i = Fp_idle" and "fq_head s < fq_tail s + fc_info_cnt"
    and "fis_state (fq_slot s (fq_head s mod fc_info_cnt)) = 0" and "fc = fc_make f n b c"
  shows "fc_step s (drawn_ticket i fc (Fp_load fc (fq_head s)) s)"
    and "fc_step (drawn_ticket i fc (Fp_load fc (fq_head s)) s) (drawn_ticket i fc (Fp_wait fc (fq_head s) (fq_tail s)) s)"
    and "fc_step (drawn_ticket i fc (Fp_wait fc (fq_head s) (fq_tail s)) s) (drawn_ticket i fc (Fp_slot fc (fq_head s)) s)"
    and "fc_step (drawn_ticket i fc (Fp_slot fc (fq_head s)) s) (drawn_ticket i fc (Fp_write fc (fq_head s)) s)"
proof -
  let ?d = "\<lambda>pc. drawn_ticket i fc pc s"
  show "fc_step s (?d (Fp_load fc (fq_head s)))"
    using fc_begin [of s i f n b c] assms(1,4) by (simp add: fc_push_begin_def drawn_ticket_def set_push_def)
  have step: "fc_step (?d pc) (?d pc')" if "fc_push_step i (?d pc) pc = ?d pc'" for pc pc'
    using fc_push [of "?d pc" i] that by (simp add: drawn_ticket_def)
  show "fc_step (?d (Fp_load fc (fq_head s))) (?d (Fp_wait fc (fq_head s) (fq_tail s)))"
    "fc_step (?d (Fp_wait fc (fq_head s) (fq_tail s))) (?d (Fp_slot fc (fq_head s)))"
    "fc_step (?d (Fp_slot fc (fq_head s))) (?d (Fp_write fc (fq_head s)))"
    using assms(2,3) by (intro step; simp add: drawn_ticket_def set_push_def)+
qed

lemma run_drawn:
  assumes "fc_reach s" and "fq_push s i = Fp_idle" and "fq_head s < fq_tail s + fc_info_cnt"
    and "fis_state (fq_slot s (fq_head s mod fc_info_cnt)) = 0" and "fc = fc_make f n b c"
  shows "fc_reach (drawn_ticket i fc (Fp_write fc (fq_head s)) s)"
  using push_steps [OF assms(2-5)] assms(1) by (blast intro: fc_reach_step)

lemma run_push:
  assumes "fc_reach s" and "fq_push s i = Fp_idle" and "fq_head s < fq_tail s + fc_info_cnt"
    and "fis_state (fq_slot s (fq_head s mod fc_info_cnt)) = 0" and "fc = fc_make f n b c"
  shows "fc_reach (s\<lparr>fq_head := fq_head s + 1, fq_log := fq_log s @ [fc],
    fq_slot := (fq_slot s)(fq_head s mod fc_info_cnt := fc), fq_written := insert (fq_head s) (fq_written s)\<rparr>)"
    (is "fc_reach ?s")
proof -
  let ?d = "drawn_ticket i fc (Fp_write fc (fq_head s)) s"
  have "fc_push_step i ?d (fq_push ?d i) = ?s"
    using assms(2) by (simp add: drawn_ticket_def set_push_def fun_upd_idem)
  then show ?thesis
    using fc_reach_step [OF run_drawn [OF assms] fc_push [of ?d i]] by simp
qed

text \<open>Worker 0 is about to copy the first report while worker 1 goes on to draw \<open>n\<close> tickets.\<close>

definition stalled :: "nat \<Rightarrow> fc_queue \<Rightarrow> bool" where
  "stalled n s \<longleftrightarrow>
     fc_reach s \<and> fq_push s = (\<lambda>_. Fp_idle)(0 := Fp_write (fc_make 1 0 0 0) 0) \<and> fq_head s = n \<and> fq_tail s = 0 \<and>
     length (fq_log s) = n \<and> fq_pop s = Fg_idle \<and> fq_got s = [] \<and> fq_slot s 0 = fc_zero \<and>
     (\<forall>x \<ge> n. fq_slot s x = fc_zero) \<and> (\<forall>x. fis_file_no (fq_slot s x) \<noteq> 3)"

lemma stalled_run: "1 \<le> n \<Longrightarrow> n \<le> fc_info_cnt \<Longrightarrow> \<exists>s. stalled n s"
proof (induction n rule: dec_induct)
  case base
  have "fc_reach fq_start"
    unfolding fc_reach_def by (rule reachable.reachable_start) simp
  then have "fc_reach (drawn_ticket 0 (fc_make 1 0 0 0) (Fp_write (fc_make 1 0 0 0) (fq_head fq_start)) fq_start)"
    by (intro run_drawn) (auto simp: fq_start_def fc_zero_def)
  then have "stalled 1 (drawn_ticket 0 (fc_make 1 0 0 0) (Fp_write (fc_make 1 0 0 0) (fq_head fq_start)) fq_start)"
    by (simp add: stalled_def) (simp add: drawn_ticket_def fq_start_def fc_zero_def)
  then show ?case
    by blast
next
  case (step n)
  then obtain s where s: "stalled n s" and n: "n < fc_info_cnt"
    by auto
  note st = s [unfolded stalled_def]
  let ?s = "s\<lparr>fq_head := fq_head s + 1, fq_log := fq_log s @ [fc_make 2 0 0 0],
    fq_slot := (fq_slot s)(fq_head s mod fc_info_cnt := fc_make 2 0 0 0), fq_written := insert (fq_head s) (fq_written s)\<rparr>"
  have "fc_reach ?s"
    by (rule run_push [where i = 1]) (use st n in \<open>simp_all add: fc_zero_def\<close>)
  then have "stalled (Suc n) ?s"
    using st n step(1) by (simp add: stalled_def fc_make_def)
  then show ?case
    by blast
qed

section \<open>Properties\<close>

text \<open>
  Claim C23. While no worker is overtaken by 16384 others between drawing its ticket and copying its report,
  the ring hands over the reports in the order of their tickets, each exactly once and unchanged, and a
  report that was copied into the ring is there when the reader comes to its ticket.
\<close>

theorem fc_ring_fifo:
  assumes "fc_reach_near s"
  shows "prefix (fq_got s) (fq_log s) \<and>
    (\<forall>k. fq_pop s = Fg_slot k \<and> k \<in> fq_written s \<longrightarrow> fc_pop_step s (Fg_slot k) = s\<lparr>fq_pop := Fg_copy k\<rparr> \<and>
       fq_slot s (k mod fc_info_cnt) = fq_log s ! k)"
proof -
  have inv: "slots_inv s" "tickets_inv s" "pop_inv s"
    using fc_run.reachable_inv [OF assms [unfolded fc_reach_near_def]] by (simp_all add: fq_inv_def)
  have "fis_state (fq_slot s (k mod fc_info_cnt)) \<noteq> 0 \<and> fq_slot s (k mod fc_info_cnt) = fq_log s ! k"
    if k: "fq_pop s = Fg_slot k" "k \<in> fq_written s" for k
  proof -
    have "k \<in> in_ring s"
      using inv(3) k by (simp add: pop_inv_def in_ring_def)
    then have "fq_slot s (k mod fc_info_cnt) = fq_log s ! k"
      using inv(1) by (simp add: slots_inv_def)
    moreover have "k < length (fq_log s)"
      using inv(2) k(2) by (auto simp: tickets_inv_def)
    then have "fis_state (fq_log s ! k) \<noteq> 0"
      using inv(2) by (simp add: tickets_inv_def)
    ultimately show ?thesis
      by simp
  qed
  then have "fc_pop_step s (Fg_slot k) = s\<lparr>fq_pop := Fg_copy k\<rparr> \<and> fq_slot s (k mod fc_info_cnt) = fq_log s ! k"
    if "fq_pop s = Fg_slot k" "k \<in> fq_written s" for k
    using that by (metis fc_pop_step.simps(4))
  moreover have "prefix (fq_got s) (fq_log s)"
    using inv(3) by (simp add: pop_inv_def)
  ultimately show ?thesis
    by blast
qed

theorem fc_ring_fifo_witness:
  "\<exists>s. fc_reach_near s \<and> fq_pop s = Fg_slot 0 \<and> 0 \<in> fq_written s \<and> fq_slot s 0 = fc_make 5 0 0 0"
proof -
  let ?fc = "fc_make 5 0 0 0"
  let ?d = "\<lambda>pc. drawn_ticket 0 ?fc pc fq_start"
  let ?w = "fc_push_step 0 (?d (Fp_write ?fc 0)) (Fp_write ?fc 0)"
  have "fc_reach_near fq_start"
    unfolding fc_reach_near_def by (rule reachable.reachable_start) simp
  moreover have z: "fq_push fq_start 0 = Fp_idle" "fq_head fq_start = 0" "fq_tail fq_start = 0"
    "fis_state (fq_slot fq_start (fq_head fq_start mod fc_info_cnt)) = 0"
    by (simp_all add: fq_start_def fc_zero_def)
  have near: "not_lapped (?d pc)" if "ticket pc = Some 0" for pc
    using that by (simp add: not_lapped_def drawn_ticket_def fq_start_def Suc_le_eq)
  note steps = push_steps [of fq_start 0, OF z(1) _ z(4) refl, of 5 0 0 0, unfolded z]
  ultimately have "fc_reach_near (?d (Fp_write ?fc 0))"
    using near_step near steps by (metis add_0 fc_info_cnt_pos ticket.simps(2-5))
  moreover have "fq_push (?d (Fp_write ?fc 0)) 0 = Fp_write ?fc 0"
    by (simp add: drawn_ticket_def)
  ultimately have r1: "fc_reach_near ?w"
    using near_step [of "?d (Fp_write ?fc 0)" ?w] fc_push [of "?d (Fp_write ?fc 0)" 0]
    by (simp add: not_lapped_def drawn_ticket_def fq_start_def)
  define t1 where "t1 = fc_pop_step ?w Fg_idle"
  define t2 where "t2 = fc_pop_step t1 (Fg_load 0)"
  define t3 where "t3 = fc_pop_step t2 (Fg_wait 0 1)"
  note defs = t1_def t2_def t3_def drawn_ticket_def fq_start_def set_push_def
  have "fc_step ?w t1" "fc_step t1 t2" "fc_step t2 t3"
    using fc_pop [of ?w] fc_pop [of t1] fc_pop [of t2] by (simp_all add: defs)
  moreover have "not_lapped t1" "not_lapped t2" "not_lapped t3"
    by (simp_all add: not_lapped_def defs)
  ultimately have r: "fc_reach_near t3"
    using r1 near_step by blast
  have t3: "fq_pop t3 = Fg_slot 0" "0 \<in> fq_written t3" "fq_log t3 = [?fc]"
    by (simp_all add: defs)
  then show ?thesis
    using r fc_ring_fifo [OF r] by auto
qed

text \<open>
  Without that the ring loses a report: the ticket of the reader is counted before it has
  its report, so a worker 16384 tickets behind a stalled one may use the same slot, and the copy of the
  stalled worker overwrites its report. No slot and no worker holds the report of file 3 any more, and it was not read.
\<close>

theorem fc_lapped_report_lost:
  "\<exists>s. fc_reach s \<and> fc_info_cnt \<in> fq_written s \<and> fis_file_no (fq_log s ! fc_info_cnt) = 3 \<and> fq_got s = [] \<and>
     (\<forall>i. fq_push s i = Fp_idle) \<and> fq_pop s = Fg_load 0 \<and> (\<forall>x. fis_file_no (fq_slot s x) \<noteq> 3)"
proof -
  obtain s where s: "stalled fc_info_cnt s"
    using stalled_run [of fc_info_cnt] by (auto simp: Suc_le_eq)
  note st = s [unfolded stalled_def]
  define s1 where "s1 = fc_pop_step s Fg_idle"
  have r1: "fc_reach s1"
    using st fc_reach_step [of s s1] fc_pop [of s] by (simp add: s1_def)
  define s2 where "s2 = s1\<lparr>fq_head := fq_head s1 + 1, fq_log := fq_log s1 @ [fc_make 3 0 0 0],
    fq_slot := (fq_slot s1)(fq_head s1 mod fc_info_cnt := fc_make 3 0 0 0), fq_written := insert (fq_head s1) (fq_written s1)\<rparr>"
  have r2: "fc_reach s2"
    unfolding s2_def by (rule run_push [OF r1, where i = 1]) (use st in \<open>simp_all add: s1_def fc_zero_def\<close>)
  let ?s = "fc_push_step 0 s2 (Fp_write (fc_make 1 0 0 0) 0)"
  have "fq_push s2 0 = Fp_write (fc_make 1 0 0 0) 0"
    using st by (simp add: s2_def s1_def)
  then have "fc_reach ?s"
    using fc_reach_step [OF r2 fc_push [of s2 0]] by simp
  moreover have "fis_file_no (fq_slot ?s x) \<noteq> 3" for x
    using st by (simp add: s2_def s1_def fc_make_def)
  moreover have "fc_info_cnt \<in> fq_written ?s" "fis_file_no (fq_log ?s ! fc_info_cnt) = 3" "fq_got ?s = []"
    "\<forall>i. fq_push ?s i = Fp_idle" "fq_pop ?s = Fg_load 0"
    using st by (simp_all add: s2_def s1_def nth_append fc_make_def)
  ultimately show ?thesis
    by blast
qed

end
