(* ===== verification/File_Blocks.thy ===== *)
theory File_Blocks
  imports Stat_Table "HOL-Library.Multiset"
begin

text \<open>
  Contents of files and the blocks they travel in (\<open>libdtn/src/engine_posix.c\<close>:
  \<open>file_posixsubmit\<close>, \<open>file_posixtruncate\<close>; \<open>libdtn/src/dtn.c\<close>: the block header of
  \<open>submit_work\<close> and the padding of \<open>rx_worker\<close>). A file is the list of its bytes; \<open>pread\<close>,
  \<open>pwrite\<close> and \<open>ftruncate\<close> are the functions on it that POSIX describes for a regular file. The
  receiver rounds every write up to 4096 bytes and writes what its buffer happens to hold
  behind the data.

  The main lemma says when a set of written blocks gives the file back: in any order, if the
  block size is a multiple of 4096. Otherwise the padding of a block covers the start of the
  next one and the order decides.
\<close>

type_synonym bytes = "u8 list"

section \<open>Definitions\<close>

subsection \<open>System calls\<close>

definition byte_at :: "bytes \<Rightarrow> nat \<Rightarrow> u8" where
  "byte_at c i = (if i < length c then c ! i else 0)"

definition pread :: "nat \<Rightarrow> nat \<Rightarrow> bytes \<Rightarrow> bytes" where
  "pread sz off c = take sz (drop off c)"

definition pwrite :: "nat \<Rightarrow> bytes \<Rightarrow> bytes \<Rightarrow> bytes" where
  "pwrite off d c =
     (if d = [] then c
      else take off c @ replicate (off - length c) 0 @ d @ drop (off + length d) c)"

definition ftruncate :: "nat \<Rightarrow> bytes \<Rightarrow> bytes" where
  "ftruncate n c = take n c @ replicate (n - length c) 0"

subsection \<open>Blocks\<close>

text \<open>\<open>struct file_info\<close> with the data that follows it on the connection.\<close>

record file_block =
  fb_file_no :: u64
  fb_offset :: u64
  fb_data :: bytes

definition block_count :: "nat \<Rightarrow> nat \<Rightarrow> nat" where
  "block_count B len = (len + B - 1) div B"

text \<open>Block \<open>k\<close> of a file, and all of them in order.\<close>

definition nth_block :: "nat \<Rightarrow> fino \<Rightarrow> bytes \<Rightarrow> nat \<Rightarrow> file_block" where
  "nth_block B f c k = \<lparr>fb_file_no = f, fb_offset = of_nat (k * B), fb_data = pread B (k * B) c\<rparr>"

definition file_blocks :: "nat \<Rightarrow> fino \<Rightarrow> bytes \<Rightarrow> file_block list" where
  "file_blocks B f c = map (nth_block B f c) [0..<block_count B (length c)]"

subsection \<open>Writing a block\<close>

definition pad_size :: "nat \<Rightarrow> nat" where
  "pad_size n = (n + 4095) div 4096 * 4096"

text \<open>The memory that is written: the data, then what the buffer still holds up to the padded size.\<close>

definition padded :: "bytes \<Rightarrow> bytes \<Rightarrow> bytes" where
  "padded junk d = d @ map (byte_at junk) [length d..<pad_size (length d)]"

definition memcmp_zero :: "bytes \<Rightarrow> bool" where
  "memcmp_zero buf = list_all (\<lambda>b. b = 0) buf"

definition posix_write :: "bool \<Rightarrow> nat \<Rightarrow> bytes \<Rightarrow> bytes \<Rightarrow> bytes" where
  "posix_write sparse off buf c = (if sparse \<and> memcmp_zero buf then c else pwrite off buf c)"

definition write_block :: "bool \<Rightarrow> bytes \<Rightarrow> file_block \<Rightarrow> bytes \<Rightarrow> bytes" where
  "write_block sparse junk b c = posix_write sparse (unat (fb_offset b)) (padded junk (fb_data b)) c"

text \<open>A sequence of writes, each with what the buffer of its worker held before.\<close>

fun write_blocks :: "bool \<Rightarrow> (bytes \<times> file_block) list \<Rightarrow> bytes \<Rightarrow> bytes" where
  "write_blocks sparse [] c = c"
| "write_blocks sparse ((junk, b) # ws) c = write_blocks sparse ws (write_block sparse junk b c)"

section \<open>Lemmas\<close>

subsection \<open>Bytes\<close>

lemma byte_at_Nil [simp]: "byte_at [] i = 0"
  by (simp add: byte_at_def)

lemma byte_at_Cons_0 [simp]: "byte_at (x # xs) 0 = x"
  by (simp add: byte_at_def)

lemma byte_at_append:
  "byte_at (a @ b) i = (if i < length a then byte_at a i else byte_at b (i - length a))"
  by (auto simp: byte_at_def nth_append)

lemma byte_at_drop: "byte_at (drop n c) i = byte_at c (n + i)"
  by (auto simp: byte_at_def)

lemma byte_at_take: "byte_at (take n c) i = (if i < n then byte_at c i else 0)"
  by (auto simp: byte_at_def)

lemma byte_at_replicate [simp]: "byte_at (replicate n 0) i = 0"
  by (simp add: byte_at_def)

lemma byte_at_junk: "i < n \<Longrightarrow> byte_at (replicate n x) i = x"
  by (simp add: byte_at_def)

lemma byte_at_pread: "i < sz \<Longrightarrow> byte_at (pread sz off c) i = byte_at c (off + i)"
  by (simp add: pread_def byte_at_take byte_at_drop)

lemma length_pread: "length (pread sz off c) = min sz (length c - off)"
  by (simp add: pread_def)

lemma byte_at_pwrite:
  "byte_at (pwrite off d c) i = (if off \<le> i \<and> i < off + length d then byte_at d (i - off) else byte_at c i)"
proof (cases "d = []")
  case False
  have "byte_at e j = 0" if "length e \<le> j" for e j
    using that by (simp add: byte_at_def)
  then show ?thesis
    using False by (auto simp: pwrite_def byte_at_append byte_at_take byte_at_drop min_def not_less)
qed (auto simp: pwrite_def)

lemma ftruncate_eq: "ftruncate n c = map (byte_at c) [0..<n]"
  by (rule nth_equalityI) (auto simp: ftruncate_def byte_at_def nth_append)

lemma bytes_of_eq: "map (byte_at c) [0..<length c] = c"
  by (rule nth_equalityI) (auto simp: byte_at_def)

lemma memcmp_zero_byte: "memcmp_zero buf \<Longrightarrow> byte_at buf i = 0"
  by (simp add: memcmp_zero_def byte_at_def list_all_length)

subsection \<open>Sizes\<close>

lemma pad_size_ge: "n \<le> pad_size n"
  by (simp add: pad_size_def div_mult_mod_eq algebra_simps)

lemma pad_size_dvd: "4096 dvd n \<Longrightarrow> pad_size n = n"
  by (auto simp: pad_size_def dvd_def)

lemma length_padded: "length (padded junk d) = pad_size (length d)"
  using pad_size_ge [of "length d"] by (simp add: padded_def)

lemma byte_at_padded: "i < length d \<Longrightarrow> byte_at (padded junk d) i = byte_at d i"
  by (simp add: padded_def byte_at_append)

lemma block_count_less_iff: "0 < B \<Longrightarrow> k < block_count B len \<longleftrightarrow> k * B < len"
proof -
  assume B: "0 < B"
  have "k < (len + B - 1) div B \<longleftrightarrow> Suc k \<le> (len + B - 1) div B"
    by auto
  also have "\<dots> \<longleftrightarrow> Suc k * B \<le> len + B - 1"
    using B by (simp add: less_eq_div_iff_mult_less_eq)
  also have "\<dots> \<longleftrightarrow> k * B < len"
    using B by auto
  finally show ?thesis
    by (simp add: block_count_def)
qed

lemma block_count_cover: "0 < B \<Longrightarrow> i < len \<Longrightarrow> i div B < block_count B len"
  by (simp add: block_count_less_iff) (meson div_times_less_eq_dividend le_less_trans)

subsection \<open>Writing a set of blocks\<close>

text \<open>Whether a write touches a byte, and the value it gives it.\<close>

definition covers :: "nat \<Rightarrow> bytes \<times> file_block \<Rightarrow> bool" where
  "covers i = (\<lambda>(junk, b). unat (fb_offset b) \<le> i \<and> i < unat (fb_offset b) + pad_size (length (fb_data b)))"

definition writes :: "nat \<Rightarrow> u8 \<Rightarrow> bytes \<times> file_block \<Rightarrow> bool" where
  "writes i v = (\<lambda>(junk, b). byte_at (padded junk (fb_data b)) (i - unat (fb_offset b)) = v)"

lemma byte_at_write_block:
  "byte_at (write_block sparse junk b c) i =
     (if covers i (junk, b) \<and> \<not> (sparse \<and> memcmp_zero (padded junk (fb_data b)))
      then byte_at (padded junk (fb_data b)) (i - unat (fb_offset b)) else byte_at c i)"
  by (auto simp: write_block_def posix_write_def byte_at_pwrite covers_def length_padded)

text \<open>If all writes that touch a byte agree on it, the order does not matter.\<close>

lemma write_blocks_agree:
  assumes "\<And>w. w \<in> set ws \<Longrightarrow> covers i w \<Longrightarrow> writes i v w"
    and "(\<exists>w \<in> set ws. covers i w) \<and> (sparse \<longrightarrow> byte_at c i = 0) \<or> byte_at c i = v"
  shows "byte_at (write_blocks sparse ws c) i = v"
  using assms
proof (induction ws arbitrary: c)
  case (Cons w ws)
  obtain junk b where w: "w = (junk, b)"
    by (cases w)
  let ?c = "write_block sparse junk b c"
  show ?case
  proof (cases "covers i w")
    case True
    then have v: "byte_at (padded junk (fb_data b)) (i - unat (fb_offset b)) = v"
      using Cons.prems(1) [of w] by (simp add: w writes_def)
    then have "memcmp_zero (padded junk (fb_data b)) \<Longrightarrow> v = 0"
      by (auto dest: memcmp_zero_byte)
    then have "byte_at ?c i = v"
      using True Cons.prems(2) v by (auto simp: byte_at_write_block w)
    then show ?thesis
      using Cons.IH [of ?c] Cons.prems(1) by (simp add: w)
  next
    case False
    then have "byte_at (write_block sp junk b c) i = byte_at c i" for sp
      by (simp add: byte_at_write_block w)
    moreover have "(\<exists>w \<in> set (w # ws). covers i w) \<longleftrightarrow> (\<exists>w \<in> set ws. covers i w)"
      using False by simp
    ultimately have "byte_at (write_blocks sparse ws ?c) i = v"
      using Cons.prems by (intro Cons.IH) simp_all
    then show ?thesis
      by (simp add: w)
  qed
qed auto

lemma length_nth_block:
  "k < block_count B len \<Longrightarrow> length c = len \<Longrightarrow> length (fb_data (nth_block B f c k)) = min B (len - k * B)"
  by (simp add: nth_block_def length_pread)

lemma unat_block_offset:
  "k * B < 2 ^ 64 \<Longrightarrow> unat (fb_offset (nth_block B f c k)) = k * B"
  by (simp add: nth_block_def unat_of_nat take_bit_nat_eq_self del: of_nat_mult)

text \<open>
  A byte of the file is touched only by its own block: a full block is a multiple of 4096, and
  the padding of the last one lies behind the end of the file.
\<close>

lemma block_covers:
  assumes "0 < B" and "4096 dvd B" and "length c < 2 ^ 63" and "i < length c"
    and "k < block_count B (length c)"
  shows "covers i (junk, nth_block B f c k) \<longleftrightarrow> k = i div B"
proof -
  let ?n = "length (fb_data (nth_block B f c k))"
  have k: "k * B < length c"
    using assms(1,5) by (simp add: block_count_less_iff)
  then have off: "unat (fb_offset (nth_block B f c k)) = k * B"
    using assms(3) by (simp add: unat_block_offset)
  have "i < k * B + pad_size ?n \<longleftrightarrow> i < k * B + B"
  proof (cases "k * B + B \<le> length c")
    case True
    then have "?n = B"
      by (simp add: nth_block_def length_pread)
    then show ?thesis
      using assms(2) by (simp add: pad_size_dvd)
  next
    case False
    then have "k * B + ?n = length c"
      using k by (simp add: nth_block_def length_pread)
    then show ?thesis
      using False assms(4) pad_size_ge [of ?n] by linarith
  qed
  then have "covers i (junk, nth_block B f c k) \<longleftrightarrow> k * B \<le> i \<and> i < k * B + B"
    by (simp add: covers_def off)
  also have "\<dots> \<longleftrightarrow> k = i div B"
    using assms(1) by (metis add.commute div_nat_eqI div_times_less_eq_dividend dividend_less_times_div
        mult.commute mult_Suc_right)
  finally show ?thesis .
qed

lemma block_writes:
  assumes "0 < B" and "length c < 2 ^ 63" and "i < length c" and "k = i div B"
  shows "writes i (byte_at c i) (junk, nth_block B f c k)"
proof -
  have k: "k * B \<le> i" "i < k * B + B"
    using assms(1,4) by (simp_all add: div_times_less_eq_dividend)
      (metis add.commute dividend_less_times_div mult.commute)
  then have "unat (fb_offset (nth_block B f c k)) = k * B"
    using assms(2,3) by (simp add: unat_block_offset)
  moreover have "i - k * B < length (fb_data (nth_block B f c k))"
    using k assms(3) by (simp add: nth_block_def length_pread less_diff_conv2)
  ultimately show ?thesis
    using k by (simp add: writes_def byte_at_padded nth_block_def byte_at_pread)
qed

lemma set_file_blocks: "b \<in> set (file_blocks B f c) \<longleftrightarrow> (\<exists>k < block_count B (length c). b = nth_block B f c k)"
  by (auto simp: file_blocks_def)

text \<open>
  The blocks of a file, written in any order and with any leftovers in the buffers, give the
  file back once it is truncated to its size, if the block size is a multiple of 4096.
\<close>

lemma write_blocks_restore:
  assumes "0 < B" and "4096 dvd B" and "length c < 2 ^ 63"
    and "set (map snd ws) = set (file_blocks B f c)" and "sparse \<longrightarrow> old = []"
  shows "ftruncate (length c) (write_blocks sparse ws old) = c"
proof -
  have "byte_at (write_blocks sparse ws old) i = byte_at c i" if i: "i < length c" for i
  proof (rule write_blocks_agree)
    fix w assume w: "w \<in> set ws" "covers i w"
    then have "snd w \<in> set (map snd ws)"
      by simp
    then obtain k where "snd w = nth_block B f c k" "k < block_count B (length c)"
      unfolding assms(4) set_file_blocks by blast
    then obtain junk where "w = (junk, nth_block B f c k)" "k < block_count B (length c)"
      by (cases w) simp
    then show "writes i (byte_at c i) w"
      using w(2) block_covers [OF assms(1-3) i] block_writes [OF assms(1,3) i] by blast
  next
    have "i div B < block_count B (length c)"
      using assms(1) i by (rule block_count_cover)
    moreover from this have "nth_block B f c (i div B) \<in> set (map snd ws)"
      unfolding assms(4) set_file_blocks by blast
    then obtain junk where "(junk, nth_block B f c (i div B)) \<in> set ws"
      by auto
    ultimately show "(\<exists>w \<in> set ws. covers i w) \<and> (sparse \<longrightarrow> byte_at old i = 0) \<or> byte_at old i = byte_at c i"
      using block_covers [OF assms(1-3) i] assms(5) by fastforce
  qed
  then have "map (byte_at (write_blocks sparse ws old)) [0..<length c] = map (byte_at c) [0..<length c]"
    by simp
  then show ?thesis
    by (simp add: ftruncate_eq bytes_of_eq)
qed

lemma pad_size_greater:
  assumes "\<not> 4096 dvd n"
  shows "n < pad_size n"
proof -
  have "4096 dvd pad_size n"
    by (simp add: pad_size_def)
  then show ?thesis
    using pad_size_ge [of n] assms by (metis le_neq_implies_less)
qed

lemma write_blocks_append: "write_blocks sparse (ws @ vs) c = write_blocks sparse vs (write_blocks sparse ws c)"
  by (induction sparse ws c rule: write_blocks.induct) simp_all

text \<open>The blocks of a file in order are the file.\<close>

lemma xor_fold_perm:
  assumes "mset bs = mset cs"
  shows "foldr (\<lambda>b a. h b XOR a) bs (v :: u32) = foldr (\<lambda>b a. h b XOR a) cs v"
proof -
  have comm: "(\<lambda>a. h x XOR a) \<circ> (\<lambda>a. h y XOR a) = (\<lambda>a. h y XOR a) \<circ> (\<lambda>a. h x XOR a)" for x y
    by (auto simp: fun_eq_iff xor.left_commute)
  then have "foldr (\<lambda>b a. h b XOR a) xs = fold (\<lambda>b a. h b XOR a) xs" for xs
    by (intro foldr_fold) simp
  moreover have "fold (\<lambda>b a. h b XOR a) bs = fold (\<lambda>b a. h b XOR a) cs"
    by (rule fold_multiset_equiv [OF comm assms])
  ultimately show ?thesis
    by simp
qed

lemma concat_preads: "concat (map (\<lambda>k. pread B (k * B) c) [0..<n]) = take (n * B) c"
proof (induction n)
  case (Suc n)
  have "take (Suc n * B) c = take (n * B + B) c"
    by (simp add: add.commute)
  with Suc show ?case
    by (simp only: take_add) (simp add: pread_def)
qed simp

lemma concat_file_blocks: "0 < B \<Longrightarrow> concat (map fb_data (file_blocks B f c)) = c"
proof -
  assume B: "0 < B"
  have "\<not> block_count B (length c) < block_count B (length c)"
    by simp
  then have "length c \<le> block_count B (length c) * B"
    unfolding block_count_less_iff [OF B] by simp
  then show ?thesis
    using concat_preads [of B c "block_count B (length c)"]
    by (simp add: file_blocks_def comp_def nth_block_def)
qed

lemma sum_file_blocks: "0 < B \<Longrightarrow> (\<Sum>b\<leftarrow>file_blocks B f c. length (fb_data b)) = length c"
  using arg_cong [OF concat_file_blocks [of B f c], of length] by (simp add: length_concat comp_def)

section \<open>Properties\<close>

text \<open>
  Claim C38. With a block size that is not a multiple of 4096 bytes, which the command line
  accepts, a transfer can damage every file longer than a block: when the first block is
  written last, its padding overwrites the start of the second block with what the buffer held
  before, and the truncated file differs from the one that was sent.
\<close>

theorem unaligned_blocks_corrupt:
  assumes "0 < B" and "\<not> 4096 dvd B" and "B < length c"
  shows "\<exists>ws. map snd ws = rev (file_blocks B f c) \<and> ftruncate (length c) (write_blocks False ws []) \<noteq> c"
proof -
  let ?junk = "replicate (Suc B) (byte_at c B + 1)"
  let ?ws = "map (Pair ?junk) (rev (file_blocks B f c))"
  let ?b = "nth_block B f c 0"
  have "0 < block_count B (length c)"
    unfolding block_count_less_iff [OF assms(1)] using assms(3) by linarith
  then have "file_blocks B f c = ?b # map (nth_block B f c) [1..<block_count B (length c)]"
    by (simp add: file_blocks_def upt_conv_Cons)
  then obtain ws where ws: "?ws = ws @ [(?junk, ?b)]"
    by simp
  have b: "fb_offset ?b = 0" "length (fb_data ?b) = B"
    using assms(3) by (simp_all add: nth_block_def length_pread)
  then have "covers B (?junk, ?b)"
    using pad_size_greater [OF assms(2)] by (simp add: covers_def)
  moreover have "byte_at (padded ?junk (fb_data ?b)) B = byte_at c B + 1"
    using b pad_size_greater [OF assms(2)] by (simp add: padded_def byte_at_append byte_at_junk upt_conv_Cons del: replicate_Suc)
  ultimately have "byte_at (write_blocks False ?ws []) B = byte_at c B + 1"
    unfolding ws write_blocks_append by (simp add: byte_at_write_block b)
  then have "ftruncate (length c) (write_blocks False ?ws []) ! B \<noteq> c ! B"
    using assms(3) by (simp add: ftruncate_eq byte_at_def)
  then have "ftruncate (length c) (write_blocks False ?ws []) \<noteq> c"
    by metis
  then show ?thesis
    by (intro exI [of _ ?ws]) (simp add: comp_def)
qed

theorem unaligned_blocks_corrupt_witness:
  "\<exists>ws. map snd ws = rev (file_blocks 300000 1 (replicate 300001 0)) \<and>
     ftruncate 300001 (write_blocks False ws []) \<noteq> replicate 300001 0"
proof -
  have "\<not> (4096 :: nat) dvd 300000"
    by (simp add: dvd_eq_mod_eq_0)
  from unaligned_blocks_corrupt [OF _ this, of "replicate 300001 0" 1] show ?thesis
    by (simp only: length_replicate)
qed

end
