(* ===== verification/Send_Workers.thy ===== *)
theory Send_Workers
  imports File_Blocks Fc_Ring
begin

text \<open>
  The I/O workers of the sender (\<open>libdtn/src/dtn.c\<close>: \<open>tx_worker\<close>, \<open>submit_work\<close>;
  \<open>libdtn/src/file_io.c\<close>: \<open>file_next\<close>, \<open>file_iow_remove\<close>; \<open>libdtn/src/engine_posix.c\<close>: the read
  branch of \<open>file_posixsubmit\<close>). The workers share the table of open files. A worker takes the
  next file or joins a file another worker is reading, draws block numbers from the counter of
  the entry until it reads past the end of the file, and withdraws; the last one to withdraw
  closes the file, reports it and clears the entry.

  Every step of the model is one atomic operation or one system call of one worker, so the runs
  are all interleavings. Three kinds of operations are joined into one step: the probing of the
  table up to the entry that is found, the send of a block with the additions to the counters
  of its entry (nobody reads these before the last worker has left), and the compare-and-exchange
  that claims a file with the note in \<open>file_activefile\<close>, which is only a hint.
\<close>

section \<open>State\<close>

definition THREAD_COUNT :: nat where "THREAD_COUNT = 32"
definition FS_IO :: u64 where "FS_IO = push_bit 31 1"
definition FS_COMPLETE :: u64 where "FS_COMPLETE = push_bit 30 1"

text \<open>\<open>1 << id\<close>; the ids are below 30 (\<open>tx_start\<close>).\<close>

definition id_bit :: "nat \<Rightarrow> u64" where
  "id_bit i = push_bit i 1"

text \<open>
  What does not change during a transfer: the block size, the number of workers (the threads
  and the one for metadata), whether blocks are hashed, and the first word of the BLAKE3 hash.
\<close>

record tx_env =
  te_block :: nat
  te_threads :: nat
  te_do_hash :: bool
  te_hash :: "bytes \<Rightarrow> u32"

text \<open>\<open>tx_start\<close> refuses 30 threads or more and adds one; blocks are a positive \<open>int\<close>.\<close>

definition env_ok :: "tx_env \<Rightarrow> bool" where
  "env_ok env \<longleftrightarrow> 0 < te_block env \<and> te_block env < 2 ^ 31 \<and> te_threads env \<le> 30"

text \<open>
  Where a worker is: in \<open>file_next\<close> (the first seven), in its loop over the blocks of the file in
  a slot with its own copy of the entry, or finishing the file.
\<close>

datatype tx_pc =
    Tx_next
  | Tx_count nat
  | Tx_grab
  | Tx_cas nat
  | Tx_scan nat
  | Tx_attach nat nat file_stat_type
  | Tx_claim nat
  | Tx_fetch nat file_stat_type
  | Tx_read nat file_stat_type u64
  | Tx_send nat file_stat_type u64 bytes
  | Tx_eof nat file_stat_type
  | Tx_close nat file_stat_type
  | Tx_push nat
  | Tx_wipe nat
  | Tx_exit

text \<open>
  The shared state. \<open>tx_fds\<close> is what the operating system knows of open descriptors, with the
  number of the file each was opened for; \<open>tx_added\<close> remembers every file that was added, with
  its descriptor and contents; \<open>tx_sent\<close> are the blocks on the connections.
\<close>

record tx_state =
  tx_io :: file_io
  tx_head :: nat
  tx_active :: "nat \<Rightarrow> nat"
  tx_complete :: bool
  tx_fds :: "i32 \<Rightarrow> (fino \<times> bytes) option"
  tx_added :: "fino \<Rightarrow> (i32 \<times> bytes) option"
  tx_wk :: "nat \<Rightarrow> tx_pc"
  tx_sent :: "(nat \<times> file_block) list"
  tx_fc :: "fc_info_struct list"
  tx_bytes_io :: nat
  tx_dead :: bool

abbreviation entry :: "tx_state \<Rightarrow> nat \<Rightarrow> file_stat_type" where
  "entry s x \<equiv> fs_tab (tx_io s) x"

definition tx_init :: tx_state where
  "tx_init =
     \<lparr>tx_io = file_io_init, tx_head = 0, tx_active = (\<lambda>_. 0), tx_complete = False, tx_fds = Map.empty,
      tx_added = Map.empty, tx_wk = (\<lambda>_. Tx_next), tx_sent = [], tx_fc = [], tx_bytes_io = 0, tx_dead = False\<rparr>"

section \<open>Operations\<close>

definition goto :: "nat \<Rightarrow> tx_pc \<Rightarrow> tx_state \<Rightarrow> tx_state" where
  "goto i pc s = s\<lparr>tx_wk := (tx_wk s)(i := pc)\<rparr>"

definition set_entry :: "nat \<Rightarrow> file_stat_type \<Rightarrow> tx_state \<Rightarrow> tx_state" where
  "set_entry x e s = s\<lparr>tx_io := (tx_io s)\<lparr>fs_tab := (fs_tab (tx_io s))(x := e)\<rparr>\<rparr>"

text \<open>
  \<open>file_next\<close>: load the two counters, take a new file by an addition when there are many and by a
  compare-and-exchange when there are few, otherwise try the files of the other workers.
\<close>

definition next_file :: "nat \<Rightarrow> nat \<Rightarrow> tx_state \<Rightarrow> tx_state" where
  "next_file i fc s =
     (if int fc - int (tx_head s) > int THREAD_COUNT then goto i Tx_grab s
      else if int fc - int (tx_head s) > 0 then goto i (Tx_cas (tx_head s)) s
      else goto i (Tx_scan 0) s)"

definition scan_active :: "nat \<Rightarrow> nat \<Rightarrow> tx_state \<Rightarrow> tx_state" where
  "scan_active i k s =
     (if k < THREAD_COUNT then
        let j = tx_active s k
        in if j \<noteq> 0 \<and> st_state (entry s j) AND FS_IO \<noteq> 0 then goto i (Tx_attach k j (entry s j)) s
           else goto i (Tx_scan (k + 1)) s
      else if tx_complete s then goto i Tx_exit s
      else goto i Tx_next s)"

definition attach_file :: "nat \<Rightarrow> nat \<Rightarrow> nat \<Rightarrow> file_stat_type \<Rightarrow> tx_state \<Rightarrow> tx_state" where
  "attach_file i k j copy s =
     (if st_state (entry s j) = st_state copy
      then goto i (Tx_fetch j copy)
             (set_entry j ((entry s j)\<lparr>st_state := st_state copy OR id_bit i\<rparr>) s)
      else goto i (Tx_scan (k + 1)) s)"

text \<open>The second loop of \<open>file_next\<close>: the entry with the number that was taken, once it is there.\<close>

definition claim_file :: "nat \<Rightarrow> nat \<Rightarrow> tx_state \<Rightarrow> tx_state" where
  "claim_file i n s =
     (case find (\<lambda>x. st_file_no (entry s x) = of_nat n \<and> st_state (entry s x) = FS_INIT) (probe_seq (of_nat n)) of
        None \<Rightarrow> s
      | Some x \<Rightarrow>
          goto i (Tx_fetch x (entry s x))
            (set_entry x ((entry s x)\<lparr>st_state := FS_COMPLETE OR FS_IO OR id_bit i\<rparr>)
              (s\<lparr>tx_active := (tx_active s)(i := st_position (entry s x))\<rparr>)))"

text \<open>\<open>tx_worker\<close>: a descriptor of 0 ends the worker, otherwise it draws the next block.\<close>

definition fetch_block :: "nat \<Rightarrow> nat \<Rightarrow> file_stat_type \<Rightarrow> tx_state \<Rightarrow> tx_state" where
  "fetch_block i x l s =
     (if st_fd l = 0 then goto i Tx_exit s
      else goto i (Tx_read x l (st_block_offset (entry s x)))
             (set_entry x ((entry s x)\<lparr>st_block_offset := st_block_offset (entry s x) + 1\<rparr>) s))"

definition read_block :: "tx_env \<Rightarrow> nat \<Rightarrow> nat \<Rightarrow> file_stat_type \<Rightarrow> u64 \<Rightarrow> tx_state \<Rightarrow> tx_state" where
  "read_block env i x l k s =
     (case tx_fds s (st_fd l) of
        None \<Rightarrow> s\<lparr>tx_dead := True\<rparr>
      | Some (_, c) \<Rightarrow>
          let d = pread (te_block env) (unat (k * of_nat (te_block env))) c
          in if d = [] then goto i (Tx_eof x l) s else goto i (Tx_send x l k d) s)"

definition send_block :: "tx_env \<Rightarrow> nat \<Rightarrow> nat \<Rightarrow> file_stat_type \<Rightarrow> u64 \<Rightarrow> bytes \<Rightarrow> tx_state \<Rightarrow> tx_state" where
  "send_block env i x l k d s =
     goto i (Tx_fetch x l)
       (set_entry x (stat_update 1 (of_nat (length d)) (if te_do_hash env then te_hash env d else 0) (entry s x))
         (s\<lparr>tx_sent := tx_sent s @
              [(i, \<lparr>fb_file_no = st_file_no l, fb_offset = k * of_nat (te_block env), fb_data = d\<rparr>)],
            tx_bytes_io := tx_bytes_io s + length d\<rparr>))"

text \<open>\<open>file_iow_remove\<close>.\<close>

definition iow_remove :: "nat \<Rightarrow> nat \<Rightarrow> file_stat_type \<Rightarrow> tx_state \<Rightarrow> tx_state" where
  "iow_remove i x l s =
     (let st = st_state (entry s x) AND NOT (id_bit i OR FS_IO);
          s1 = set_entry x ((entry s x)\<lparr>st_state := st\<rparr>) s
      in if st = FS_COMPLETE then goto i (Tx_close x l) (s1\<lparr>tx_io := file_incrementtail (tx_io s1)\<rparr>)
         else goto i Tx_next s1)"

definition push_file :: "nat \<Rightarrow> nat \<Rightarrow> tx_state \<Rightarrow> tx_state" where
  "push_file i x s =
     (let e = entry s x
      in goto i (Tx_wipe x)
           (s\<lparr>tx_fc := tx_fc s @ [fc_make (st_file_no e) (st_bytes_total e) (st_block_total e) (st_crc e)]\<rparr>))"

fun worker_step :: "tx_env \<Rightarrow> nat \<Rightarrow> tx_state \<Rightarrow> tx_pc \<Rightarrow> tx_state" where
  "worker_step env i s Tx_next = goto i (Tx_count (fs_count (tx_io s))) s"
| "worker_step env i s (Tx_count fc) = next_file i fc s"
| "worker_step env i s Tx_grab = goto i (Tx_claim (tx_head s + 1)) (s\<lparr>tx_head := tx_head s + 1\<rparr>)"
| "worker_step env i s (Tx_cas fh) =
     (if tx_head s = fh then goto i (Tx_claim (fh + 1)) (s\<lparr>tx_head := fh + 1\<rparr>) else goto i Tx_next s)"
| "worker_step env i s (Tx_scan k) = scan_active i k s"
| "worker_step env i s (Tx_attach k j copy) = attach_file i k j copy s"
| "worker_step env i s (Tx_claim n) = claim_file i n s"
| "worker_step env i s (Tx_fetch x l) = fetch_block i x l s"
| "worker_step env i s (Tx_read x l k) = read_block env i x l k s"
| "worker_step env i s (Tx_send x l k d) = send_block env i x l k d s"
| "worker_step env i s (Tx_eof x l) = iow_remove i x l s"
| "worker_step env i s (Tx_close x l) = goto i (Tx_push x) (s\<lparr>tx_fds := (tx_fds s)(st_fd l := None)\<rparr>)"
| "worker_step env i s (Tx_push x) = push_file i x s"
| "worker_step env i s (Tx_wipe x) = goto i Tx_next (s\<lparr>tx_io := memset_slot x (tx_io s)\<rparr>)"
| "worker_step env i s Tx_exit = s"

text \<open>A weak compare-and-exchange may fail although the values agree.\<close>

fun spurious_failure :: "nat \<Rightarrow> tx_state \<Rightarrow> tx_pc \<Rightarrow> tx_state" where
  "spurious_failure i s (Tx_cas fh) = goto i Tx_next s"
| "spurious_failure i s (Tx_attach k j copy) = goto i (Tx_scan (k + 1)) s"
| "spurious_failure i s pc = s"

text \<open>
  A file worker of the Rust side adds the file it has opened. Its number was never used, and the
  operating system gave it a descriptor that is not open otherwise; file sizes are below \<open>2 ^ 63\<close>.
\<close>

definition add_ok :: "fino \<Rightarrow> i32 \<Rightarrow> bytes \<Rightarrow> tx_state \<Rightarrow> bool" where
  "add_ok f fd c s \<longleftrightarrow>
     f \<noteq> 0 \<and> tx_added s f = None \<and> 0 < fd \<and> tx_fds s fd = None \<and> length c < 2 ^ 63"

definition add_opened :: "fino \<Rightarrow> i32 \<Rightarrow> bytes \<Rightarrow> tx_state \<Rightarrow> tx_state" where
  "add_opened f fd c s =
     (case file_addfile f fd 0 0 (tx_io s) of
        (None, _) \<Rightarrow> s
      | (Some _, io) \<Rightarrow>
          s\<lparr>tx_io := io, tx_fds := (tx_fds s)(fd \<mapsto> (f, c)), tx_added := (tx_added s)(f \<mapsto> (fd, c))\<rparr>)"

inductive tx_step :: "tx_env \<Rightarrow> tx_state \<Rightarrow> tx_state \<Rightarrow> bool" for env where
  tx_work: "\<not> tx_dead s \<Longrightarrow> i < te_threads env \<Longrightarrow> tx_step env s (worker_step env i s (tx_wk s i))"
| tx_spurious: "\<not> tx_dead s \<Longrightarrow> i < te_threads env \<Longrightarrow> tx_step env s (spurious_failure i s (tx_wk s i))"
| tx_add: "\<not> tx_dead s \<Longrightarrow> add_ok f fd c s \<Longrightarrow> tx_step env s (add_opened f fd c s)"
| tx_finish: "tx_step env s (s\<lparr>tx_complete := True\<rparr>)"

text \<open>
  Whether every worker works on the file it has copied: the exchange that attaches a worker
  compares the state word only, so the slot may hold another file by then.
\<close>

fun pc_copy :: "tx_pc \<Rightarrow> (nat \<times> file_stat_type) option" where
  "pc_copy (Tx_fetch x l) = Some (x, l)"
| "pc_copy (Tx_read x l k) = Some (x, l)"
| "pc_copy (Tx_send x l k d) = Some (x, l)"
| "pc_copy (Tx_eof x l) = Some (x, l)"
| "pc_copy (Tx_close x l) = Some (x, l)"
| "pc_copy _ = None"

definition own_copies :: "tx_env \<Rightarrow> tx_state \<Rightarrow> bool" where
  "own_copies env s \<longleftrightarrow>
     (\<forall>i < te_threads env. \<forall>x l. pc_copy (tx_wk s i) = Some (x, l) \<longrightarrow> st_file_no l = st_file_no (entry s x))"

text \<open>Reachable states, and those reached without such an exchange on a recycled slot.\<close>

definition tx_reach :: "tx_env \<Rightarrow> tx_state \<Rightarrow> bool" where
  "tx_reach env = reachable (\<lambda>s. s = tx_init) (tx_step env)"

definition tx_reach_own :: "tx_env \<Rightarrow> tx_state \<Rightarrow> bool" where
  "tx_reach_own env = reachable (\<lambda>s. s = tx_init) (\<lambda>s s'. tx_step env s s' \<and> own_copies env s')"

text \<open>What was sent of a file, and the checksum of a list of blocks.\<close>

definition sent_blocks :: "fino \<Rightarrow> tx_state \<Rightarrow> file_block list" where
  "sent_blocks f s = filter (\<lambda>b. fb_file_no b = f) (map snd (tx_sent s))"

definition blocks_crc :: "tx_env \<Rightarrow> file_block list \<Rightarrow> u32" where
  "blocks_crc env bs = (if te_do_hash env then foldr (\<lambda>b a. te_hash env (fb_data b) XOR a) bs 0 else 0)"

section \<open>One slot and the workers on it\<close>

text \<open>What a worker does on a given slot, without its copy of the entry.\<close>

datatype tx_role =
    R_none
  | R_fetch
  | R_read u64
  | R_send u64 bytes
  | R_eof
  | R_close
  | R_push
  | R_wipe

fun role :: "nat \<Rightarrow> tx_pc \<Rightarrow> tx_role" where
  "role y (Tx_fetch x l) = (if x = y then R_fetch else R_none)"
| "role y (Tx_read x l k) = (if x = y then R_read k else R_none)"
| "role y (Tx_send x l k d) = (if x = y then R_send k d else R_none)"
| "role y (Tx_eof x l) = (if x = y then R_eof else R_none)"
| "role y (Tx_close x l) = (if x = y then R_close else R_none)"
| "role y (Tx_push x) = (if x = y then R_push else R_none)"
| "role y (Tx_wipe x) = (if x = y then R_wipe else R_none)"
| "role y _ = R_none"

fun joined :: "tx_role \<Rightarrow> bool" where
  "joined R_fetch = True"
| "joined (R_read k) = True"
| "joined (R_send k d) = True"
| "joined R_eof = True"
| "joined _ = False"

fun finishing :: "tx_role \<Rightarrow> bool" where
  "finishing R_close = True"
| "finishing R_push = True"
| "finishing R_wipe = True"
| "finishing _ = False"

fun past_end :: "nat \<Rightarrow> tx_role \<Rightarrow> bool" where
  "past_end nb (R_read k) = (nb \<le> unat k)"
| "past_end nb R_eof = True"
| "past_end nb _ = False"

fun in_hand :: "nat \<Rightarrow> tx_role \<Rightarrow> nat multiset" where
  "in_hand nb (R_read k) = (if unat k < nb then {#unat k#} else {#})"
| "in_hand nb (R_send k d) = {#unat k#}"
| "in_hand nb _ = {#}"

definition joiners :: "nat \<Rightarrow> (nat \<Rightarrow> tx_role) \<Rightarrow> nat set" where
  "joiners T ro = {i. i < T \<and> joined (ro i)}"

definition finishers :: "nat \<Rightarrow> (nat \<Rightarrow> tx_role) \<Rightarrow> nat set" where
  "finishers T ro = {i. i < T \<and> finishing (ro i)}"

definition movers :: "nat \<Rightarrow> nat \<Rightarrow> (nat \<Rightarrow> tx_role) \<Rightarrow> nat set" where
  "movers T nb ro = {i. i < T \<and> joined (ro i) \<and> \<not> past_end nb (ro i)}"

definition drawn :: "nat \<Rightarrow> nat \<Rightarrow> (nat \<Rightarrow> tx_role) \<Rightarrow> nat multiset" where
  "drawn T nb ro = (\<Sum>i<T. in_hand nb (ro i))"

text \<open>
  The invariant of a slot in use. The state word has the bit of exactly the workers that have
  joined; \<open>FS_IO\<close> is set until one has read past the end, and from then on nobody joins; when
  nobody is left, one worker finishes. Every block number below the counter was sent or is
  held by one worker. The counter runs past the end at most once per worker.
\<close>

definition slot_shape :: "nat \<Rightarrow> nat \<Rightarrow> file_stat_type \<Rightarrow> (nat \<Rightarrow> tx_role) \<Rightarrow> bool" where
  "slot_shape T nb e ro \<longleftrightarrow>
     bit (st_state e) 30 \<and>
     (\<forall>b. b \<noteq> 30 \<longrightarrow> b \<noteq> 31 \<longrightarrow> (bit (st_state e) b \<longleftrightarrow> b \<in> joiners T ro)) \<and>
     (joiners T ro = {} \<longrightarrow> \<not> bit (st_state e) 31) \<and>
     card (finishers T ro) = (if joiners T ro = {} then 1 else 0) \<and>
     (\<not> bit (st_state e) 31 \<or> (\<exists>i<T. ro i = R_eof) \<longrightarrow> nb \<le> unat (st_block_offset e)) \<and>
     unat (st_block_offset e) - nb + card (movers T nb ro) \<le> T \<and>
     (bit (st_state e) 31 \<longrightarrow> unat (st_block_offset e) - nb + card (movers T nb ro) \<le> card (joiners T ro))"

definition slot_idle :: "nat \<Rightarrow> file_stat_type \<Rightarrow> (nat \<Rightarrow> tx_role) \<Rightarrow> file_block list \<Rightarrow> bool" where
  "slot_idle T e ro bs \<longleftrightarrow>
     st_state e = FS_INIT \<and> (\<forall>i<T. ro i = R_none) \<and> st_block_offset e = 0 \<and> bs = []"

definition slot_blocks :: "tx_env \<Rightarrow> file_stat_type \<Rightarrow> (nat \<Rightarrow> tx_role) \<Rightarrow> file_block list \<Rightarrow> bytes \<Rightarrow> bool" where
  "slot_blocks env e ro bs c \<longleftrightarrow>
     (let B = te_block env; T = te_threads env; nb = block_count B (length c); n = unat (st_block_offset e)
      in mset bs + image_mset (nth_block B (st_file_no e) c) (drawn T nb ro)
           = image_mset (nth_block B (st_file_no e) c) (mset_set {0..<min n nb}) \<and>
         (\<forall>i<T. \<forall>k. ro i = R_read k \<longrightarrow> unat k < n) \<and>
         (\<forall>i<T. \<forall>k d. ro i = R_send k d \<longrightarrow> unat k < n \<and> unat k < nb \<and> d = pread B (unat k * B) c))"

definition slot_totals :: "tx_env \<Rightarrow> file_stat_type \<Rightarrow> file_block list \<Rightarrow> bool" where
  "slot_totals env e bs \<longleftrightarrow>
     st_block_total e = of_nat (length bs) \<and> st_bytes_total e = of_nat (\<Sum>b\<leftarrow>bs. length (fb_data b)) \<and>
     st_crc e = blocks_crc env bs"

definition slot_ok :: "tx_env \<Rightarrow> file_stat_type \<Rightarrow> (nat \<Rightarrow> tx_role) \<Rightarrow> file_block list \<Rightarrow> bytes \<Rightarrow> bool" where
  "slot_ok env e ro bs c \<longleftrightarrow>
     (slot_idle (te_threads env) e ro bs \<or>
      slot_shape (te_threads env) (block_count (te_block env) (length c)) e ro) \<and>
     slot_blocks env e ro bs c \<and> slot_totals env e bs"

subsection \<open>Bits\<close>

lemma bit_id_bit [simp]: "bit (id_bit i) n \<longleftrightarrow> n = i \<and> n < 64"
  by (auto simp: id_bit_def bit_simps)

lemma flags_id_bit: "FS_IO = id_bit 31" "FS_COMPLETE = id_bit 30"
  by (simp_all only: FS_IO_def FS_COMPLETE_def id_bit_def)

lemma bit_FS_IO [simp]: "bit FS_IO n \<longleftrightarrow> n = 31"
  by (auto simp: flags_id_bit)

lemma bit_FS_COMPLETE [simp]: "bit FS_COMPLETE n \<longleftrightarrow> n = 30"
  by (auto simp: flags_id_bit)

lemma bit_FS_INIT [simp]: "\<not> bit FS_INIT 30" "\<not> bit FS_INIT 31"
  by (simp_all add: FS_INIT_def bit_numeral_rec)

lemma and_FS_IO_iff: "(w :: u64) AND FS_IO \<noteq> 0 \<longleftrightarrow> bit w 31"
  by (auto simp: bit_eq_iff [of "w AND FS_IO"] bit_and_iff)

subsection \<open>Changing the role of one worker\<close>

lemma joiners_upd:
  "i < T \<Longrightarrow> joiners T (ro(i := r)) = (if joined r then insert i (joiners T ro) else joiners T ro - {i})"
  by (auto simp: joiners_def)

lemma finishers_upd:
  "i < T \<Longrightarrow> finishers T (ro(i := r)) = (if finishing r then insert i (finishers T ro) else finishers T ro - {i})"
  by (auto simp: finishers_def)

lemma movers_upd:
  "i < T \<Longrightarrow> movers T nb (ro(i := r)) =
     (if joined r \<and> \<not> past_end nb r then insert i (movers T nb ro) else movers T nb ro - {i})"
  by (auto simp: movers_def)

lemma drawn_upd:
  "i < T \<Longrightarrow> drawn T nb (ro(i := r)) + in_hand nb (ro i) = drawn T nb ro + in_hand nb r"
  unfolding drawn_def by (rule sum_fun_upd)

lemma role_sets_mem:
  "i \<in> joiners T ro \<longleftrightarrow> i < T \<and> joined (ro i)"
  "i \<in> finishers T ro \<longleftrightarrow> i < T \<and> finishing (ro i)"
  "i \<in> movers T nb ro \<longleftrightarrow> i < T \<and> joined (ro i) \<and> \<not> past_end nb (ro i)"
  by (auto simp: joiners_def finishers_def movers_def)

lemma role_sets_finite [simp]: "finite (joiners T ro)" "finite (finishers T ro)" "finite (movers T nb ro)"
  by (auto simp: joiners_def finishers_def movers_def)

lemma movers_joiners: "movers T nb ro \<subseteq> joiners T ro"
  by (auto simp: joiners_def movers_def)

lemma card_joiners: "card (joiners T ro) \<le> T"
proof -
  have "card (joiners T ro) \<le> card {..<T}"
    by (rule card_mono) (auto simp: joiners_def)
  then show ?thesis
    by simp
qed

lemmas role_upd = joiners_upd finishers_upd movers_upd role_sets_mem

lemma shape_block_offset:
  "slot_shape T nb e ro \<Longrightarrow> unat (st_block_offset e) + card (movers T nb ro) \<le> nb + T"
  by (auto simp: slot_shape_def)

lemma shape_not_idle: "slot_shape T nb e ro \<Longrightarrow> st_state e \<noteq> FS_INIT"
  by (auto simp: slot_shape_def)

lemma ok_shape: "slot_ok env e ro bs c \<Longrightarrow> i < te_threads env \<Longrightarrow> ro i \<noteq> R_none \<Longrightarrow>
    slot_shape (te_threads env) (block_count (te_block env) (length c)) e ro"
  by (auto simp: slot_ok_def slot_idle_def)

subsection \<open>The steps of a worker on its slot\<close>

lemma slot_blocks_upd:
  assumes "slot_blocks env e ro bs c" and "i < te_threads env"
    and "nb = block_count (te_block env) (length c)" and "in_hand nb r = in_hand nb (ro i)"
    and "st_file_no e' = st_file_no e" and "st_block_offset e' = st_block_offset e"
    and "\<And>k. r = R_read k \<Longrightarrow> unat k < unat (st_block_offset e)"
    and "\<And>k d. r = R_send k d \<Longrightarrow>
      unat k < unat (st_block_offset e) \<and> unat k < nb \<and> d = pread (te_block env) (unat k * te_block env) c"
  shows "slot_blocks env e' (ro(i := r)) bs c"
proof -
  have "drawn (te_threads env) nb (ro(i := r)) = drawn (te_threads env) nb ro"
    using drawn_upd [OF assms(2), of nb ro r] assms(4) by simp
  then show ?thesis
    using assms(1,3,5-8) by (auto simp: slot_blocks_def Let_def)
qed

lemma slot_claim:
  assumes "slot_ok env e ro bs c" and "st_state e = FS_INIT" and "i < te_threads env" and "env_ok env"
  shows "slot_ok env (e\<lparr>st_state := FS_COMPLETE OR FS_IO OR id_bit i\<rparr>) (ro(i := R_fetch)) bs c"
proof -
  let ?T = "te_threads env" and ?e = "e\<lparr>st_state := FS_COMPLETE OR FS_IO OR id_bit i\<rparr>"
  have idle: "slot_idle ?T e ro bs"
    using assms(1,2) shape_not_idle by (auto simp: slot_ok_def)
  then have none: "joiners ?T ro = {}" "finishers ?T ro = {}" "movers ?T nb ro = {}" for nb
    by (auto simp: slot_idle_def joiners_def finishers_def movers_def)
  have "i < 30"
    using assms(3,4) by (simp add: env_ok_def)
  then have "slot_shape ?T nb ?e (ro(i := R_fetch))" for nb
    using idle assms(3) by (auto simp: slot_shape_def slot_idle_def role_upd none bit_or_iff)
  moreover have "slot_blocks env ?e (ro(i := R_fetch)) bs c"
    by (rule slot_blocks_upd [OF _ assms(3) refl]) (use assms(1,3) idle in \<open>auto simp: slot_ok_def slot_idle_def\<close>)
  ultimately show ?thesis
    using assms(1) by (simp add: slot_ok_def slot_totals_def)
qed

lemma slot_attach:
  assumes "slot_ok env e ro bs c" and "bit (st_state e) 31" and "ro i = R_none"
    and "i < te_threads env" and "env_ok env"
  shows "slot_ok env (e\<lparr>st_state := st_state e OR id_bit i\<rparr>) (ro(i := R_fetch)) bs c"
proof -
  let ?T = "te_threads env" and ?nb = "block_count (te_block env) (length c)"
    and ?e = "e\<lparr>st_state := st_state e OR id_bit i\<rparr>"
  have shape: "slot_shape ?T ?nb e ro"
    using assms(1,2) by (auto simp: slot_ok_def slot_idle_def)
  have i: "i < 30" "i \<notin> joiners ?T ro" "i \<notin> movers ?T ?nb ro" "i \<notin> finishers ?T ro"
    using assms(3-5) by (auto simp: env_ok_def role_sets_mem)
  have "card (insert i (joiners ?T ro)) \<le> ?T"
    using card_joiners [of ?T "ro(i := R_fetch)"] assms(4) by (simp add: joiners_upd)
  then have "slot_shape ?T ?nb ?e (ro(i := R_fetch))"
    using shape assms(2,4) i by (auto simp: slot_shape_def role_upd bit_or_iff split: if_splits)
  moreover have "slot_blocks env ?e (ro(i := R_fetch)) bs c"
    by (rule slot_blocks_upd [OF _ assms(4) refl]) (use assms(1,3) in \<open>auto simp: slot_ok_def\<close>)
  ultimately show ?thesis
    using assms(1) by (simp add: slot_ok_def slot_totals_def)
qed

text \<open>The block counter cannot wrap: it runs past the last block at most once per worker.\<close>

lemma block_counter_small:
  assumes "env_ok env" and "length c < 2 ^ 63" and "n \<le> block_count (te_block env) (length c) + te_threads env"
  shows "n * te_block env < 2 ^ 64" and "n < 2 ^ 63 + 31"
proof -
  let ?B = "te_block env" and ?nb = "block_count (te_block env) (length c)"
  have B: "0 < ?B" "?B < 2 ^ 31" "te_threads env \<le> 30"
    using assms(1) by (simp_all add: env_ok_def)
  have nb: "?nb * ?B \<le> length c + ?B - 1"
    by (simp add: block_count_def)
  have "n * ?B \<le> (?nb + 30) * ?B"
    using assms(3) B(3) by (intro mult_right_mono) simp_all
  also have "\<dots> = ?nb * ?B + 30 * ?B"
    by (simp add: algebra_simps)
  finally show "n * ?B < 2 ^ 64"
    using nb B(1,2) assms(2) by simp
  have "?nb \<le> ?nb * ?B"
    using B(1) by simp
  moreover have "?nb \<le> length c"
  proof (rule ccontr)
    assume "\<not> ?nb \<le> length c"
    then have "length c * ?B < length c"
      using block_count_less_iff [OF B(1), of "length c" "length c"] by simp
    then show False
      using B(1) by simp
  qed
  ultimately show "n < 2 ^ 63 + 31"
    using assms(2,3) B(3) by simp
qed

lemma slot_fetch:
  assumes "slot_ok env e ro bs c" and "ro i = R_fetch" and "i < te_threads env"
    and "env_ok env" and "length c < 2 ^ 63"
  shows "slot_ok env (e\<lparr>st_block_offset := st_block_offset e + 1\<rparr>) (ro(i := R_read (st_block_offset e))) bs c"
proof -
  let ?T = "te_threads env" and ?nb = "block_count (te_block env) (length c)" and ?n = "unat (st_block_offset e)"
  let ?e = "e\<lparr>st_block_offset := st_block_offset e + 1\<rparr>" and ?ro = "ro(i := R_read (st_block_offset e))"
  have shape: "slot_shape ?T ?nb e ro"
    using ok_shape [OF assms(1,3)] assms(2) by simp
  have i: "i \<in> joiners ?T ro" "i \<in> movers ?T ?nb ro" "i \<notin> finishers ?T ro"
    using assms(2,3) by (simp_all add: role_sets_mem)
  have "?n \<le> ?nb + ?T"
    using shape_block_offset [OF shape] by simp
  then have "?n < 2 ^ 63 + 31"
    by (rule block_counter_small(2) [OF assms(4,5)])
  then have n: "unat (st_block_offset e + 1) = Suc ?n"
    by (simp add: unat_word_ariths)
  have js: "joiners ?T ?ro = joiners ?T ro" "finishers ?T ?ro = finishers ?T ro"
    using i assms(3) by (auto simp: role_upd)
  have "?ro j = R_eof \<longleftrightarrow> ro j = R_eof" for j
    using assms(2) by simp
  then have eofs: "(\<exists>j<?T. ?ro j = R_eof) \<longleftrightarrow> (\<exists>j<?T. ro j = R_eof)"
    by (simp only:)
  have mv: "movers ?T ?nb ?ro = (if ?n < ?nb then movers ?T ?nb ro else movers ?T ?nb ro - {i})"
    using i assms(3) by (auto simp: role_upd)
  then have "card (movers ?T ?nb ?ro) = (if ?n < ?nb then card (movers ?T ?nb ro) else card (movers ?T ?nb ro) - 1)"
    using i(2) by simp
  moreover have "0 < card (movers ?T ?nb ro)"
    using i(2) by (auto simp: card_gt_0_iff)
  ultimately have "Suc ?n - ?nb + card (movers ?T ?nb ?ro) = ?n - ?nb + card (movers ?T ?nb ro)"
    by (cases "?n < ?nb") auto
  then have "slot_shape ?T ?nb ?e ?ro"
    using shape unfolding slot_shape_def js eofs by (auto simp: n)
  moreover have "slot_blocks env ?e ?ro bs c"
  proof -
    have "drawn ?T ?nb ?ro = drawn ?T ?nb ro + (if ?n < ?nb then {#?n#} else {#})"
      using drawn_upd [OF assms(3), of ?nb ro "R_read (st_block_offset e)"] assms(2) by simp
    moreover have "mset_set {0..<min (Suc ?n) ?nb} = mset_set {0..<min ?n ?nb} + (if ?n < ?nb then {#?n#} else {#})"
      by (auto simp: min_def atLeast0_lessThan_Suc)
    ultimately show ?thesis
      using assms(1) by (auto simp: slot_ok_def slot_blocks_def Let_def n less_Suc_eq)
  qed
  ultimately show ?thesis
    using assms(1) by (simp add: slot_ok_def slot_totals_def)
qed

text \<open>A step that changes neither the entry nor who has joined.\<close>

lemma slot_shape_same:
  assumes "slot_shape T nb e ro" and "i < T" and "joined (ro i)" and "joined r"
    and "past_end nb r = past_end nb (ro i)" and "r = R_eof \<longrightarrow> nb \<le> unat (st_block_offset e)"
    and "st_state e' = st_state e" and "st_block_offset e' = st_block_offset e"
  shows "slot_shape T nb e' (ro(i := r))"
proof -
  have i: "i \<in> joiners T ro" "i \<notin> finishers T ro"
    using assms(2,3) by (cases "ro i"; simp add: role_sets_mem)+
  have "\<not> finishing r"
    using assms(4) by (cases r) simp_all
  then have "joiners T (ro(i := r)) = joiners T ro" "finishers T (ro(i := r)) = finishers T ro"
    "movers T nb (ro(i := r)) = movers T nb ro"
    using i assms(2-5) by (auto simp: role_upd)
  then show ?thesis
    using assms(1,2,6-8) unfolding slot_shape_def by auto
qed

lemma read_offset:
  fixes k :: u64
  assumes "env_ok env" and "length c < 2 ^ 63"
    and "unat k \<le> block_count (te_block env) (length c) + te_threads env"
  shows "unat (k * of_nat (te_block env)) = unat k * te_block env"
proof -
  have "unat (of_nat (te_block env) :: u64) = te_block env"
    using assms(1) by (simp add: env_ok_def unat_of_nat take_bit_nat_eq_self)
  then show ?thesis
    using block_counter_small(1) [OF assms] by (simp add: unat_word_ariths(2))
qed

lemma slot_read:
  assumes "slot_ok env e ro bs c" and "ro i = R_read k" and "i < te_threads env"
    and "env_ok env" and "length c < 2 ^ 63" and "d = pread (te_block env) (unat (k * of_nat (te_block env))) c"
  shows "slot_ok env e (ro(i := if d = [] then R_eof else R_send k d)) bs c"
proof -
  let ?T = "te_threads env" and ?B = "te_block env" and ?n = "unat (st_block_offset e)"
  let ?nb = "block_count ?B (length c)" and ?r = "if d = [] then R_eof else R_send k d"
  have shape: "slot_shape ?T ?nb e ro"
    using ok_shape [OF assms(1,3)] assms(2) by simp
  have k: "unat k < ?n"
    using assms(1-3) by (auto simp: slot_ok_def slot_blocks_def Let_def)
  then have off: "unat (k * of_nat ?B) = unat k * ?B"
    using shape_block_offset [OF shape] by (intro read_offset [OF assms(4,5)]) simp
  have B: "0 < ?B"
    using assms(4) by (simp add: env_ok_def)
  have d: "d = [] \<longleftrightarrow> ?nb \<le> unat k"
    using B unfolding assms(6) off
    by (simp add: pread_def not_less [symmetric] block_count_less_iff)
  have "slot_shape ?T ?nb e (ro(i := ?r))"
    by (rule slot_shape_same [OF shape assms(3)]) (use assms(2) d k in auto)
  moreover have "slot_blocks env e (ro(i := ?r)) bs c"
    by (rule slot_blocks_upd [OF _ assms(3) refl])
      (use assms(1,2) d k in \<open>auto simp: slot_ok_def assms(6) off split: if_splits\<close>)
  ultimately show ?thesis
    using assms(1) by (simp add: slot_ok_def)
qed

lemma blocks_crc_snoc:
  "blocks_crc env (bs @ [b]) = blocks_crc env bs XOR (if te_do_hash env then te_hash env (fb_data b) else 0)"
proof -
  have "foldr (\<lambda>b a. te_hash env (fb_data b) XOR a) bs v = foldr (\<lambda>b a. te_hash env (fb_data b) XOR a) bs 0 XOR v" for v
    by (induction bs) (simp_all add: xor.assoc)
  from this [of "te_hash env (fb_data b)"] show ?thesis
    by (simp add: blocks_crc_def)
qed

lemma slot_totals_send:
  "slot_totals env e bs \<Longrightarrow>
   slot_totals env (stat_update 1 (of_nat (length (fb_data b))) (if te_do_hash env then te_hash env (fb_data b) else 0) e) (bs @ [b])"
  by (simp add: slot_totals_def stat_update_def blocks_crc_snoc algebra_simps)

lemma slot_send:
  assumes "slot_ok env e ro bs c" and "ro i = R_send k d" and "i < te_threads env"
    and "env_ok env" and "length c < 2 ^ 63"
  defines "b \<equiv> \<lparr>fb_file_no = st_file_no e, fb_offset = k * of_nat (te_block env), fb_data = d\<rparr>"
  shows "slot_ok env (stat_update 1 (of_nat (length d)) (if te_do_hash env then te_hash env d else 0) e)
           (ro(i := R_fetch)) (bs @ [b]) c"
proof -
  let ?T = "te_threads env" and ?B = "te_block env" and ?nb = "block_count (te_block env) (length c)"
  let ?e = "stat_update 1 (of_nat (length d)) (if te_do_hash env then te_hash env d else 0) e"
  have shape: "slot_shape ?T ?nb e ro"
    using ok_shape [OF assms(1,3)] assms(2) by simp
  have k: "unat k < ?nb" "d = pread ?B (unat k * ?B) c"
    using assms(1-3) by (auto simp: slot_ok_def slot_blocks_def Let_def)
  have "of_nat (unat k * ?B) = k * of_nat ?B"
    by simp
  then have b: "b = nth_block ?B (st_file_no e) c (unat k)"
    using k(2) by (simp add: b_def nth_block_def)
  have "slot_shape ?T ?nb ?e (ro(i := R_fetch))"
    by (rule slot_shape_same [OF shape assms(3)]) (use assms(2) in \<open>simp_all add: stat_update_def\<close>)
  moreover have "slot_blocks env ?e (ro(i := R_fetch)) (bs @ [b]) c"
  proof -
    have dr: "drawn ?T ?nb ro = add_mset (unat k) (drawn ?T ?nb (ro(i := R_fetch)))"
      using drawn_upd [OF assms(3), of ?nb ro R_fetch] assms(2) by simp
    then show ?thesis
      using assms(1) by (auto simp: slot_ok_def slot_blocks_def Let_def b stat_update_def dr)
  qed
  moreover have "slot_totals env ?e (bs @ [b])"
  proof -
    have fb: "fb_data b = d"
      by (simp add: b_def)
    have "slot_totals env e bs"
      using assms(1) by (simp add: slot_ok_def)
    from slot_totals_send [OF this, of b] show ?thesis
      unfolding fb .
  qed
  ultimately show ?thesis
    by (simp add: slot_ok_def)
qed

lemma slot_remove:
  assumes "slot_ok env e ro bs c" and "ro i = R_eof" and "i < te_threads env" and "env_ok env"
    and "st = st_state e AND NOT (id_bit i OR FS_IO)"
  shows "slot_ok env (e\<lparr>st_state := st\<rparr>) (ro(i := if st = FS_COMPLETE then R_close else R_none)) bs c"
proof -
  let ?T = "te_threads env" and ?nb = "block_count (te_block env) (length c)"
  let ?r = "if st = FS_COMPLETE then R_close else R_none"
  have shape: "slot_shape ?T ?nb e ro"
    using ok_shape [OF assms(1,3)] assms(2) by simp
  have i: "i < 30" "i \<in> joiners ?T ro" "i \<notin> movers ?T ?nb ro"
    using assms(2-4) by (simp_all add: role_sets_mem env_ok_def)
  then have "card (finishers ?T ro) = 0"
    using shape by (auto simp: slot_shape_def)
  then have F: "finishers ?T ro = {}"
    by simp
  have bits: "bit st b \<longleftrightarrow> bit (st_state e) b \<and> b \<noteq> i \<and> b \<noteq> 31" for b
    using i(1) unfolding assms(5)
    by (auto simp: bit_and_iff bit_not_iff bit_or_iff dest: bit_imp_le_length)
  have J: "j \<in> joiners ?T ro \<longleftrightarrow> j \<noteq> 30 \<and> j \<noteq> 31 \<and> bit (st_state e) j" for j
    using shape assms(4) by (auto simp: slot_shape_def joiners_def env_ok_def)
  have "bit st 30"
    using shape i(1) by (simp add: bits slot_shape_def)
  have "(\<forall>b. bit st b \<longleftrightarrow> b = 30) \<longleftrightarrow> joiners ?T ro - {i} = {}"
  proof
    assume "\<forall>b. bit st b \<longleftrightarrow> b = 30"
    moreover have "bit st j \<and> j \<noteq> 30" if "j \<in> joiners ?T ro - {i}" for j
      using that by (simp add: bits J)
    ultimately show "joiners ?T ro - {i} = {}"
      by blast
  next
    assume "joiners ?T ro - {i} = {}"
    then have "b = 30" if "bit st b" for b
      using that J [of b] unfolding bits by blast
    then show "\<forall>b. bit st b \<longleftrightarrow> b = 30"
      using \<open>bit st 30\<close> by blast
  qed
  moreover have "st = FS_COMPLETE \<longleftrightarrow> (\<forall>b. bit st b \<longleftrightarrow> b = 30)"
    using bit_FS_COMPLETE by (metis bit_eqI)
  ultimately have last: "st = FS_COMPLETE \<longleftrightarrow> joiners ?T ro - {i} = {}"
    by (simp only:)
  have upd: "joiners ?T (ro(i := ?r)) = joiners ?T ro - {i}" "movers ?T ?nb (ro(i := ?r)) = movers ?T ?nb ro"
    "finishers ?T (ro(i := ?r)) = (if st = FS_COMPLETE then {i} else {})"
    using assms(3) i F by (auto simp: role_upd)
  have "?nb \<le> unat (st_block_offset e)"
    using shape assms(2,3) by (auto simp: slot_shape_def)
  then have "slot_shape ?T ?nb (e\<lparr>st_state := st\<rparr>) (ro(i := ?r))"
    using shape i(1) last \<open>bit st 30\<close> unfolding slot_shape_def upd by (auto simp: bits J)
  moreover have "slot_blocks env (e\<lparr>st_state := st\<rparr>) (ro(i := ?r)) bs c"
    by (rule slot_blocks_upd [OF _ assms(3) refl]) (use assms(1,2) in \<open>auto simp: slot_ok_def split: if_splits\<close>)
  ultimately show ?thesis
    using assms(1) by (simp add: slot_ok_def slot_totals_def)
qed

lemma slot_finishing:
  assumes "slot_ok env e ro bs c" and "finishing (ro i)" and "finishing r" and "i < te_threads env"
  shows "slot_ok env e (ro(i := r)) bs c"
proof -
  let ?T = "te_threads env" and ?nb = "block_count (te_block env) (length c)"
  have r: "\<not> joined r" "r \<noteq> R_eof" "in_hand ?nb r = {#}" "\<And>k. r \<noteq> R_read k" "\<And>k d. r \<noteq> R_send k d"
    using assms(3) by (cases r; simp)+
  have old: "\<not> joined (ro i)" "ro i \<noteq> R_eof" "in_hand ?nb (ro i) = {#}" "ro i \<noteq> R_none"
    using assms(2) by (cases "ro i"; simp)+
  have "slot_shape ?T ?nb e ro"
    using ok_shape [OF assms(1,4) old(4)] .
  moreover have "joiners ?T (ro(i := r)) = joiners ?T ro" "movers ?T ?nb (ro(i := r)) = movers ?T ?nb ro"
    "finishers ?T (ro(i := r)) = finishers ?T ro"
    using assms(2-4) r(1) old(1) by (auto simp: role_upd)
  moreover have "(ro(i := r)) j = R_eof \<longleftrightarrow> ro j = R_eof" for j
    using r(2) old(2) by simp
  ultimately have "slot_shape ?T ?nb e (ro(i := r))"
    unfolding slot_shape_def by presburger
  moreover have "slot_blocks env e (ro(i := r)) bs c"
    by (rule slot_blocks_upd [OF _ assms(4) refl]) (use assms(1) r old in \<open>auto simp: slot_ok_def\<close>)
  ultimately show ?thesis
    using assms(1) by (simp add: slot_ok_def)
qed

text \<open>When a worker finishes a file, every block has been sent exactly once.\<close>

lemma slot_finished:
  assumes "slot_ok env e ro bs c" and "finishing (ro i)" and "i < te_threads env"
  shows "mset bs = mset (file_blocks (te_block env) (st_file_no e) c)"
proof -
  let ?T = "te_threads env" and ?nb = "block_count (te_block env) (length c)"
  have "ro i \<noteq> R_none"
    using assms(2) by auto
  then have shape: "slot_shape ?T ?nb e ro"
    using ok_shape [OF assms(1,3)] by simp
  have "finishers ?T ro \<noteq> {}"
    using assms(2,3) by (auto simp: finishers_def)
  then have none: "joiners ?T ro = {}"
    using shape by (auto simp: slot_shape_def split: if_splits)
  then have "in_hand ?nb (ro j) = {#}" if "j < ?T" for j
    using that by (cases "ro j") (auto simp: joiners_def)
  then have "drawn ?T ?nb ro = {#}"
    by (simp add: drawn_def)
  moreover have "?nb \<le> unat (st_block_offset e)"
    using shape none by (simp add: slot_shape_def)
  ultimately show ?thesis
    using assms(1) by (simp add: slot_ok_def slot_blocks_def Let_def file_blocks_def min_absorb2)
qed

end
