(* ===== verification/Send_Complete.thy ===== *)
theory Send_Complete
  imports Send_Workers
begin

text \<open>
  The invariant of the sending workers and what it gives: a file is reported as complete only
  when every block of it was sent exactly once with the right contents, and the report carries
  its size, the number of its blocks and the exclusive or of their hashes.
\<close>

section \<open>The invariant of the whole state\<close>

text \<open>Every copy of an entry that a worker keeps, also before it has joined.\<close>

fun pc_local :: "tx_pc \<Rightarrow> file_stat_type option" where
  "pc_local (Tx_attach k j l) = Some l"
| "pc_local pc = map_option snd (pc_copy pc)"

abbreviation roles :: "tx_state \<Rightarrow> nat \<Rightarrow> nat \<Rightarrow> tx_role" where
  "roles s x \<equiv> \<lambda>i. role x (tx_wk s i)"

definition fd_closed :: "tx_env \<Rightarrow> tx_state \<Rightarrow> nat \<Rightarrow> bool" where
  "fd_closed env s x \<longleftrightarrow> (\<exists>i < te_threads env. roles s x i = R_push \<or> roles s x i = R_wipe)"

definition slot_inv :: "tx_env \<Rightarrow> tx_state \<Rightarrow> nat \<Rightarrow> bool" where
  "slot_inv env s x \<longleftrightarrow>
     (if st_state (entry s x) = 0 then \<forall>i < te_threads env. roles s x i = R_none
      else \<exists>c. tx_added s (st_file_no (entry s x)) = Some (st_fd (entry s x), c) \<and>
             slot_ok env (entry s x) (roles s x) (sent_blocks (st_file_no (entry s x)) s) c \<and>
             (tx_fds s (st_fd (entry s x)) = Some (st_file_no (entry s x), c) \<or> fd_closed env s x))"

definition copy_inv :: "tx_state \<Rightarrow> tx_pc \<Rightarrow> bool" where
  "copy_inv s pc \<longleftrightarrow>
     (\<forall>l. pc_local pc = Some l \<longrightarrow> (\<exists>c. tx_added s (st_file_no l) = Some (st_fd l, c))) \<and>
     (\<forall>k j l. pc = Tx_attach k j l \<longrightarrow> bit (st_state l) 31)"

definition file_report :: "tx_env \<Rightarrow> fino \<Rightarrow> bytes \<Rightarrow> fc_info_struct" where
  "file_report env f c =
     fc_make f (of_nat (length c)) (of_nat (block_count (te_block env) (length c)))
       (blocks_crc env (file_blocks (te_block env) f c))"

definition report_ok :: "tx_env \<Rightarrow> tx_state \<Rightarrow> fc_info_struct \<Rightarrow> bool" where
  "report_ok env s fc \<longleftrightarrow>
     (\<exists>fd c. tx_added s (fis_file_no fc) = Some (fd, c) \<and> fc = file_report env (fis_file_no fc) c \<and>
        mset (sent_blocks (fis_file_no fc) s) = mset (file_blocks (te_block env) (fis_file_no fc) c)) \<and>
     (\<forall>x. st_file_no (entry s x) = fis_file_no fc \<longrightarrow> (\<exists>i < te_threads env. roles s x i = R_wipe))"

definition added_inv :: "tx_state \<Rightarrow> bool" where
  "added_inv s \<longleftrightarrow>
     (\<forall>f fd c. tx_added s f = Some (fd, c) \<longrightarrow> f \<noteq> 0 \<and> 0 < fd \<and> length c < 2 ^ 63) \<and>
     (\<forall>f. tx_added s f = None \<longrightarrow> sent_blocks f s = [])"

definition tx_inv :: "tx_env \<Rightarrow> tx_state \<Rightarrow> bool" where
  "tx_inv env s \<longleftrightarrow>
     fs_inv (tx_io s) \<and> (\<forall>x. slot_inv env s x) \<and> (\<forall>i < te_threads env. copy_inv s (tx_wk s i)) \<and>
     own_copies env s \<and> added_inv s \<and> (\<forall>fc \<in> set (tx_fc s). report_ok env s fc) \<and>
     distinct (map fis_file_no (tx_fc s))"

subsection \<open>Frame lemmas\<close>

lemma roles_upd: "tx_wk s' = (tx_wk s)(i := pc) \<Longrightarrow> roles s' x = (roles s x)(i := role x pc)"
  by (rule ext) simp

lemma slot_inv_frame:
  assumes "slot_inv env s x" and "entry s' x = entry s x" and "roles s' x = roles s x"
    and "sent_blocks (st_file_no (entry s x)) s' = sent_blocks (st_file_no (entry s x)) s"
    and "tx_added s \<subseteq>\<^sub>m tx_added s'"
    and "\<And>c. tx_fds s (st_fd (entry s x)) = Some (st_file_no (entry s x), c) \<Longrightarrow>
      tx_fds s' (st_fd (entry s x)) = Some (st_file_no (entry s x), c)"
  shows "slot_inv env s' x"
proof (cases "st_state (entry s x) = 0")
  case True
  then show ?thesis
    using assms(1-3) by (simp add: slot_inv_def fun_eq_iff)
next
  case False
  then obtain c where c: "tx_added s (st_file_no (entry s x)) = Some (st_fd (entry s x), c)"
    "slot_ok env (entry s x) (roles s x) (sent_blocks (st_file_no (entry s x)) s) c"
    "tx_fds s (st_fd (entry s x)) = Some (st_file_no (entry s x), c) \<or> fd_closed env s x"
    using assms(1) by (auto simp: slot_inv_def)
  have "tx_added s' (st_file_no (entry s x)) = Some (st_fd (entry s x), c)"
    using assms(5) c(1) unfolding map_le_def by (metis domI)
  moreover have "fd_closed env s' x = fd_closed env s x"
    using assms(3) by (simp add: fd_closed_def fun_eq_iff)
  ultimately show ?thesis
    using False c(2,3) assms(2-4,6) by (auto simp: slot_inv_def)
qed

lemma copy_inv_frame: "copy_inv s pc \<Longrightarrow> tx_added s \<subseteq>\<^sub>m tx_added s' \<Longrightarrow> copy_inv s' pc"
  unfolding copy_inv_def map_le_def by (metis domI)

lemma report_frame:
  assumes "report_ok env s fc" and "tx_added s \<subseteq>\<^sub>m tx_added s'"
    and "sent_blocks (fis_file_no fc) s' = sent_blocks (fis_file_no fc) s"
    and "\<And>x. st_file_no (entry s' x) = fis_file_no fc \<Longrightarrow>
      st_file_no (entry s x) = fis_file_no fc \<and> ((\<exists>i < te_threads env. roles s x i = R_wipe) \<longrightarrow>
        (\<exists>i < te_threads env. roles s' x i = R_wipe))"
  shows "report_ok env s' fc"
proof -
  obtain fd c where c: "tx_added s (fis_file_no fc) = Some (fd, c)" "fc = file_report env (fis_file_no fc) c"
    "mset (sent_blocks (fis_file_no fc) s) = mset (file_blocks (te_block env) (fis_file_no fc) c)"
    using assms(1) by (auto simp: report_ok_def)
  have "tx_added s' (fis_file_no fc) = Some (fd, c)"
    using assms(2) c(1) unfolding map_le_def by (metis domI)
  then show ?thesis
    using c(2,3) assms(1,3,4) unfolding report_ok_def by metis
qed

text \<open>A step of a worker that changes at most one slot, its own position and the blocks of one file.\<close>

lemma worker_frame:
  assumes inv: "tx_inv env s" and i: "i < te_threads env" and wk: "tx_wk s' = (tx_wk s)(i := pc)"
    and same: "tx_added s' = tx_added s" "tx_fc s' = tx_fc s" "tx_fds s' = tx_fds s"
    and tab: "\<And>y. y \<noteq> x \<Longrightarrow> entry s' y = entry s y" "st_file_no (entry s' x) = st_file_no (entry s x)"
    and roles: "\<And>y. y \<noteq> x \<Longrightarrow> role y pc = role y (tx_wk s i)" "role x (tx_wk s i) \<noteq> R_wipe"
    and sent: "\<And>g. g \<noteq> st_file_no (entry s x) \<Longrightarrow> sent_blocks g s' = sent_blocks g s"
    and sent_x: "sent_blocks (st_file_no (entry s x)) s' = sent_blocks (st_file_no (entry s x)) s \<or>
      st_state (entry s x) \<noteq> 0 \<and> st_file_no (entry s x) \<notin> fis_file_no ` set (tx_fc s)"
    and new: "fs_inv (tx_io s')" "slot_inv env s' x" "copy_inv s pc" "own_copies env s'"
  shows "tx_inv env s'"
proof -
  note parts = inv [unfolded tx_inv_def]
  have ro: "roles s' y = roles s y" if "y \<noteq> x" for y
    using roles(1) [OF that] by (simp add: roles_upd [OF wk] fun_eq_iff)
  have used: "st_file_no (entry s y) \<noteq> st_file_no (entry s x)" if "y \<noteq> x" "st_state (entry s x) \<noteq> 0" for y
    using used_slot_unique [of "tx_io s" y x] parts that by blast
  have "slot_inv env s' y" for y
  proof (cases "y = x")
    case False
    have "sent_blocks (st_file_no (entry s y)) s' = sent_blocks (st_file_no (entry s y)) s"
      using sent sent_x used [OF False] by (cases "st_file_no (entry s y) = st_file_no (entry s x)") auto
    moreover have "slot_inv env s y"
      using parts by blast
    ultimately show ?thesis
      by (intro slot_inv_frame [of env s y s'])
        (use tab(1) [OF False] ro [OF False] same in simp_all)
  qed (use new(2) in simp)
  moreover have "\<forall>j < te_threads env. copy_inv s' (tx_wk s' j)"
    using parts new(3) copy_inv_frame [of s _ s'] same(1) by (simp add: wk)
  moreover have "added_inv s'"
  proof -
    have "sent_blocks f s' = []" if "tx_added s f = None" for f
    proof (cases "sent_blocks f s' = sent_blocks f s")
      case True
      then show ?thesis
        using that parts by (simp add: added_inv_def)
    next
      case False
      then have "f = st_file_no (entry s x)"
        using sent by blast
      moreover from this False have "st_state (entry s x) \<noteq> 0"
        using sent_x by blast
      moreover have "slot_inv env s x"
        using parts by blast
      ultimately show ?thesis
        using that by (auto simp: slot_inv_def)
    qed
    then show ?thesis
      using parts same(1) by (simp add: added_inv_def)
  qed
  moreover have "report_ok env s' fc" if "fc \<in> set (tx_fc s)" for fc
  proof (rule report_frame)
    show "report_ok env s fc" "tx_added s \<subseteq>\<^sub>m tx_added s'"
      using parts that same(1) by simp_all
    show "sent_blocks (fis_file_no fc) s' = sent_blocks (fis_file_no fc) s"
      using sent sent_x imageI [OF that, of fis_file_no] by metis
    fix y assume y: "st_file_no (entry s' y) = fis_file_no fc"
    have "roles s y j = R_wipe \<Longrightarrow> roles s' y j = R_wipe" for j
      using roles by (cases "y = x"; cases "j = i") (auto simp: wk)
    then show "st_file_no (entry s y) = fis_file_no fc \<and> ((\<exists>i<te_threads env. roles s y i = R_wipe) \<longrightarrow>
        (\<exists>i<te_threads env. roles s' y i = R_wipe))"
      using y tab by (cases "y = x") auto
  qed
  ultimately show ?thesis
    using parts new(1,4) same(2) by (simp add: tx_inv_def)
qed

subsection \<open>Every step keeps the invariant\<close>

lemma slot_invD:
  assumes "tx_inv env s" and "i < te_threads env" and "roles s x i \<noteq> R_none"
  obtains c where "st_state (entry s x) \<noteq> 0" and "tx_added s (st_file_no (entry s x)) = Some (st_fd (entry s x), c)"
    and "slot_ok env (entry s x) (roles s x) (sent_blocks (st_file_no (entry s x)) s) c"
    and "tx_fds s (st_fd (entry s x)) = Some (st_file_no (entry s x), c) \<or> fd_closed env s x"
    and "length c < 2 ^ 63"
proof -
  have "slot_inv env s x" "added_inv s"
    using assms(1) by (simp_all add: tx_inv_def)
  then show ?thesis
    using assms(2,3) that unfolding slot_inv_def added_inv_def by (auto split: if_splits)
qed

lemma finisher_unique:
  assumes "slot_ok env e ro bs c" and "finishing (ro i)" and "finishing (ro j)" and "i < te_threads env" and "j < te_threads env"
  shows "i = j"
proof -
  have "ro i \<noteq> R_none"
    using assms(2) by auto
  then have "card (finishers (te_threads env) ro) \<le> 1"
    using ok_shape [OF assms(1,4)] by (simp add: slot_shape_def)
  moreover have "{i, j} \<subseteq> finishers (te_threads env) ro"
    using assms(2-5) by (simp add: finishers_def)
  ultimately have "card {i, j} \<le> 1"
    by (meson card_mono le_trans role_sets_finite(2))
  then show ?thesis
    by (cases "i = j") simp_all
qed

lemma joined_no_finisher:
  assumes "slot_ok env e ro bs c" and "joined (ro i)" and "i < te_threads env" and "j < te_threads env"
  shows "\<not> finishing (ro j)"
proof -
  have "ro i \<noteq> R_none"
    using assms(2) by auto
  moreover have "joiners (te_threads env) ro \<noteq> {}"
    using assms(2,3) by (auto simp: joiners_def)
  ultimately have "card (finishers (te_threads env) ro) = 0"
    using ok_shape [OF assms(1,3)] by (auto simp: slot_shape_def)
  then show ?thesis
    using assms(4) by (auto simp: finishers_def)
qed

text \<open>What holds at a worker on its slot up to the closing of the descriptor.\<close>

lemma copy_slot:
  assumes "tx_inv env s" and "i < te_threads env" and "pc_copy (tx_wk s i) = Some (x, l)"
  obtains c where "st_state (entry s x) \<noteq> 0" and "tx_added s (st_file_no (entry s x)) = Some (st_fd (entry s x), c)"
    and "slot_ok env (entry s x) (roles s x) (sent_blocks (st_file_no (entry s x)) s) c"
    and "tx_fds s (st_fd (entry s x)) = Some (st_file_no (entry s x), c)"
    and "length c < 2 ^ 63" and "st_file_no l = st_file_no (entry s x)" and "st_fd l = st_fd (entry s x)"
    and "copy_inv s (tx_wk s i)"
proof -
  have r: "joined (roles s x i) \<or> roles s x i = R_close"
    using assms(3) by (cases "tx_wk s i") auto
  then have "roles s x i \<noteq> R_none"
    by auto
  then obtain c where c: "st_state (entry s x) \<noteq> 0" "tx_added s (st_file_no (entry s x)) = Some (st_fd (entry s x), c)"
    "slot_ok env (entry s x) (roles s x) (sent_blocks (st_file_no (entry s x)) s) c"
    "tx_fds s (st_fd (entry s x)) = Some (st_file_no (entry s x), c) \<or> fd_closed env s x" "length c < 2 ^ 63"
    using slot_invD [OF assms(1,2)] by blast
  have "\<not> fd_closed env s x"
  proof
    assume "fd_closed env s x"
    then obtain j where j: "j < te_threads env" "finishing (roles s x j)" "roles s x j \<noteq> R_close"
      by (auto simp: fd_closed_def)
    then show False
      using r joined_no_finisher [OF c(3) _ assms(2) j(1)] finisher_unique [OF c(3) _ j(2) assms(2) j(1)] by auto
  qed
  moreover have l: "st_file_no l = st_file_no (entry s x)" "copy_inv s (tx_wk s i)"
    using assms by (auto simp: tx_inv_def own_copies_def)
  moreover have "pc_local (tx_wk s i) = Some l"
    using assms(3) by (cases "tx_wk s i") auto
  then have "st_fd l = st_fd (entry s x)"
    using l c(2) by (auto simp: copy_inv_def)
  ultimately show ?thesis
    using that c by blast
qed

lemma idle_frame:
  assumes "tx_inv env s" and "i < te_threads env" and "tx_wk s' = (tx_wk s)(i := pc)"
    and "tx_io s' = tx_io s" and "tx_added s' = tx_added s" and "tx_fc s' = tx_fc s" and "tx_fds s' = tx_fds s"
    and "tx_sent s' = tx_sent s" and "\<And>y. role y (tx_wk s i) = R_none" and "\<And>y. role y pc = R_none"
    and "copy_inv s pc" and "own_copies env s'"
  shows "tx_inv env s'"
proof -
  have "roles s' 0 = roles s 0"
    using assms(9,10) by (simp add: roles_upd [OF assms(3)] fun_eq_iff)
  moreover have "sent_blocks g s' = sent_blocks g s" for g
    using assms(8) by (simp add: sent_blocks_def)
  moreover have "slot_inv env s 0"
    using assms(1) by (simp add: tx_inv_def)
  ultimately have "slot_inv env s' 0"
    by (intro slot_inv_frame [of env s 0 s']) (use assms(4-7) in simp_all)
  then show ?thesis
    using assms \<open>\<And>g. sent_blocks g s' = sent_blocks g s\<close>
    by (intro worker_frame [OF assms(1-3), of 0]) (simp_all add: tx_inv_def)
qed

lemma goto_simps [simp]:
  "tx_wk (goto i pc s) = (tx_wk s)(i := pc)" "tx_io (goto i pc s) = tx_io s" "tx_added (goto i pc s) = tx_added s"
  "tx_fds (goto i pc s) = tx_fds s" "tx_fc (goto i pc s) = tx_fc s" "tx_sent (goto i pc s) = tx_sent s"
  "tx_dead (goto i pc s) = tx_dead s" "sent_blocks f (goto i pc s) = sent_blocks f s"
  by (simp_all add: goto_def sent_blocks_def)

lemma set_entry_simps [simp]:
  "tx_wk (set_entry x e s) = tx_wk s" "fs_tab (tx_io (set_entry x e s)) = (fs_tab (tx_io s))(x := e)"
  "tx_added (set_entry x e s) = tx_added s" "tx_fds (set_entry x e s) = tx_fds s" "tx_fc (set_entry x e s) = tx_fc s"
  "tx_sent (set_entry x e s) = tx_sent s" "tx_dead (set_entry x e s) = tx_dead s"
  "sent_blocks f (set_entry x e s) = sent_blocks f s"
  by (simp_all add: set_entry_def sent_blocks_def)

lemma fs_inv_set_entry:
  assumes "fs_inv (tx_io s)" and "st_state (entry s x) \<noteq> 0" and "st_state e \<noteq> 0"
    and "st_file_no e = st_file_no (entry s x)" and "st_position e = st_position (entry s x)"
  shows "fs_inv (tx_io (set_entry x e s))"
  using fs_inv_upd [OF assms] by (simp add: set_entry_def)

text \<open>A step of a worker on its slot, up to the closing of the descriptor.\<close>

lemma slot_frame:
  assumes inv: "tx_inv env s" and i: "i < te_threads env" and wk: "tx_wk s' = (tx_wk s)(i := pc)"
    and same: "tx_added s' = tx_added s" "tx_fc s' = tx_fc s" "tx_fds s' = tx_fds s"
    and tab: "fs_tab (tx_io s') = (fs_tab (tx_io s))(x := e)"
    and e: "st_state e \<noteq> 0" "st_file_no e = st_file_no (entry s x)" "st_position e = st_position (entry s x)"
      "st_fd e = st_fd (entry s x)"
    and old: "st_state (entry s x) \<noteq> 0" "tx_added s (st_file_no e) = Some (st_fd e, c)"
      "tx_fds s (st_fd e) = Some (st_file_no e, c)"
    and roles: "\<And>y. y \<noteq> x \<Longrightarrow> role y pc = role y (tx_wk s i)" "role x (tx_wk s i) \<noteq> R_wipe"
    and sent: "\<And>g. g \<noteq> st_file_no e \<Longrightarrow> sent_blocks g s' = sent_blocks g s"
    and sent_x: "sent_blocks (st_file_no e) s' = sent_blocks (st_file_no e) s \<or>
      st_file_no e \<notin> fis_file_no ` set (tx_fc s)"
    and ok: "slot_ok env e ((roles s x)(i := role x pc)) (sent_blocks (st_file_no e) s') c"
    and new: "copy_inv s pc" "own_copies env s'"
  shows "tx_inv env s'"
proof (rule worker_frame [OF inv i wk same, of x])
  have "fs_inv ((tx_io s)\<lparr>fs_tab := (fs_tab (tx_io s))(x := e)\<rparr>)"
    using inv by (intro fs_inv_upd) (use e old in \<open>auto simp: tx_inv_def\<close>)
  then show "fs_inv (tx_io s')"
    by (rule fs_inv_cong [THEN iffD1, rotated]) (simp add: tab)
  have "entry s' x = e"
    by (simp add: tab)
  then show "slot_inv env s' x"
    unfolding slot_inv_def roles_upd [OF wk] using e(1,4) old(2,3) ok same by simp
  show "\<And>y. y \<noteq> x \<Longrightarrow> entry s' y = entry s y" "st_file_no (entry s' x) = st_file_no (entry s x)"
    using e(2) by (simp_all add: tab)
  show "sent_blocks (st_file_no (entry s x)) s' = sent_blocks (st_file_no (entry s x)) s \<or>
      st_state (entry s x) \<noteq> 0 \<and> st_file_no (entry s x) \<notin> fis_file_no ` set (tx_fc s)"
    using sent_x old(1) e(2) by simp
qed (use e(2) roles sent new in simp_all)

lemma step_attach:
  assumes "tx_inv env s" and "env_ok env" and "i < te_threads env" and "tx_wk s i = Tx_attach k j l"
    and "own_copies env (attach_file i k j l s)"
  shows "tx_inv env (attach_file i k j l s)"
proof (cases "st_state (entry s j) = st_state l")
  case True
  have copy: "copy_inv s (tx_wk s i)"
    using assms(1,3) by (simp add: tx_inv_def)
  then have io: "bit (st_state (entry s j)) 31"
    using assms(4) True by (simp add: copy_inv_def)
  then have used: "st_state (entry s j) \<noteq> 0"
    by auto
  have "slot_inv env s j"
    using assms(1) by (simp add: tx_inv_def)
  then obtain c where c: "tx_added s (st_file_no (entry s j)) = Some (st_fd (entry s j), c)"
    "slot_ok env (entry s j) (roles s j) (sent_blocks (st_file_no (entry s j)) s) c"
    "tx_fds s (st_fd (entry s j)) = Some (st_file_no (entry s j), c) \<or> fd_closed env s j"
    using used by (auto simp: slot_inv_def)
  have "\<not> fd_closed env s j"
  proof
    assume "fd_closed env s j"
    then obtain m where m: "m < te_threads env" "finishing (roles s j m)" "roles s j m \<noteq> R_none"
      by (auto simp: fd_closed_def)
    then have shape: "slot_shape (te_threads env) (block_count (te_block env) (length c)) (entry s j) (roles s j)"
      using ok_shape [OF c(2)] by blast
    have "finishers (te_threads env) (roles s j) \<noteq> {}"
      using m by (auto simp: finishers_def)
    then show False
      using shape io by (auto simp: slot_shape_def split: if_splits)
  qed
  then have fds: "tx_fds s (st_fd (entry s j)) = Some (st_file_no (entry s j), c)"
    using c(3) by simp
  have "slot_ok env ((entry s j)\<lparr>st_state := st_state (entry s j) OR id_bit i\<rparr>) ((roles s j)(i := R_fetch))
      (sent_blocks (st_file_no (entry s j)) s) c"
    by (rule slot_attach [OF c(2) io _ assms(3,2)]) (simp add: assms(4))
  moreover have "copy_inv s (Tx_fetch j l)"
    using copy assms(4) by (simp add: copy_inv_def)
  moreover have "bit (st_state (entry s j) OR id_bit i) 31"
    using io by (simp add: bit_or_iff)
  then have "st_state (entry s j) OR id_bit i \<noteq> 0"
    by auto
  ultimately show ?thesis
    using assms(3-5) True c(1) fds used unfolding attach_file_def
    by (intro slot_frame [OF assms(1,3), where x = j and pc = "Tx_fetch j l" and c = c
        and e = "(entry s j)\<lparr>st_state := st_state (entry s j) OR id_bit i\<rparr>"]) auto
next
  case False
  then show ?thesis
    using assms(1,3-5) by (intro idle_frame [OF assms(1,3), where pc = "Tx_scan (k + 1)"])
      (simp_all add: attach_file_def copy_inv_def)
qed

lemma step_claim:
  assumes "tx_inv env s" and "env_ok env" and "i < te_threads env" and "tx_wk s i = Tx_claim n"
    and "own_copies env (claim_file i n s)"
  shows "tx_inv env (claim_file i n s)"
proof (cases "find (\<lambda>x. st_file_no (entry s x) = of_nat n \<and> st_state (entry s x) = FS_INIT) (probe_seq (of_nat n))")
  case (Some x)
  let ?e = "(entry s x)\<lparr>st_state := FS_COMPLETE OR FS_IO OR id_bit i\<rparr>"
  let ?s = "goto i (Tx_fetch x (entry s x)) (set_entry x ?e (s\<lparr>tx_active := (tx_active s)(i := st_position (entry s x))\<rparr>))"
  have claim: "claim_file i n s = ?s"
    by (simp add: claim_file_def Some)
  have init: "st_state (entry s x) = FS_INIT"
    using find_SomeD [OF Some] by simp
  have "slot_inv env s x"
    using assms(1) by (simp add: tx_inv_def)
  then obtain c where c: "tx_added s (st_file_no (entry s x)) = Some (st_fd (entry s x), c)"
    "slot_ok env (entry s x) (roles s x) (sent_blocks (st_file_no (entry s x)) s) c"
    "tx_fds s (st_fd (entry s x)) = Some (st_file_no (entry s x), c) \<or> fd_closed env s x"
    using init by (auto simp: slot_inv_def)
  have "\<not> fd_closed env s x"
    using c(2) init shape_not_idle by (auto simp: fd_closed_def slot_ok_def slot_idle_def)
  then have fds: "tx_fds s (st_fd (entry s x)) = Some (st_file_no (entry s x), c)"
    using c(3) by simp
  have ok: "slot_ok env ?e ((roles s x)(i := R_fetch)) (sent_blocks (st_file_no (entry s x)) s) c"
    by (rule slot_claim [OF c(2) init assms(3,2)])
  have "bit (FS_COMPLETE OR FS_IO OR id_bit i) 31"
    by (simp add: bit_or_iff)
  then have nz: "FS_COMPLETE OR FS_IO OR id_bit i \<noteq> 0"
    by auto
  have same: "sent_blocks g ?s = sent_blocks g s" for g
    by (simp add: sent_blocks_def)
  have copy: "copy_inv s (Tx_fetch x (entry s x))"
    using c(1) by (simp add: copy_inv_def)
  have "tx_inv env ?s"
    by (rule slot_frame [OF assms(1,3), where x = x and pc = "Tx_fetch x (entry s x)" and c = c and e = ?e])
      (use ok nz c(1) fds init copy same assms(4,5) claim in auto)
  then show ?thesis
    by (simp add: claim)
qed (use assms(1) in \<open>simp add: claim_file_def\<close>)

lemma step_fetch:
  assumes "tx_inv env s" and "env_ok env" and "i < te_threads env" and "tx_wk s i = Tx_fetch x l"
    and "own_copies env (fetch_block i x l s)"
  shows "tx_inv env (fetch_block i x l s)"
proof -
  have "pc_copy (tx_wk s i) = Some (x, l)"
    using assms(4) by simp
  from copy_slot [OF assms(1,3) this] obtain c where c: "st_state (entry s x) \<noteq> 0"
    "tx_added s (st_file_no (entry s x)) = Some (st_fd (entry s x), c)"
    "slot_ok env (entry s x) (roles s x) (sent_blocks (st_file_no (entry s x)) s) c"
    "tx_fds s (st_fd (entry s x)) = Some (st_file_no (entry s x), c)"
    "length c < 2 ^ 63" "st_fd l = st_fd (entry s x)" "copy_inv s (tx_wk s i)" .
  have "0 < st_fd l"
    using assms(1) c(2,6) by (auto simp: tx_inv_def added_inv_def)
  moreover have "slot_ok env ((entry s x)\<lparr>st_block_offset := st_block_offset (entry s x) + 1\<rparr>)
      ((roles s x)(i := R_read (st_block_offset (entry s x)))) (sent_blocks (st_file_no (entry s x)) s) c"
    by (rule slot_fetch [OF c(3) _ assms(3,2) c(5)]) (simp add: assms(4))
  moreover have "copy_inv s (Tx_read x l (st_block_offset (entry s x)))"
    using c(7) assms(4) by (simp add: copy_inv_def)
  ultimately show ?thesis
    using assms(3-5) c(1,2,4) unfolding fetch_block_def
    by (simp, intro slot_frame [OF assms(1,3), where x = x and pc = "Tx_read x l (st_block_offset (entry s x))"
        and c = c and e = "(entry s x)\<lparr>st_block_offset := st_block_offset (entry s x) + 1\<rparr>"]) auto
qed

lemma step_read:
  assumes "tx_inv env s" and "env_ok env" and "i < te_threads env" and "tx_wk s i = Tx_read x l k"
    and "own_copies env (read_block env i x l k s)"
  shows "tx_inv env (read_block env i x l k s)"
proof -
  have "pc_copy (tx_wk s i) = Some (x, l)"
    using assms(4) by simp
  from copy_slot [OF assms(1,3) this] obtain c where c: "st_state (entry s x) \<noteq> 0"
    "tx_added s (st_file_no (entry s x)) = Some (st_fd (entry s x), c)"
    "slot_ok env (entry s x) (roles s x) (sent_blocks (st_file_no (entry s x)) s) c"
    "tx_fds s (st_fd (entry s x)) = Some (st_file_no (entry s x), c)"
    "length c < 2 ^ 63" "st_fd l = st_fd (entry s x)" "copy_inv s (tx_wk s i)" .
  define d where "d = pread (te_block env) (unat (k * of_nat (te_block env))) c"
  let ?pc = "if d = [] then Tx_eof x l else Tx_send x l k d"
  have step: "read_block env i x l k s = goto i ?pc s"
    using c(4,6) by (simp add: read_block_def d_def Let_def)
  have "slot_ok env (entry s x) ((roles s x)(i := if d = [] then R_eof else R_send k d))
      (sent_blocks (st_file_no (entry s x)) s) c"
    by (rule slot_read [OF c(3) _ assms(3,2) c(5) d_def]) (simp add: assms(4))
  moreover have "role x ?pc = (if d = [] then R_eof else R_send k d)" "\<And>y. y \<noteq> x \<Longrightarrow> role y ?pc = R_none"
    by simp_all
  moreover have "copy_inv s ?pc"
    using c(7) assms(4) by (simp add: copy_inv_def)
  ultimately show ?thesis
    using assms(3-5) c(1,2,4) unfolding step
    by (intro slot_frame [OF assms(1,3), where x = x and pc = ?pc and c = c and e = "entry s x"]) auto
qed

lemma not_reported:
  assumes "tx_inv env s" and "i < te_threads env" and "joined (roles s x i)"
    and "slot_ok env (entry s x) (roles s x) bs c"
  shows "st_file_no (entry s x) \<notin> fis_file_no ` set (tx_fc s)"
proof
  assume "st_file_no (entry s x) \<in> fis_file_no ` set (tx_fc s)"
  then obtain fc where fc: "fc \<in> set (tx_fc s)" "st_file_no (entry s x) = fis_file_no fc"
    by auto
  then have "report_ok env s fc"
    using assms(1) by (simp add: tx_inv_def)
  then obtain j where "j < te_threads env" "roles s x j = R_wipe"
    using fc(2) unfolding report_ok_def by blast
  then show False
    using joined_no_finisher [OF assms(4,3,2), of j] by simp
qed

lemma sent_blocks_snoc:
  "tx_sent s' = tx_sent s @ [(i, b)] \<Longrightarrow>
   sent_blocks f s' = (if fb_file_no b = f then sent_blocks f s @ [b] else sent_blocks f s)"
  by (simp add: sent_blocks_def)

lemma step_send:
  assumes "tx_inv env s" and "env_ok env" and "i < te_threads env" and "tx_wk s i = Tx_send x l k d"
    and "own_copies env (send_block env i x l k d s)"
  shows "tx_inv env (send_block env i x l k d s)"
proof -
  have "pc_copy (tx_wk s i) = Some (x, l)"
    using assms(4) by simp
  from copy_slot [OF assms(1,3) this] obtain c where c: "st_state (entry s x) \<noteq> 0"
    "tx_added s (st_file_no (entry s x)) = Some (st_fd (entry s x), c)"
    "slot_ok env (entry s x) (roles s x) (sent_blocks (st_file_no (entry s x)) s) c"
    "tx_fds s (st_fd (entry s x)) = Some (st_file_no (entry s x), c)"
    "length c < 2 ^ 63" "st_file_no l = st_file_no (entry s x)" "copy_inv s (tx_wk s i)" .
  let ?e = "stat_update 1 (of_nat (length d)) (if te_do_hash env then te_hash env d else 0) (entry s x)"
  let ?b = "\<lparr>fb_file_no = st_file_no (entry s x), fb_offset = k * of_nat (te_block env), fb_data = d\<rparr>"
  let ?s = "send_block env i x l k d s"
  have "tx_sent ?s = tx_sent s @ [(i, ?b)]"
    by (simp add: send_block_def c(6))
  note sent = sent_blocks_snoc [OF this]
  have "slot_ok env ?e ((roles s x)(i := R_fetch)) (sent_blocks (st_file_no (entry s x)) s @ [?b]) c"
    by (rule slot_send [OF c(3) _ assms(3,2) c(5)]) (simp add: assms(4))
  then have ok: "slot_ok env ?e ((roles s x)(i := role x (Tx_fetch x l))) (sent_blocks (st_file_no (entry s x)) ?s) c"
    by (simp add: sent)
  have rep: "st_file_no (entry s x) \<notin> fis_file_no ` set (tx_fc s)"
    by (rule not_reported [OF assms(1,3) _ c(3)]) (simp add: assms(4))
  have same: "st_state ?e = st_state (entry s x)" "st_file_no ?e = st_file_no (entry s x)"
    "st_position ?e = st_position (entry s x)" "st_fd ?e = st_fd (entry s x)"
    by (simp_all add: stat_update_def)
  have fields: "tx_wk ?s = (tx_wk s)(i := Tx_fetch x l)" "tx_added ?s = tx_added s" "tx_fc ?s = tx_fc s"
    "tx_fds ?s = tx_fds s" "fs_tab (tx_io ?s) = (fs_tab (tx_io s))(x := ?e)"
    by (simp_all add: send_block_def)
  have "copy_inv s (Tx_fetch x l)"
    using c(7) assms(4) by (simp add: copy_inv_def)
  then show ?thesis
    by (intro slot_frame [OF assms(1,3) fields, where c = c])
      (use assms(4,5) c(1,2,4) ok rep in \<open>simp_all add: same sent\<close>)
qed

lemma step_remove:
  assumes "tx_inv env s" and "env_ok env" and "i < te_threads env" and "tx_wk s i = Tx_eof x l"
    and "own_copies env (iow_remove i x l s)"
  shows "tx_inv env (iow_remove i x l s)"
proof -
  have "pc_copy (tx_wk s i) = Some (x, l)"
    using assms(4) by simp
  from copy_slot [OF assms(1,3) this] obtain c where c: "st_state (entry s x) \<noteq> 0"
    "tx_added s (st_file_no (entry s x)) = Some (st_fd (entry s x), c)"
    "slot_ok env (entry s x) (roles s x) (sent_blocks (st_file_no (entry s x)) s) c"
    "tx_fds s (st_fd (entry s x)) = Some (st_file_no (entry s x), c)"
    "length c < 2 ^ 63" "st_file_no l = st_file_no (entry s x)" "copy_inv s (tx_wk s i)" .
  define st where "st = st_state (entry s x) AND NOT (id_bit i OR FS_IO)"
  let ?pc = "if st = FS_COMPLETE then Tx_close x l else Tx_next"
  let ?e = "(entry s x)\<lparr>st_state := st\<rparr>"
  have i: "i < 30"
    using assms(2,3) by (simp add: env_ok_def)
  have "slot_shape (te_threads env) (block_count (te_block env) (length c)) (entry s x) (roles s x)"
    using ok_shape [OF c(3) assms(3)] assms(4) by simp
  then have "bit st 30"
    using i by (simp add: slot_shape_def st_def bit_and_iff bit_not_iff bit_or_iff)
  then have nz: "st \<noteq> 0"
    by auto
  have "slot_ok env ?e ((roles s x)(i := if st = FS_COMPLETE then R_close else R_none))
      (sent_blocks (st_file_no (entry s x)) s) c"
    by (rule slot_remove [OF c(3) _ assms(3,2) st_def]) (simp add: assms(4))
  then have ok: "slot_ok env ?e ((roles s x)(i := role x ?pc)) (sent_blocks (st_file_no (entry s x)) s) c"
    by (simp split: if_splits)
  have fields: "tx_wk (iow_remove i x l s) = (tx_wk s)(i := ?pc)" "tx_added (iow_remove i x l s) = tx_added s"
    "tx_fc (iow_remove i x l s) = tx_fc s" "tx_fds (iow_remove i x l s) = tx_fds s"
    "fs_tab (tx_io (iow_remove i x l s)) = (fs_tab (tx_io s))(x := ?e)"
    "sent_blocks g (iow_remove i x l s) = sent_blocks g s" for g
    by (simp_all add: iow_remove_def Let_def st_def file_incrementtail_def sent_blocks_def)
  have "copy_inv s ?pc"
    using c(7) assms(4) by (simp add: copy_inv_def)
  then show ?thesis
    by (intro slot_frame [OF assms(1,3) fields(1-5), where c = c])
      (use assms(4,5) c(1,2,4) ok nz in \<open>simp_all add: fields(6)\<close>)
qed

text \<open>The last worker: close the descriptor, report the file, clear the entry.\<close>

lemma step_close:
  assumes "tx_inv env s" and "i < te_threads env" and "tx_wk s i = Tx_close x l"
    and "s' = goto i (Tx_push x) (s\<lparr>tx_fds := (tx_fds s)(st_fd l := None)\<rparr>)" and "own_copies env s'"
  shows "tx_inv env s'"
proof -
  have "pc_copy (tx_wk s i) = Some (x, l)"
    using assms(3) by simp
  from copy_slot [OF assms(1,2) this] obtain c where c: "st_state (entry s x) \<noteq> 0"
    "tx_added s (st_file_no (entry s x)) = Some (st_fd (entry s x), c)"
    "slot_ok env (entry s x) (roles s x) (sent_blocks (st_file_no (entry s x)) s) c"
    "tx_fds s (st_fd (entry s x)) = Some (st_file_no (entry s x), c)" "st_fd l = st_fd (entry s x)" .
  have parts: "fs_inv (tx_io s)" "\<And>y. slot_inv env s y" "\<And>j. j < te_threads env \<Longrightarrow> copy_inv s (tx_wk s j)"
    "added_inv s" "\<And>fc. fc \<in> set (tx_fc s) \<Longrightarrow> report_ok env s fc" "distinct (map fis_file_no (tx_fc s))"
    using assms(1) by (auto simp: tx_inv_def)
  have sent: "sent_blocks g s' = sent_blocks g s" for g
    by (simp add: assms(4) sent_blocks_def)
  have ro: "roles s' y = (roles s y)(i := role y (Tx_push x))" for y
    by (rule roles_upd) (simp add: assms(4))
  have "slot_inv env s' y" for y
  proof (cases "y = x")
    case True
    have "slot_ok env (entry s x) ((roles s x)(i := R_push)) (sent_blocks (st_file_no (entry s x)) s) c"
      by (rule slot_finishing [OF c(3)]) (simp_all add: assms(2,3))
    moreover have "fd_closed env s' x"
      using assms(2) by (auto simp: fd_closed_def assms(4))
    ultimately show ?thesis
      using True c(1,2) unfolding slot_inv_def ro sent by (simp add: assms(4))
  next
    case False
    have other: "st_file_no (entry s y) \<noteq> st_file_no (entry s x)"
      using used_slot_unique [OF parts(1) _ c(1)] False by blast
    show ?thesis
    proof (rule slot_inv_frame [OF parts(2) [of y]])
      show "roles s' y = roles s y"
        using False assms(3) by (simp add: ro fun_eq_iff)
      show "tx_fds s' (st_fd (entry s y)) = Some (st_file_no (entry s y), d)"
        if "tx_fds s (st_fd (entry s y)) = Some (st_file_no (entry s y), d)" for d
        using that other c(4,5) by (auto simp: assms(4))
    qed (simp_all add: sent, simp_all add: assms(4))
  qed
  moreover have "report_ok env s' fc" if "fc \<in> set (tx_fc s)" for fc
  proof (rule report_frame [OF parts(5) [OF that]])
    show "st_file_no (entry s y) = fis_file_no fc \<and> ((\<exists>i<te_threads env. roles s y i = R_wipe) \<longrightarrow>
        (\<exists>i<te_threads env. roles s' y i = R_wipe))" if y: "st_file_no (entry s' y) = fis_file_no fc" for y
    proof -
      have "roles s y j = R_wipe \<Longrightarrow> roles s' y j = R_wipe" for j
        using assms(3) by (auto simp: assms(4) split: if_splits)
      moreover have "entry s' y = entry s y"
        by (simp add: assms(4))
      ultimately show ?thesis
        using y by metis
    qed
  qed (simp_all add: sent, simp add: assms(4))
  moreover have "copy_inv s' (tx_wk s' j)" if "j < te_threads env" for j
    using copy_inv_frame [OF parts(3) [OF that], of s'] by (auto simp: assms(4) copy_inv_def)
  ultimately show ?thesis
    using parts(1,4,6) assms(5) by (simp add: tx_inv_def added_inv_def sent) (simp add: assms(4))
qed

lemma finished_report:
  assumes "slot_ok env e ro bs c" and "finishing (ro i)" and "i < te_threads env" and "env_ok env"
  shows "fc_make (st_file_no e) (st_bytes_total e) (st_block_total e) (st_crc e) = file_report env (st_file_no e) c"
proof -
  let ?bs = "file_blocks (te_block env) (st_file_no e) c"
  have m: "mset bs = mset ?bs"
    by (rule slot_finished [OF assms(1-3)])
  have "length bs = block_count (te_block env) (length c)"
    using mset_eq_length [OF m] by (simp add: file_blocks_def)
  moreover have "(\<Sum>b\<leftarrow>bs. length (fb_data b)) = length c"
  proof -
    have "mset (map (\<lambda>b. length (fb_data b)) bs) = mset (map (\<lambda>b. length (fb_data b)) ?bs)"
      by (simp only: mset_map m)
    from arg_cong [OF this, of sum_mset]
    have "(\<Sum>b\<leftarrow>bs. length (fb_data b)) = (\<Sum>b\<leftarrow>?bs. length (fb_data b))"
      by (simp only: sum_mset_sum_list)
    also have "\<dots> = length c"
      using assms(4) by (intro sum_file_blocks) (simp add: env_ok_def)
    finally show ?thesis .
  qed
  moreover have "blocks_crc env bs = blocks_crc env ?bs"
    using xor_fold_perm [OF m] by (simp add: blocks_crc_def)
  ultimately show ?thesis
    using assms(1) by (simp add: slot_ok_def slot_totals_def file_report_def)
qed

lemma step_push:
  assumes "tx_inv env s" and "env_ok env" and "i < te_threads env" and "tx_wk s i = Tx_push x"
    and "own_copies env (push_file i x s)"
  shows "tx_inv env (push_file i x s)"
proof -
  let ?s = "push_file i x s" and ?f = "st_file_no (entry s x)"
  have "roles s x i \<noteq> R_none"
    by (simp add: assms(4))
  from slot_invD [OF assms(1,3) this] obtain c where c: "st_state (entry s x) \<noteq> 0"
    "tx_added s ?f = Some (st_fd (entry s x), c)"
    "slot_ok env (entry s x) (roles s x) (sent_blocks ?f s) c" .
  have parts: "fs_inv (tx_io s)" "\<And>y. slot_inv env s y" "\<And>j. j < te_threads env \<Longrightarrow> copy_inv s (tx_wk s j)"
    "added_inv s" "\<And>fc. fc \<in> set (tx_fc s) \<Longrightarrow> report_ok env s fc" "distinct (map fis_file_no (tx_fc s))"
    using assms(1) by (auto simp: tx_inv_def)
  have fin: "finishing (roles s x i)"
    by (simp add: assms(4))
  have fields: "tx_wk ?s = (tx_wk s)(i := Tx_wipe x)" "tx_io ?s = tx_io s" "tx_added ?s = tx_added s"
    "tx_fds ?s = tx_fds s" "sent_blocks g ?s = sent_blocks g s"
    "tx_fc ?s = tx_fc s @ [file_report env ?f c]" for g
    using finished_report [OF c(3) fin assms(3,2)] by (simp_all add: push_file_def Let_def sent_blocks_def)
  have no: "fis_file_no (file_report env ?f c) = ?f"
    by (simp add: file_report_def fc_make_def)
  have ro: "roles ?s y = (roles s y)(i := role y (Tx_wipe x))" for y
    by (rule roles_upd) (rule fields(1))
  have "slot_inv env ?s y" for y
  proof (cases "y = x")
    case True
    have "slot_ok env (entry s x) ((roles s x)(i := R_wipe)) (sent_blocks ?f s) c"
      by (rule slot_finishing [OF c(3) fin]) (simp_all add: assms(3))
    moreover have "fd_closed env ?s x"
      using assms(3) by (auto simp: fd_closed_def fields)
    ultimately show ?thesis
      using True c(1,2) unfolding slot_inv_def ro by (simp add: fields)
  next
    case False
    then have "roles ?s y = roles s y"
      using assms(4) by (simp add: ro fun_eq_iff)
    then show ?thesis
      by (intro slot_inv_frame [OF parts(2) [of y]]) (simp_all add: fields)
  qed
  moreover have "report_ok env ?s fc" if "fc \<in> set (tx_fc s)" for fc
  proof (rule report_frame [OF parts(5) [OF that]])
    have "roles s y j = R_wipe \<Longrightarrow> roles ?s y j = R_wipe" for y j
      using assms(4) by (auto simp: fields split: if_splits)
    then show "st_file_no (entry s y) = fis_file_no fc \<and> ((\<exists>i<te_threads env. roles s y i = R_wipe) \<longrightarrow>
        (\<exists>i<te_threads env. roles ?s y i = R_wipe))" if "st_file_no (entry ?s y) = fis_file_no fc" for y
      using that unfolding fields(2) by metis
  qed (simp_all add: fields)
  moreover have "report_ok env ?s (file_report env ?f c)"
  proof -
    have "y = x" if "st_file_no (entry s y) = ?f" for y
      by (rule used_slot_unique [OF parts(1) that c(1)])
    then have "\<exists>j<te_threads env. roles ?s y j = R_wipe" if "st_file_no (entry s y) = ?f" for y
      using that assms(3) by (intro exI [of _ i]) (auto simp: fields)
    then show ?thesis
      using c(2) slot_finished [OF c(3) fin assms(3)] unfolding report_ok_def no fields by blast
  qed
  moreover have "?f \<notin> fis_file_no ` set (tx_fc s)"
  proof
    assume "?f \<in> fis_file_no ` set (tx_fc s)"
    then obtain fc where "fc \<in> set (tx_fc s)" "?f = fis_file_no fc"
      by auto
    then obtain j where j: "j < te_threads env" "roles s x j = R_wipe"
      using parts(5) unfolding report_ok_def by blast
    then show False
      using finisher_unique [OF c(3) fin _ assms(3) j(1)] assms(4) by auto
  qed
  moreover have "copy_inv ?s (tx_wk ?s j)" if "j < te_threads env" for j
    using copy_inv_frame [OF parts(3) [OF that], of ?s] by (auto simp: fields copy_inv_def)
  ultimately show ?thesis
    using parts(1,4,6) assms(5) by (auto simp: tx_inv_def added_inv_def fields no)
qed

lemma wipe_roles:
  assumes "slot_ok env e ro bs c" and "ro i = R_wipe" and "i < te_threads env" and "j < te_threads env" and "j \<noteq> i"
  shows "ro j = R_none"
proof -
  have "\<not> finishing (ro j)"
    using finisher_unique [OF assms(1), of i j] assms(2-5) by auto
  moreover have "\<not> joined (ro j)"
    using joined_no_finisher [OF assms(1), of j i] assms(2-4) by auto
  ultimately show ?thesis
    by (cases "ro j") simp_all
qed

lemma step_wipe:
  assumes "tx_inv env s" and "i < te_threads env" and "tx_wk s i = Tx_wipe x"
    and "s' = goto i Tx_next (s\<lparr>tx_io := memset_slot x (tx_io s)\<rparr>)" and "own_copies env s'"
  shows "tx_inv env s'"
proof -
  have "roles s x i \<noteq> R_none"
    by (simp add: assms(3))
  from slot_invD [OF assms(1,2) this] obtain c where
    ok: "slot_ok env (entry s x) (roles s x) (sent_blocks (st_file_no (entry s x)) s) c" .
  have parts: "fs_inv (tx_io s)" "\<And>y. slot_inv env s y" "\<And>j. j < te_threads env \<Longrightarrow> copy_inv s (tx_wk s j)"
    "added_inv s" "\<And>fc. fc \<in> set (tx_fc s) \<Longrightarrow> report_ok env s fc" "distinct (map fis_file_no (tx_fc s))"
    using assms(1) by (auto simp: tx_inv_def)
  have fields: "tx_wk s' = (tx_wk s)(i := Tx_next)" "fs_tab (tx_io s') = (fs_tab (tx_io s))(x := stat_zero)"
    "tx_added s' = tx_added s" "tx_fds s' = tx_fds s" "sent_blocks g s' = sent_blocks g s" "tx_fc s' = tx_fc s" for g
    by (simp_all add: assms(4) memset_slot_def sent_blocks_def)
  have ro: "roles s' y = (roles s y)(i := R_none)" for y
    using roles_upd [OF fields(1), of y] by simp
  have same: "roles s' y = roles s y" if "y \<noteq> x" for y
    using that assms(3) by (simp add: ro fun_eq_iff)
  have "slot_inv env s' y" for y
  proof (cases "y = x")
    case True
    have "roles s' x j = R_none" if "j < te_threads env" for j
      using wipe_roles [OF ok _ assms(2) that] assms(3) by (cases "j = i") (simp_all add: fields(1))
    then show ?thesis
      using True by (simp add: slot_inv_def fields(2))
  next
    case False
    then show ?thesis
      by (intro slot_inv_frame [OF parts(2) [of y] _ same]) (simp_all add: fields(2-6))
  qed
  moreover have "report_ok env s' fc" if "fc \<in> set (tx_fc s)" for fc
  proof (rule report_frame [OF parts(5) [OF that]])
    have "fis_file_no fc \<noteq> 0"
      using parts(4) parts(5) [OF that] by (auto simp: report_ok_def added_inv_def)
    then show "st_file_no (entry s y) = fis_file_no fc \<and> ((\<exists>i<te_threads env. roles s y i = R_wipe) \<longrightarrow>
        (\<exists>i<te_threads env. roles s' y i = R_wipe))" if "st_file_no (entry s' y) = fis_file_no fc" for y
      using that same [of y] by (cases "y = x") (simp_all add: fields(2) fun_eq_iff)
  qed (simp_all add: fields)
  moreover have "copy_inv s' (tx_wk s' j)" if "j < te_threads env" for j
    using copy_inv_frame [OF parts(3) [OF that], of s'] by (auto simp: fields copy_inv_def)
  moreover have "fs_inv (tx_io s')"
    using fs_inv_memset [OF parts(1)] by (simp add: assms(4))
  ultimately show ?thesis
    using parts(4,6) assms(5) by (simp add: tx_inv_def added_inv_def fields)
qed

lemma unknown_not_in_table:
  assumes "tx_inv env s" and "tx_added s f = None" and "f \<noteq> 0"
  shows "st_file_no (entry s x) \<noteq> f"
proof
  assume f: "st_file_no (entry s x) = f"
  have "fs_inv (tx_io s)" "slot_inv env s x"
    using assms(1) by (simp_all add: tx_inv_def)
  then show False
    using fs_inv_file_no_state [OF _ assms(3) f] f assms(2) by (auto simp: slot_inv_def)
qed

lemma step_add:
  assumes "tx_inv env s" and "add_ok f fd c s" and "own_copies env (add_opened f fd c s)"
  shows "tx_inv env (add_opened f fd c s)"
proof (cases "file_addfile f fd 0 0 (tx_io s)")
  case (Pair r io)
  show ?thesis
  proof (cases r)
    case None
    then show ?thesis
      using assms(1) by (simp add: add_opened_def Pair)
  next
    case (Some x)
    let ?s = "add_opened f fd c s"
    have step: "?s = s\<lparr>tx_io := io, tx_fds := (tx_fds s)(fd \<mapsto> (f, c)), tx_added := (tx_added s)(f \<mapsto> (fd, c))\<rparr>"
      by (simp add: add_opened_def Pair Some)
    note add = addfile_SomeD [OF Pair [unfolded Some]]
    have f: "f \<noteq> 0" "tx_added s f = None" "tx_fds s fd = None" "0 < fd" "length c < 2 ^ 63"
      using assms(2) by (simp_all add: add_ok_def)
    note fresh = unknown_not_in_table [OF assms(1) f(2,1)]
    have parts: "fs_inv (tx_io s)" "\<And>y. slot_inv env s y" "\<And>j. j < te_threads env \<Longrightarrow> copy_inv s (tx_wk s j)"
      "added_inv s" "\<And>fc. fc \<in> set (tx_fc s) \<Longrightarrow> report_ok env s fc" "distinct (map fis_file_no (tx_fc s))"
      using assms(1) by (auto simp: tx_inv_def)
    have fields: "tx_wk ?s = tx_wk s" "tx_fc ?s = tx_fc s" "sent_blocks g ?s = sent_blocks g s"
      "tx_added ?s = (tx_added s)(f \<mapsto> (fd, c))" "tx_added s \<subseteq>\<^sub>m tx_added ?s"
      "\<And>y. y \<noteq> x \<Longrightarrow> entry ?s y = entry s y" for g
      using f(2) add(3) by (auto simp: step sent_blocks_def map_le_def)
    have e: "st_state (entry ?s x) = FS_INIT" "st_file_no (entry ?s x) = f" "st_fd (entry ?s x) = fd"
      "st_block_offset (entry ?s x) = 0" "st_block_total (entry ?s x) = 0" "st_bytes_total (entry ?s x) = 0"
      "st_crc (entry ?s x) = 0"
      using add(3) by (simp_all add: step stat_zero_def)
    have none: "sent_blocks f s = []"
      using parts(4) f(2) by (simp add: added_inv_def)
    have "slot_inv env ?s y" for y
    proof (cases "y = x")
      case True
      have "\<forall>i<te_threads env. roles s x i = R_none"
        using parts(2) [of x] add(2) by (simp add: slot_inv_def)
      then have "slot_ok env (entry ?s x) (roles s x) [] c"
        by (simp add: slot_ok_def slot_idle_def slot_blocks_def slot_totals_def blocks_crc_def drawn_def Let_def e)
      then show ?thesis
        using True none by (simp add: slot_inv_def fields(1,3,4) e) (simp add: step)
    next
      case False
      then show ?thesis
        by (intro slot_inv_frame [OF parts(2) [of y]])
          (use f(3) fields in \<open>auto simp: step sent_blocks_def\<close>)
    qed
    moreover have "report_ok env ?s fc" if "fc \<in> set (tx_fc s)" for fc
    proof (rule report_frame [OF parts(5) [OF that]])
      have "fis_file_no fc \<noteq> f"
        using parts(5) [OF that] f(2) by (auto simp: report_ok_def)
      then show "st_file_no (entry s y) = fis_file_no fc \<and> ((\<exists>i<te_threads env. roles s y i = R_wipe) \<longrightarrow>
          (\<exists>i<te_threads env. roles ?s y i = R_wipe))" if "st_file_no (entry ?s y) = fis_file_no fc" for y
        using that e(2) fields(1,6) by (cases "y = x") auto
    qed (simp_all add: fields(3,5))
    moreover have "fs_inv (tx_io ?s)"
      using fs_inv_addfile [OF parts(1) f(1) _ Pair [unfolded Some]] fresh by (simp add: step)
    moreover have "copy_inv ?s (tx_wk ?s j)" if "j < te_threads env" for j
      using copy_inv_frame [OF parts(3) [OF that] fields(5)] by (simp add: fields(1))
    ultimately show ?thesis
      using parts(4,6) assms(3) f by (auto simp: tx_inv_def added_inv_def fields(2-4))
  qed
qed

lemma worker_step_inv:
  assumes "tx_inv env s" and "env_ok env" and "i < te_threads env" and "own_copies env (worker_step env i s (tx_wk s i))"
  shows "tx_inv env (worker_step env i s (tx_wk s i))"
proof (cases "tx_wk s i")
  case Tx_next
  then show ?thesis
    using assms by (intro idle_frame [OF assms(1,3)]) (auto simp: copy_inv_def)
next
  case (Tx_count fc)
  then show ?thesis
    using assms by (intro idle_frame [OF assms(1,3), where pc = "if int fc - int (tx_head s) > int THREAD_COUNT then Tx_grab
        else if int fc - int (tx_head s) > 0 then Tx_cas (tx_head s) else Tx_scan 0"])
      (auto simp: next_file_def copy_inv_def)
next
  case Tx_grab
  then show ?thesis
    using assms by (intro idle_frame [OF assms(1,3)]) (auto simp: copy_inv_def)
next
  case (Tx_cas fh)
  then show ?thesis
    using assms by (intro idle_frame [OF assms(1,3), where pc = "if tx_head s = fh then Tx_claim (fh + 1) else Tx_next"])
      (auto simp: copy_inv_def)
next
  case (Tx_scan k)
  have "copy_inv s (Tx_attach k j (entry s j))" if "bit (st_state (entry s j)) 31" for j
  proof -
    have "slot_inv env s j"
      using assms(1) by (simp add: tx_inv_def)
    then show ?thesis
      using that by (auto simp: copy_inv_def slot_inv_def split: if_splits)
  qed
  with Tx_scan show ?thesis
    using assms by (intro idle_frame [OF assms(1,3), where pc = "if k < THREAD_COUNT then
        if tx_active s k \<noteq> 0 \<and> st_state (entry s (tx_active s k)) AND FS_IO \<noteq> 0
        then Tx_attach k (tx_active s k) (entry s (tx_active s k)) else Tx_scan (k + 1)
        else if tx_complete s then Tx_exit else Tx_next"])
      (auto simp: scan_active_def Let_def copy_inv_def and_FS_IO_iff)
next
  case (Tx_attach k j l)
  then show ?thesis
    using step_attach [OF assms(1-3)] assms(4) by simp
next
  case (Tx_claim n)
  then show ?thesis
    using step_claim [OF assms(1-3)] assms(4) by simp
next
  case (Tx_fetch x l)
  then show ?thesis
    using step_fetch [OF assms(1-3)] assms(4) by simp
next
  case (Tx_read x l k)
  then show ?thesis
    using step_read [OF assms(1-3)] assms(4) by simp
next
  case (Tx_send x l k d)
  then show ?thesis
    using step_send [OF assms(1-3)] assms(4) by simp
next
  case (Tx_eof x l)
  then show ?thesis
    using step_remove [OF assms(1-3)] assms(4) by simp
next
  case (Tx_close x l)
  then show ?thesis
    using step_close [OF assms(1,3) Tx_close refl] assms(4) by simp
next
  case (Tx_push x)
  then show ?thesis
    using step_push [OF assms(1-3)] assms(4) by simp
next
  case (Tx_wipe x)
  then show ?thesis
    using step_wipe [OF assms(1,3) Tx_wipe refl] assms(4) by simp
next
  case Tx_exit
  then show ?thesis
    using assms(1) by simp
qed

lemma spurious_inv:
  assumes "tx_inv env s" and "i < te_threads env" and "own_copies env (spurious_failure i s (tx_wk s i))"
  shows "tx_inv env (spurious_failure i s (tx_wk s i))"
proof (cases "\<exists>fh. tx_wk s i = Tx_cas fh")
  case True
  then show ?thesis
    using assms(3) by (intro idle_frame [OF assms(1,2), where pc = Tx_next]) (auto simp: copy_inv_def)
next
  case False
  show ?thesis
  proof (cases "\<exists>k j l. tx_wk s i = Tx_attach k j l")
    case True
    then obtain k j l where "tx_wk s i = Tx_attach k j l"
      by blast
    then show ?thesis
      using assms(3) by (intro idle_frame [OF assms(1,2), where pc = "Tx_scan (k + 1)"]) (auto simp: copy_inv_def)
  next
    case none: False
    then show ?thesis
      using False assms(1) by (cases "tx_wk s i") auto
  qed
qed

lemma tx_step_inv:
  assumes "tx_inv env s" and "env_ok env" and "tx_step env s s'" and "own_copies env s'"
  shows "tx_inv env s'"
  using assms(3)
proof cases
  case (tx_work i)
  then show ?thesis
    using worker_step_inv [OF assms(1,2)] assms(4) by simp
next
  case (tx_spurious i)
  then show ?thesis
    using spurious_inv [OF assms(1)] assms(4) by simp
next
  case (tx_add f fd c)
  then show ?thesis
    using step_add [OF assms(1)] assms(4) by simp
next
  case tx_finish
  then show ?thesis
    using assms(1) unfolding tx_finish tx_inv_def slot_inv_def copy_inv_def own_copies_def added_inv_def
      report_ok_def fd_closed_def sent_blocks_def by simp
qed

lemma tx_inv_init: "tx_inv env tx_init"
  by (simp add: tx_inv_def tx_init_def slot_inv_def copy_inv_def own_copies_def added_inv_def sent_blocks_def)
    (simp add: file_io_init_def)

interpretation send_run: step_system "\<lambda>s. s = tx_init" "\<lambda>s s'. tx_step env s s' \<and> own_copies env s'"
  "\<lambda>s. env_ok env \<longrightarrow> tx_inv env s" for env
  by unfold_locales (auto simp: tx_inv_init intro: tx_step_inv)

lemma tx_reach_inv: "tx_reach_own env s \<Longrightarrow> env_ok env \<Longrightarrow> tx_inv env s"
  using send_run.reachable_inv by (simp add: tx_reach_own_def)

text \<open>No worker reads through a closed descriptor, so none of them stops the program.\<close>

lemma worker_step_alive:
  assumes "tx_inv env s" and "i < te_threads env"
  shows "tx_dead (worker_step env i s (tx_wk s i)) = tx_dead s"
proof (cases "\<exists>x l k. tx_wk s i = Tx_read x l k")
  case True
  then obtain x l k where r: "tx_wk s i = Tx_read x l k"
    by blast
  then have "pc_copy (tx_wk s i) = Some (x, l)"
    by simp
  from copy_slot [OF assms this] obtain c where
    "tx_fds s (st_fd (entry s x)) = Some (st_file_no (entry s x), c)" "st_fd l = st_fd (entry s x)" .
  then show ?thesis
    by (simp add: r read_block_def Let_def)
next
  case False
  then show ?thesis
    by (cases "tx_wk s i") (auto simp: next_file_def scan_active_def Let_def attach_file_def claim_file_def
        fetch_block_def send_block_def iow_remove_def push_file_def split: option.splits)
qed

lemma tx_alive: "tx_reach_own env s \<Longrightarrow> env_ok env \<Longrightarrow> \<not> tx_dead s"
  unfolding tx_reach_own_def
proof (induction rule: reachable.induct)
  case (reachable_start s)
  then show ?case
    by (simp add: tx_init_def)
next
  case (reachable_step s s')
  then have "tx_inv env s"
    using tx_reach_inv by (simp add: tx_reach_own_def)
  moreover have "\<not> tx_dead s"
    using reachable_step by blast
  moreover have "tx_dead (spurious_failure i s pc) = tx_dead s" for i pc
    by (cases pc) simp_all
  moreover have "tx_step env s s'"
    using reachable_step by blast
  ultimately show ?case
    by (auto elim!: tx_step.cases simp: worker_step_alive add_opened_def split: prod.splits option.splits)
qed

section \<open>Properties\<close>

text \<open>
  Claim C4. Whatever the interleaving of the sending workers, as long as no worker attaches itself
  to a slot that was recycled between its read of the entry and its exchange: no worker reads
  through a closed descriptor, every file is reported once, and for every reported file the
  blocks on the connections are exactly its blocks, each once; the report has the size of
  the file, the number of its blocks and the combined hash of them.
\<close>

theorem completed_file_sent:
  assumes "env_ok env" and "tx_reach_own env s"
  shows "\<not> tx_dead s \<and> distinct (map fis_file_no (tx_fc s)) \<and>
    (\<forall>fc \<in> set (tx_fc s). \<exists>fd c.
       tx_added s (fis_file_no fc) = Some (fd, c) \<and>
       mset (sent_blocks (fis_file_no fc) s) = mset (file_blocks (te_block env) (fis_file_no fc) c) \<and>
       fis_bytes fc = of_nat (length c) \<and> fis_blocks fc = of_nat (block_count (te_block env) (length c)) \<and>
       fis_crc fc = blocks_crc env (file_blocks (te_block env) (fis_file_no fc) c))"
proof -
  have inv: "tx_inv env s"
    by (rule tx_reach_inv [OF assms(2,1)])
  have "\<exists>fd c. tx_added s (fis_file_no fc) = Some (fd, c) \<and> fc = file_report env (fis_file_no fc) c \<and>
      mset (sent_blocks (fis_file_no fc) s) = mset (file_blocks (te_block env) (fis_file_no fc) c)"
    if "fc \<in> set (tx_fc s)" for fc
    using inv that unfolding tx_inv_def report_ok_def by blast
  moreover have "fis_bytes fc = of_nat (length c) \<and> fis_blocks fc = of_nat (block_count (te_block env) (length c)) \<and>
      fis_crc fc = blocks_crc env (file_blocks (te_block env) (fis_file_no fc) c)"
    if "fc = file_report env (fis_file_no fc) c" for fc c
    by (subst (1 2 3) that) (simp add: file_report_def fc_make_def)
  ultimately show ?thesis
    using tx_alive [OF assms(2,1)] inv unfolding tx_inv_def by blast
qed

end
