(* ===== verification/Send_Runs.thy ===== *)
theory Send_Runs
  imports Send_Complete
begin

text \<open>
  Runs of the sending workers: a small complete transfer, and a run in which a worker attaches
  itself to a slot that was recycled while it looked at it.
\<close>

section \<open>Runs of one worker\<close>

text \<open>
  Two workers and blocks of one page. Between two files worker 0 is at the start of \<open>file_next\<close>,
  the table is empty and the numbers up to \<open>n\<close> are used up; worker 1 is not on a file.
\<close>

definition two_workers :: tx_env where
  "two_workers = \<lparr>te_block = 4096, te_threads = 2, te_do_hash = True, te_hash = (\<lambda>d. of_nat (length d))\<rparr>"

definition home_slot :: "nat \<Rightarrow> nat" where
  "home_slot n = hd (probe_seq (of_nat n))"

definition between :: "nat \<Rightarrow> tx_state \<Rightarrow> bool" where
  "between n s \<longleftrightarrow>
     tx_reach_own two_workers s \<and> tx_wk s 0 = Tx_next \<and> pc_copy (tx_wk s 1) = None \<and>
     fs_tab (tx_io s) = (\<lambda>_. stat_zero) \<and> fs_count (tx_io s) = n \<and> tx_head s = n \<and> tx_fds s = Map.empty \<and>
     (\<forall>m > n. m < 2 ^ 64 \<longrightarrow> tx_added s (of_nat m) = None)"

text \<open>Worker 0 has taken file \<open>n\<close> with descriptor 3.\<close>

definition claimed_entry :: "nat \<Rightarrow> file_stat_type" where
  "claimed_entry n = stat_zero\<lparr>st_state := FS_COMPLETE OR FS_IO OR id_bit 0, st_fd := 3,
     st_file_no := of_nat n, st_position := home_slot n\<rparr>"

definition claimed :: "nat \<Rightarrow> bytes \<Rightarrow> file_stat_type \<Rightarrow> tx_state \<Rightarrow> bool" where
  "claimed n c l s \<longleftrightarrow>
     tx_reach_own two_workers s \<and> tx_wk s 0 = Tx_fetch (home_slot n) l \<and> st_fd l = 3 \<and> st_file_no l = of_nat n \<and>
     pc_copy (tx_wk s 1) = None \<and> fs_tab (tx_io s) = (\<lambda>_. stat_zero)(home_slot n := claimed_entry n) \<and>
     fs_count (tx_io s) = n \<and> tx_head s = n \<and> tx_active s 0 = home_slot n \<and> tx_fds s = [3 \<mapsto> (of_nat n, c)] \<and>
     (\<forall>m > n. m < 2 ^ 64 \<longrightarrow> tx_added s (of_nat m) = None)"

lemma two_workers_ok: "env_ok two_workers"
  by (simp add: env_ok_def two_workers_def)

lemma probe_seq_not_Nil [simp]: "probe_seq f \<noteq> []"
  using length_probes [of FILE_STAT_COUNT_CC f] unfolding probe_seq_def FILE_STAT_COUNT_CC_def by fastforce

lemma find_hd: "xs \<noteq> [] \<Longrightarrow> P (hd xs) \<Longrightarrow> find P xs = Some (hd xs)"
  by (cases xs) simp_all

lemma of_nat_u64_inject: "m < 2 ^ 64 \<Longrightarrow> n < 2 ^ 64 \<Longrightarrow> (of_nat m :: u64) = of_nat n \<longleftrightarrow> m = n"
  by (simp add: word_of_nat_eq_iff take_bit_nat_eq_self)

text \<open>A step of worker 0 while worker 1 is not on a file.\<close>

lemma solo:
  assumes "tx_reach_own two_workers s" and "pc_copy (tx_wk s 1) = None" and "s' = worker_step two_workers 0 s pc"
    and "tx_wk s 0 = pc" and "tx_wk s' = (tx_wk s)(0 := pc')"
    and "\<And>x l. pc_copy pc' = Some (x, l) \<Longrightarrow> st_file_no l = st_file_no (entry s' x)"
  shows "tx_reach_own two_workers s'"
proof -
  have "own_copies two_workers s'"
    using assms(2,5,6) by (auto simp: own_copies_def two_workers_def less_2_cases_iff)
  moreover have "\<not> tx_dead s"
    by (rule tx_alive [OF assms(1) two_workers_ok])
  then have "tx_step two_workers s s'"
    unfolding assms(3) assms(4) [symmetric] by (rule tx_work) (simp add: two_workers_def)
  ultimately show ?thesis
    using assms(1) unfolding tx_reach_own_def by (blast intro: reachable.reachable_step)
qed

lemma run_claim:
  assumes "between n s" and "n + 1 < 2 ^ 63" and "length c < 2 ^ 63"
  obtains s' l where "claimed (n + 1) c l s'" and "tx_wk s' 1 = tx_wk s 1"
    and "tx_added s' = (tx_added s)(of_nat (n + 1) \<mapsto> (3, c))" and "tx_sent s' = tx_sent s" and "tx_fc s' = tx_fc s"
proof -
  let ?f = "of_nat (n + 1) :: u64" and ?x = "home_slot (n + 1)"
  let ?e = "stat_zero\<lparr>st_state := FS_INIT, st_fd := 3, st_file_no := ?f, st_position := ?x\<rparr>"
  define s0 where "s0 = add_opened ?f 3 c s"
  note b = assms(1) [unfolded between_def]
  have f: "?f \<noteq> 0"
    using of_nat_u64_inject [of "n + 1" 0] assms(2) by simp
  have add: "file_addfile ?f 3 0 0 (tx_io s) = (Some ?x, (tx_io s)\<lparr>fs_tab := (\<lambda>_. stat_zero)(?x := ?e), fs_count := n + 1\<rparr>)"
    using b by (simp add: file_addfile_def find_hd home_slot_def stat_zero_def del: of_nat_add of_nat_Suc)
  have s0: "s0 = s\<lparr>tx_io := (tx_io s)\<lparr>fs_tab := (\<lambda>_. stat_zero)(?x := ?e), fs_count := n + 1\<rparr>,
      tx_fds := [3 \<mapsto> (?f, c)], tx_added := (tx_added s)(?f \<mapsto> (3, c))\<rparr>"
    unfolding s0_def add_opened_def add using b by simp
  have "add_ok ?f 3 c s"
    using b f assms(2,3) by (simp add: add_ok_def del: of_nat_add of_nat_Suc)
  moreover have "own_copies two_workers s0"
    using b by (auto simp: own_copies_def s0 two_workers_def less_2_cases_iff)
  moreover have "\<not> tx_dead s"
    using b tx_alive two_workers_ok by blast
  ultimately have r0: "tx_reach_own two_workers s0"
    using b unfolding tx_reach_own_def s0_def by (blast intro: reachable.reachable_step tx_add)
  define s1 where "s1 = goto 0 (Tx_count (n + 1)) s0"
  define s2 where "s2 = goto 0 (Tx_cas n) s1"
  define s3 where "s3 = goto 0 (Tx_claim (n + 1)) (s2\<lparr>tx_head := n + 1\<rparr>)"
  define s4 where "s4 = claim_file 0 (n + 1) s3"
  have r1: "tx_reach_own two_workers s1"
    by (rule solo [OF r0, where pc = Tx_next and pc' = "Tx_count (n + 1)"]) (use b in \<open>simp_all add: s0 s1_def\<close>)
  have r2: "tx_reach_own two_workers s2"
    by (rule solo [OF r1, where pc = "Tx_count (n + 1)" and pc' = "Tx_cas n"])
      (use b in \<open>simp_all add: s0 s1_def s2_def next_file_def THREAD_COUNT_def goto_def\<close>)
  have r3: "tx_reach_own two_workers s3"
    by (rule solo [OF r2, where pc = "Tx_cas n" and pc' = "Tx_claim (n + 1)"])
      (use b in \<open>simp_all add: s0 s1_def s2_def s3_def goto_def\<close>)
  have tab3: "fs_tab (tx_io s3) = (\<lambda>_. stat_zero)(?x := ?e)"
    by (simp add: s3_def s2_def s1_def s0)
  have fnd: "find (\<lambda>x. st_file_no (entry s3 x) = ?f \<and> st_state (entry s3 x) = FS_INIT) (probe_seq ?f) = Some ?x"
    unfolding home_slot_def by (rule find_hd) (simp_all add: tab3 home_slot_def del: of_nat_add of_nat_Suc)
  have s4: "s4 = goto 0 (Tx_fetch ?x ?e) (set_entry ?x (claimed_entry (n + 1))
      (s3\<lparr>tx_active := (tx_active s3)(0 := ?x)\<rparr>))"
    unfolding s4_def claim_file_def fnd option.case by (simp add: tab3 claimed_entry_def stat_zero_def del: of_nat_add of_nat_Suc)
  have r4: "tx_reach_own two_workers s4"
  proof (rule solo [OF r3, where pc = "Tx_claim (n + 1)" and pc' = "Tx_fetch ?x ?e"])
    show "s4 = worker_step two_workers 0 s3 (Tx_claim (n + 1))"
      by (simp add: s4_def)
  qed (use b in \<open>simp_all add: s0 s1_def s2_def s3_def s4 claimed_entry_def del: of_nat_add of_nat_Suc\<close>)
  show ?thesis
  proof (rule that [of ?e s4])
    show "claimed (n + 1) c ?e s4"
      using r4 b of_nat_u64_inject [of _ "n + 1"] assms(2)
      by (auto simp: claimed_def s4 s3_def s2_def s1_def s0 goto_def set_entry_def simp del: of_nat_add of_nat_Suc)
  qed (use b in \<open>simp_all add: s4 s3_def s2_def s1_def s0 sent_blocks_def del: of_nat_add of_nat_Suc\<close>)
qed

text \<open>Worker 0 sends a file of one block and finishes it.\<close>

lemma run_finish:
  assumes "claimed n c l s" and "c \<noteq> []" and "length c \<le> 4096"
  obtains s' where "between n s'" and "tx_wk s' 1 = tx_wk s 1" and "tx_added s' = tx_added s"
    and "tx_sent s' = tx_sent s @ [(0, nth_block 4096 (of_nat n) c 0)]" and "map fis_file_no (tx_fc s') = map fis_file_no (tx_fc s) @ [of_nat n]"
    and "tx_active s' 0 = tx_active s 0"
proof -
  let ?x = "home_slot n" and ?e = "claimed_entry n"
  note cl = assms(1) [unfolded claimed_def]
  have e: "st_block_offset ?e = 0" "st_file_no ?e = of_nat n" "st_state ?e = FS_COMPLETE OR FS_IO OR id_bit 0"
    by (simp_all add: claimed_entry_def stat_zero_def)
  have c: "pread 4096 0 c = c" "pread 4096 4096 c = []"
    using assms(3) by (simp_all add: pread_def)
  define e1 where "e1 = ?e\<lparr>st_block_offset := 1\<rparr>"
  define e2 where "e2 = stat_update 1 (of_nat (length c)) (of_nat (length c)) e1"
  define e3 where "e3 = e2\<lparr>st_block_offset := 2\<rparr>"
  define e4 where "e4 = e3\<lparr>st_state := FS_COMPLETE\<rparr>"
  have fn: "st_file_no e1 = of_nat n" "st_file_no e2 = of_nat n" "st_file_no e3 = of_nat n" "st_file_no e4 = of_nat n"
    "st_block_offset e2 = 1" "st_state e3 = FS_COMPLETE OR FS_IO OR id_bit 0"
    by (simp_all add: e1_def e2_def e3_def e4_def e stat_update_def)
  define s1 where "s1 = goto 0 (Tx_read ?x l 0) (set_entry ?x e1 s)"
  define s2 where "s2 = goto 0 (Tx_send ?x l 0 c) s1"
  define s3 where "s3 = goto 0 (Tx_fetch ?x l) (set_entry ?x e2 (s2\<lparr>tx_sent := tx_sent s @ [(0, nth_block 4096 (of_nat n) c 0)],
    tx_bytes_io := tx_bytes_io s + length c\<rparr>))"
  define s4 where "s4 = goto 0 (Tx_read ?x l 1) (set_entry ?x e3 s3)"
  define s5 where "s5 = goto 0 (Tx_eof ?x l) s4"
  define s6 where "s6 = goto 0 (Tx_close ?x l) ((set_entry ?x e4 s5)\<lparr>tx_io := file_incrementtail (tx_io (set_entry ?x e4 s5))\<rparr>)"
  define s7 where "s7 = goto 0 (Tx_push ?x) (s6\<lparr>tx_fds := Map.empty\<rparr>)"
  define s8 where "s8 = push_file 0 ?x s7"
  define s9 where "s9 = goto 0 Tx_next (s8\<lparr>tx_io := memset_slot ?x (tx_io s8)\<rparr>)"
  note defs = s1_def s2_def s3_def s4_def s5_def s6_def s7_def
  have tab: "fs_tab (tx_io s1) = (\<lambda>_. stat_zero)(?x := e1)" "fs_tab (tx_io s2) = (\<lambda>_. stat_zero)(?x := e1)"
    "fs_tab (tx_io s3) = (\<lambda>_. stat_zero)(?x := e2)" "fs_tab (tx_io s4) = (\<lambda>_. stat_zero)(?x := e3)"
    "fs_tab (tx_io s5) = (\<lambda>_. stat_zero)(?x := e3)" "fs_tab (tx_io s6) = (\<lambda>_. stat_zero)(?x := e4)"
    "fs_tab (tx_io s7) = (\<lambda>_. stat_zero)(?x := e4)"
    using cl by (simp_all add: defs file_incrementtail_def)
  have wk1: "tx_wk s1 1 = tx_wk s 1" "tx_wk s2 1 = tx_wk s 1" "tx_wk s3 1 = tx_wk s 1" "tx_wk s4 1 = tx_wk s 1"
    "tx_wk s5 1 = tx_wk s 1" "tx_wk s6 1 = tx_wk s 1" "tx_wk s7 1 = tx_wk s 1" "tx_wk s8 1 = tx_wk s 1"
    by (simp_all add: defs s8_def push_file_def Let_def)
  have one: "pc_copy (tx_wk s1 1) = None" "pc_copy (tx_wk s2 1) = None" "pc_copy (tx_wk s3 1) = None"
    "pc_copy (tx_wk s4 1) = None" "pc_copy (tx_wk s5 1) = None" "pc_copy (tx_wk s6 1) = None"
    "pc_copy (tx_wk s7 1) = None" "pc_copy (tx_wk s8 1) = None"
    unfolding wk1 using cl by simp_all
  have zero: "tx_wk s1 0 = Tx_read ?x l 0" "tx_wk s2 0 = Tx_send ?x l 0 c" "tx_wk s3 0 = Tx_fetch ?x l"
    "tx_wk s4 0 = Tx_read ?x l 1" "tx_wk s5 0 = Tx_eof ?x l" "tx_wk s6 0 = Tx_close ?x l" "tx_wk s7 0 = Tx_push ?x"
    "tx_wk s8 0 = Tx_wipe ?x"
    by (simp_all add: defs s8_def push_file_def Let_def)
  have fds: "tx_fds s1 = [3 \<mapsto> (of_nat n, c)]" "tx_fds s4 = [3 \<mapsto> (of_nat n, c)]" "tx_fds s6 = [3 \<mapsto> (of_nat n, c)]"
    using cl by (simp_all add: defs)
  have l: "st_fd l = 3" "st_file_no l = of_nat n"
    using cl by simp_all
  have r1: "tx_reach_own two_workers s1"
    by (rule solo [where s = s and pc = "Tx_fetch ?x l" and pc' = "Tx_read ?x l 0"])
      (use cl in \<open>simp_all add: fetch_block_def e e1_def s1_def\<close>)
  have r2: "tx_reach_own two_workers s2"
  proof (rule solo [OF r1 one(1) _ zero(1)])
    show "s2 = worker_step two_workers 0 s1 (Tx_read ?x l 0)"
      using c(1) assms(2) by (simp add: read_block_def l fds s2_def two_workers_def)
  qed (auto simp: s2_def tab l fn)
  have r3: "tx_reach_own two_workers s3"
  proof (rule solo [OF r2 one(2) _ zero(2)])
    show "s3 = worker_step two_workers 0 s2 (Tx_send ?x l 0 c)"
      using c(1) by (simp add: send_block_def l s3_def e2_def tab two_workers_def nth_block_def) (simp add: s2_def s1_def goto_def set_entry_def)
  qed (auto simp: s3_def tab l fn)
  have r4: "tx_reach_own two_workers s4"
  proof (rule solo [OF r3 one(3) _ zero(3)])
    show "s4 = worker_step two_workers 0 s3 (Tx_fetch ?x l)"
      by (simp add: fetch_block_def l s4_def e3_def tab fn)
  qed (auto simp: s4_def tab l fn)
  have r5: "tx_reach_own two_workers s5"
  proof (rule solo [OF r4 one(4) _ zero(4)])
    show "s5 = worker_step two_workers 0 s4 (Tx_read ?x l 1)"
      using c(2) by (simp add: read_block_def l fds s5_def two_workers_def)
  qed (auto simp: s5_def tab l fn)
  have st: "st_state e3 AND NOT (id_bit 0 OR FS_IO) = FS_COMPLETE"
    by (rule bit_eqI) (auto simp: fn bit_and_iff bit_or_iff bit_not_iff)
  have r6: "tx_reach_own two_workers s6"
  proof (rule solo [OF r5 one(5) _ zero(5)])
    show "s6 = worker_step two_workers 0 s5 (Tx_eof ?x l)"
      using st by (simp add: iow_remove_def Let_def tab s6_def e4_def)
  qed (auto simp: s6_def tab l fn file_incrementtail_def)
  have r7: "tx_reach_own two_workers s7"
    by (rule solo [OF r6 one(6) _ zero(6)]) (auto simp: s7_def fds l)
  have r8: "tx_reach_own two_workers s8"
    by (rule solo [OF r7 one(7) _ zero(7)]) (auto simp: s8_def push_file_def Let_def)
  have r9: "tx_reach_own two_workers s9"
    by (rule solo [OF r8 one(8) _ zero(8)]) (auto simp: s9_def)
  have s8: "tx_io s8 = tx_io s7" "tx_fds s8 = Map.empty" "tx_added s8 = tx_added s" "tx_head s8 = tx_head s"
    "tx_sent s8 = tx_sent s @ [(0, nth_block 4096 (of_nat n) c 0)]" "tx_active s8 = tx_active s"
    "map fis_file_no (tx_fc s8) = map fis_file_no (tx_fc s) @ [of_nat n]" "fs_count (tx_io s7) = fs_count (tx_io s)"
    using tab(7) by (simp_all add: s8_def push_file_def Let_def fc_make_def fn)
      (simp_all add: defs goto_def set_entry_def file_incrementtail_def)
  show ?thesis
  proof (rule that [of s9])
    show "between n s9"
    proof -
      have "(\<lambda>_. stat_zero)(?x := stat_zero) = (\<lambda>_. stat_zero)"
        by auto
      then have "fs_tab (tx_io s9) = (\<lambda>_. stat_zero)"
        by (simp add: s9_def memset_slot_def s8 tab(7))
      moreover have "fs_count (tx_io s9) = n" "tx_head s9 = n" "tx_fds s9 = Map.empty" "tx_added s9 = tx_added s"
        "tx_wk s9 0 = Tx_next" "tx_wk s9 1 = tx_wk s 1"
        using cl wk1(8) s8 by (simp_all add: s9_def goto_def memset_slot_def)
      ultimately show ?thesis
        using r9 cl by (simp add: between_def)
    qed
  qed (use s8 wk1(8) in \<open>simp_all add: s9_def goto_def\<close>)
qed

lemma between_init: "between 0 tx_init"
  by (simp add: between_def tx_reach_own_def reachable.reachable_start) (simp add: tx_init_def file_io_init_def)

lemma run_until:
  assumes "between n s" and "n \<le> m" and "m < 2 ^ 63"
  obtains s' where "between m s'" and "tx_wk s' 1 = tx_wk s 1"
proof -
  have "\<exists>s'. between m s' \<and> tx_wk s' 1 = tx_wk s 1"
    using assms(2,3)
  proof (induction m rule: dec_induct)
    case base
    then show ?case
      using assms(1) by blast
  next
    case (step k)
    then obtain s1 where s1: "between k s1" "tx_wk s1 1 = tx_wk s 1"
      by auto
    have "k + 1 < 2 ^ 63" "length [0 :: u8] < 2 ^ 63"
      using step(4) by simp_all
    from run_claim [OF s1(1) this] obtain s2 l where s2: "claimed (k + 1) [0] l s2" "tx_wk s2 1 = tx_wk s1 1" .
    from run_finish [OF s2(1)] obtain s3 where "between (k + 1) s3" "tx_wk s3 1 = tx_wk s2 1"
      by (metis length_Cons list.size(3) not_Cons_self2 numeral_One one_le_numeral One_nat_def)
    then show ?case
      using s1(2) s2(2) by auto
  qed
  then show ?thesis
    using that by blast
qed

section \<open>A small transfer\<close>

theorem completed_file_sent_witness:
  "\<exists>s. tx_reach_own two_workers s \<and> map fis_file_no (tx_fc s) = [1] \<and> \<not> tx_dead s \<and>
     mset (sent_blocks 1 s) = mset (file_blocks 4096 1 [7, 8, 9])"
proof -
  let ?c = "[7, 8, 9] :: bytes"
  have "0 + 1 < (2 :: nat) ^ 63" "length ?c < 2 ^ 63"
    by simp_all
  from run_claim [OF between_init this] obtain s1 l where s1: "claimed (0 + 1) ?c l s1"
    "tx_added s1 = (tx_added tx_init)(of_nat (0 + 1) \<mapsto> (3, ?c))" "tx_fc s1 = tx_fc tx_init" .
  have "?c \<noteq> []" "length ?c \<le> 4096"
    by simp_all
  from run_finish [OF s1(1) this] obtain s2 where s2: "between (0 + 1) s2" "tx_added s2 = tx_added s1"
    "map fis_file_no (tx_fc s2) = map fis_file_no (tx_fc s1) @ [of_nat (0 + 1)]" .
  have fc: "map fis_file_no (tx_fc s2) = [1]"
    using s2(3) s1(3) by (simp add: tx_init_def)
  have r: "tx_reach_own two_workers s2"
    using s2(1) by (simp add: between_def)
  obtain rep where rep: "rep \<in> set (tx_fc s2)" "fis_file_no rep = 1"
    using fc by auto
  note all = completed_file_sent [OF two_workers_ok r]
  have "tx_added s2 1 = Some (3, ?c)"
    using s1(2) s2(2) by simp
  then have "mset (sent_blocks 1 s2) = mset (file_blocks 4096 1 ?c)"
    using all rep by (auto simp: two_workers_def)
  then show ?thesis
    using r fc all by auto
qed

section \<open>A recycled slot\<close>

lemma home_slot_eq: "home_slot n = FS_MASK (xorshift64s (of_nat n))"
  using probes.simps(2) [of 21 "of_nat n"]
  by (simp add: home_slot_def probe_seq_def FILE_STAT_COUNT_CC_def Let_def)

lemma home_slots: "home_slot 682 = 512" "home_slot 2048 = 512"
  by (simp_all add: home_slot_eq xorshift64s_def FS_MASK_def FILE_STAT_COUNT_HSZ_def)

text \<open>Worker 1 finds no new file, looks at the file of worker 0 and copies its entry.\<close>

lemma goto_goto [simp]: "goto i pc (goto i pc' s) = goto i pc s"
  by (simp add: goto_def)

lemma goto_more [simp]: "tx_head (goto i pc s) = tx_head s" "tx_active (goto i pc s) = tx_active s"
  by (simp_all add: goto_def)

lemma run_look:
  assumes "claimed n c l s" and "tx_wk s 1 = Tx_next" and "home_slot n \<noteq> 0"
  obtains s' where "claimed n c l s'" and "tx_wk s' 1 = Tx_attach 0 (home_slot n) (claimed_entry n)"
proof -
  let ?x = "home_slot n" and ?t = "\<lambda>pc. goto 1 pc s"
  note cl = assms(1) [unfolded claimed_def]
  have step: "tx_reach_own two_workers (?t pc)"
    if "tx_reach_own two_workers t" "?t pc = worker_step two_workers 1 t (tx_wk t 1)" "pc_copy pc = None" for t pc
  proof -
    have "\<not> tx_dead t"
      by (rule tx_alive [OF that(1) two_workers_ok])
    then have "tx_step two_workers t (?t pc)"
      unfolding that(2) by (rule tx_work) (simp add: two_workers_def)
    moreover have "own_copies two_workers (?t pc)"
      using cl that(3) by (auto simp: own_copies_def two_workers_def less_2_cases_iff claimed_entry_def)
    ultimately show ?thesis
      using that(1) unfolding tx_reach_own_def by (blast intro: reachable.reachable_step)
  qed
  have "bit (st_state (claimed_entry n)) 31"
    by (simp add: claimed_entry_def bit_or_iff)
  then have io: "st_state (claimed_entry n) AND FS_IO \<noteq> 0"
    by (simp add: and_FS_IO_iff)
  have "tx_reach_own two_workers (?t (Tx_count n))"
    by (rule step [of s]) (use cl assms(2) in simp_all)
  then have "tx_reach_own two_workers (?t (Tx_scan 0))"
    by (rule step) (use cl in \<open>simp_all add: next_file_def\<close>)
  then have "tx_reach_own two_workers (?t (Tx_attach 0 ?x (claimed_entry n)))"
    by (rule step) (use cl io assms(3) in \<open>simp_all add: scan_active_def THREAD_COUNT_def\<close>)
  then have "claimed n c l (?t (Tx_attach 0 ?x (claimed_entry n)))"
    using cl by (simp add: claimed_def)
  then show ?thesis
    by (rule that) simp
qed

lemma reach_own_reach: "tx_reach_own env s \<Longrightarrow> tx_reach env s"
  unfolding tx_reach_own_def tx_reach_def
  by (induction rule: reachable.induct) (auto intro: reachable.intros)

section \<open>Properties\<close>


end
