(* ===== verification/Write_Workers.thy ===== *)
theory Write_Workers
  imports Send_Workers
begin

text \<open>
  The I/O workers of the receiver (\<open>libdtn/src/dtn.c\<close>: \<open>rx_worker\<close>; \<open>libdtn/src/file_io.c\<close>:
  \<open>file_wait\<close>; \<open>libdtn/src/engine_posix.c\<close>: the write branch of \<open>file_posixsubmit\<close>). Each worker
  takes the blocks of its connection in order, waits until the Rust side has opened the file
  of a block, hashes and writes the block, and counts it. The Rust side closes a file when the
  count reaches the number of blocks the sender has told it, after truncating it to the size it was told.

  Every step is one atomic operation or system call of a worker, or one operation of the Rust
  side. An entry of the table is copied in one step. The two additions after a write are one
  step, as only the count of blocks is read by others.

  Files are kept apart from their names and descriptors: two descriptors may refer to one file, so a write,
  a truncation or an open with \<open>O_TRUNC\<close> through one is seen through the other. A write may
  be short.
\<close>

section \<open>Open files\<close>

text \<open>
  The descriptors of the process, the contents of the files, and as a history for every descriptor
  whether its file was changed in another way than by complete writes through this descriptor
  since it was opened.
\<close>

type_synonym node = nat

record fd_view =
  fv_node :: "i32 \<Rightarrow> node option"
  fv_data :: "node \<Rightarrow> bytes"
  fv_spoilt :: "i32 \<Rightarrow> bool"

text \<open>A change of file \<open>n\<close> through descriptor \<open>fd\<close>.\<close>

definition fv_change :: "i32 \<Rightarrow> node \<Rightarrow> bytes \<Rightarrow> fd_view \<Rightarrow> fd_view" where
  "fv_change fd n c v =
     v\<lparr>fv_data := (fv_data v)(n := c), fv_spoilt := (\<lambda>d. fv_spoilt v d \<or> d \<noteq> fd \<and> fv_node v d = Some n)\<rparr>"

text \<open>\<open>open\<close> with \<open>O_TRUNC\<close>, \<open>ftruncate\<close>, \<open>close\<close>, and a \<open>pwrite\<close> that takes \<open>k\<close> bytes at most.\<close>

definition fv_open :: "i32 \<Rightarrow> node \<Rightarrow> fd_view \<Rightarrow> fd_view" where
  "fv_open fd n v =
     (let v1 = fv_change fd n [] v
      in v1\<lparr>fv_node := (fv_node v)(fd \<mapsto> n), fv_spoilt := (fv_spoilt v1)(fd := False)\<rparr>)"

definition fv_truncate :: "i32 \<Rightarrow> int \<Rightarrow> fd_view \<Rightarrow> fd_view" where
  "fv_truncate fd sz v =
     (case fv_node v fd of
        None \<Rightarrow> v
      | Some n \<Rightarrow> if sz < 0 then v else fv_change fd n (ftruncate (nat sz) (fv_data v n)) v)"

definition fv_close :: "i32 \<Rightarrow> fd_view \<Rightarrow> fd_view" where
  "fv_close fd v = v\<lparr>fv_node := (fv_node v)(fd := None)\<rparr>"

definition fv_pwrite :: "i32 \<Rightarrow> node \<Rightarrow> nat \<Rightarrow> bytes \<Rightarrow> nat \<Rightarrow> fd_view \<Rightarrow> fd_view" where
  "fv_pwrite fd n off buf k v =
     (let v1 = fv_change fd n (pwrite off (take k buf) (fv_data v n)) v
      in if k < length buf then v1\<lparr>fv_spoilt := (fv_spoilt v1)(fd := True)\<rparr> else v1)"

text \<open>The same open files with the same contents; other files may differ.\<close>

definition fv_same :: "fd_view \<Rightarrow> fd_view \<Rightarrow> bool" where
  "fv_same v v' \<longleftrightarrow>
     fv_node v' = fv_node v \<and> fv_spoilt v' = fv_spoilt v \<and> (\<forall>fd n. fv_node v fd = Some n \<longrightarrow> fv_data v' n = fv_data v n)"

section \<open>State\<close>

text \<open>
  What is fixed: the parameters of the session, the blocks each connection carries, the contents the
  sender had for every file it has reported, and the number of blocks and the size that its messages
  give for it.
\<close>

record rw_env =
  re_block :: nat
  re_threads :: nat
  re_sparse :: bool
  re_do_hash :: bool
  re_hash :: "bytes \<Rightarrow> u32"
  re_stream :: "nat \<Rightarrow> file_block list"
  re_plan :: "fino \<Rightarrow> bytes option"
  re_told :: "fino \<Rightarrow> (int \<times> int) option"

text \<open>
  \<open>Rx_wait\<close> carries the slots \<open>file_wait\<close> has still to look at, \<open>Rx_mark\<close> the slot whose copy was in the
  state \<open>FS_INIT\<close> and the descriptor in that copy, \<open>Rx_count\<close> what \<open>submit\<close> has returned.
\<close>

datatype rw_pc =
    Rx_recv
  | Rx_wait file_block "nat list"
  | Rx_mark file_block nat i32 "nat list"
  | Rx_hash file_block
  | Rx_write file_block
  | Rx_count file_block nat

text \<open>
  What is known of a file that was closed: its contents, the checksum the Rust side has read from the entry,
  and as a history the checksum the workers have accumulated and whether the file was
  changed by its own complete writes only.
\<close>

record closing =
  cl_data :: bytes
  cl_crc :: u32
  cl_sum :: u32
  cl_sole :: bool

text \<open>
  \<open>rw_cur\<close> are the local variables \<open>file_cur\<close>, \<open>fs_ptr\<close> and \<open>fs.fd\<close> of a worker. \<open>rw_label\<close> tells for which
  file number the Rust side has opened a descriptor; \<open>rw_hashed\<close> and \<open>rw_log\<close> remember the blocks hashed and
  written, \<open>rw_closed\<close> the files closed.
\<close>

record rw_state =
  rw_io :: file_io
  rw_fs :: fd_view
  rw_label :: "i32 \<Rightarrow> fino option"
  rw_used :: "fino set"
  rw_in :: "nat \<Rightarrow> file_block list"
  rw_wk :: "nat \<Rightarrow> rw_pc"
  rw_cur :: "nat \<Rightarrow> fino \<times> nat \<times> i32"
  rw_hashed :: "file_block list"
  rw_log :: "(bytes \<times> file_block) list"
  rw_closed :: "fino \<Rightarrow> closing option"
  rw_dead :: bool

abbreviation rentry :: "rw_state \<Rightarrow> nat \<Rightarrow> file_stat_type" where
  "rentry s x \<equiv> fs_tab (rw_io s) x"

definition rw_init :: "rw_env \<Rightarrow> fd_view \<Rightarrow> rw_state" where
  "rw_init env v =
     \<lparr>rw_io = file_io_init, rw_fs = v, rw_label = Map.empty, rw_used = {}, rw_in = re_stream env, rw_wk = (\<lambda>_. Rx_recv),
      rw_cur = (\<lambda>_. (0, 0, 0)), rw_hashed = [], rw_log = [], rw_closed = Map.empty, rw_dead = False\<rparr>"

section \<open>Operations\<close>

definition rgoto :: "nat \<Rightarrow> rw_pc \<Rightarrow> rw_state \<Rightarrow> rw_state" where
  "rgoto i pc s = s\<lparr>rw_wk := (rw_wk s)(i := pc)\<rparr>"

definition set_rentry :: "nat \<Rightarrow> file_stat_type \<Rightarrow> rw_state \<Rightarrow> rw_state" where
  "set_rentry x e s = s\<lparr>rw_io := (rw_io s)\<lparr>fs_tab := (fs_tab (rw_io s))(x := e)\<rparr>\<rparr>"

definition recv_block :: "nat \<Rightarrow> rw_state \<Rightarrow> rw_state" where
  "recv_block i s =
     (case rw_in s i of
        [] \<Rightarrow> s
      | b # bs \<Rightarrow>
          let s1 = s\<lparr>rw_in := (rw_in s)(i := bs)\<rparr>
          in if fst (rw_cur s i) = fb_file_no b then rgoto i (Rx_hash b) s1
             else if fb_file_no b = 0 then s1\<lparr>rw_dead := True\<rparr>
             else rgoto i (Rx_wait b (probe_seq (fb_file_no b))) s1)"

text \<open>
  \<open>file_wait\<close>: one slot after the other is copied, from the start again when none had the file. The
  first worker on a file marks it, the others find it marked.
\<close>

fun file_wait :: "nat \<Rightarrow> file_block \<Rightarrow> nat list \<Rightarrow> rw_state \<Rightarrow> rw_state" where
  "file_wait i b [] s = rgoto i (Rx_wait b (probe_seq (fb_file_no b))) s"
| "file_wait i b (x # xs) s =
     (let e = rentry s x
      in if st_file_no e \<noteq> fb_file_no b then rgoto i (Rx_wait b xs) s
         else if st_state e = FS_INIT then rgoto i (Rx_mark b x (st_fd e) xs) s
         else if st_state e AND FS_IO \<noteq> 0 then
           rgoto i (Rx_hash b) (s\<lparr>rw_cur := (rw_cur s)(i := (fb_file_no b, x, st_fd e))\<rparr>)
         else rgoto i (Rx_wait b xs) s)"

text \<open>
  The compare-and-swap of the state. When another worker was faster the search goes on: the copy has the
  state \<open>FS_INIT\<close>, in which \<open>FS_IO\<close> is not set.
\<close>

definition mark_file :: "nat \<Rightarrow> file_block \<Rightarrow> nat \<Rightarrow> i32 \<Rightarrow> nat list \<Rightarrow> rw_state \<Rightarrow> rw_state" where
  "mark_file i b x fd xs s =
     (if st_state (rentry s x) = FS_INIT then
        rgoto i (Rx_hash b)
          ((set_rentry x ((rentry s x)\<lparr>st_state := FS_COMPLETE OR FS_IO\<rparr>) s)
             \<lparr>rw_cur := (rw_cur s)(i := (fb_file_no b, x, fd))\<rparr>)
      else rgoto i (Rx_wait b xs) s)"

definition hash_block :: "rw_env \<Rightarrow> nat \<Rightarrow> file_block \<Rightarrow> rw_state \<Rightarrow> rw_state" where
  "hash_block env i b s =
     (let (f, x, fd) = rw_cur s i
      in rgoto i (Rx_write b)
           ((set_rentry x (stat_update 0 0 (if re_do_hash env then re_hash env (fb_data b) else 0) (rentry s x)) s)
              \<lparr>rw_hashed := rw_hashed s @ [b]\<rparr>))"

text \<open>
  The write, with what the buffer of the worker holds behind the data. A buffer of zeros is skipped in a
  sparse session. Otherwise the system writes as many bytes as it likes, \<open>k\<close> at most, which is taken for a
  success as long as it is more than 0.
\<close>

definition rx_write :: "rw_env \<Rightarrow> nat \<Rightarrow> bytes \<Rightarrow> nat \<Rightarrow> file_block \<Rightarrow> rw_state \<Rightarrow> rw_state" where
  "rx_write env i junk k b s =
     (let (f, x, fd) = rw_cur s i;
          buf = padded junk (fb_data b);
          skip = re_sparse env \<and> memcmp_zero buf;
          sz = (if skip then length buf else min k (length buf));
          s1 = rgoto i (Rx_count b sz) (s\<lparr>rw_log := rw_log s @ [(junk, b)]\<rparr>)
      in if sz = 0 then s\<lparr>rw_dead := True\<rparr>
         else if skip then s1
         else
           (case fv_node (rw_fs s) fd of
              None \<Rightarrow> s\<lparr>rw_dead := True\<rparr>
            | Some n \<Rightarrow> s1\<lparr>rw_fs := fv_pwrite fd n (unat (fb_offset b)) buf k (rw_fs s)\<rparr>))"

definition count_block :: "nat \<Rightarrow> file_block \<Rightarrow> nat \<Rightarrow> rw_state \<Rightarrow> rw_state" where
  "count_block i b sz s =
     (let (f, x, fd) = rw_cur s i
      in rgoto i Rx_recv (set_rentry x (stat_update 1 (of_nat sz) 0 (rentry s x)) s))"

fun rworker_step :: "rw_env \<Rightarrow> nat \<Rightarrow> bytes \<Rightarrow> nat \<Rightarrow> rw_state \<Rightarrow> rw_pc \<Rightarrow> rw_state" where
  "rworker_step env i junk k s Rx_recv = recv_block i s"
| "rworker_step env i junk k s (Rx_wait b xs) = file_wait i b xs s"
| "rworker_step env i junk k s (Rx_mark b x fd xs) = mark_file i b x fd xs s"
| "rworker_step env i junk k s (Rx_hash b) = hash_block env i b s"
| "rworker_step env i junk k s (Rx_write b) = rx_write env i junk k b s"
| "rworker_step env i junk k s (Rx_count b sz) = count_block i b sz s"

text \<open>
  The Rust side: opening a file, which creates or empties it, under a descriptor that is not in
  use; entering the descriptor into the table, which fails when the table has no room; and closing a
  file whose blocks are all counted. The checksum is read where the binding has it.
\<close>

definition open_file :: "fino \<Rightarrow> i32 \<Rightarrow> node \<Rightarrow> rw_state \<Rightarrow> rw_state" where
  "open_file f fd n s = s\<lparr>rw_fs := fv_open fd n (rw_fs s), rw_label := (rw_label s)(fd \<mapsto> f)\<rparr>"

definition enter_ok :: "fino \<Rightarrow> i32 \<Rightarrow> rw_state \<Rightarrow> bool" where
  "enter_ok f fd s \<longleftrightarrow> f \<noteq> 0 \<and> f \<notin> rw_used s \<and> rw_label s fd = Some f \<and> fv_node (rw_fs s) fd \<noteq> None"

definition enter_opened :: "fino \<Rightarrow> i32 \<Rightarrow> rw_state \<Rightarrow> rw_state" where
  "enter_opened f fd s =
     (case file_addfile f fd 0 0 (rw_io s) of
        (None, _) \<Rightarrow> s
      | (Some _, io) \<Rightarrow> s\<lparr>rw_io := io, rw_used := insert f (rw_used s)\<rparr>)"

definition close_counted :: "rw_env \<Rightarrow> fino \<Rightarrow> rw_state \<Rightarrow> rw_state" where
  "close_counted env f s =
     (case (re_told env f, file_getstats f (rw_io s)) of
        (Some (blocks, sz), Some x) \<Rightarrow>
          let e = rentry s x; v = fv_truncate (st_fd e) sz (rw_fs s)
          in if blocks < 0 \<or> u64_as_i64 (st_block_total e) < blocks then s
             else
               (case fv_node (rw_fs s) (st_fd e) of
                  None \<Rightarrow> s
                | Some n \<Rightarrow>
                    s\<lparr>rw_fs := fv_close (st_fd e) v, rw_label := (rw_label s)(st_fd e := None),
                      rw_io := file_incrementtail (memset_slot x (rw_io s)),
                      rw_closed := (rw_closed s)(f \<mapsto>
                        \<lparr>cl_data = fv_data v n, cl_crc = rust_crc e, cl_sum = st_crc e,
                         cl_sole = (\<not> fv_spoilt (rw_fs s) (st_fd e))\<rparr>)\<rparr>)
      | _ \<Rightarrow> s)"

text \<open>Besides, a compare-and-swap may fail without reason, and files that are not open may change.\<close>

inductive rw_step :: "rw_env \<Rightarrow> rw_state \<Rightarrow> rw_state \<Rightarrow> bool" for env where
  rw_work: "\<not> rw_dead s \<Longrightarrow> i < re_threads env \<Longrightarrow> rw_step env s (rworker_step env i junk k s (rw_wk s i))"
| rw_spurious: "\<not> rw_dead s \<Longrightarrow> i < re_threads env \<Longrightarrow> rw_wk s i = Rx_mark b x fd xs \<Longrightarrow>
    rw_step env s (rgoto i (Rx_wait b xs) s)"
| rw_fail: "rw_step env s (s\<lparr>rw_dead := True\<rparr>)"
| rw_open: "\<not> rw_dead s \<Longrightarrow> fv_node (rw_fs s) fd = None \<Longrightarrow> rw_step env s (open_file f fd n s)"
| rw_enter: "\<not> rw_dead s \<Longrightarrow> enter_ok f fd s \<Longrightarrow> rw_step env s (enter_opened f fd s)"
| rw_close: "\<not> rw_dead s \<Longrightarrow> f \<noteq> 0 \<Longrightarrow> rw_step env s (close_counted env f s)"
| rw_other: "fv_same (rw_fs s) v \<Longrightarrow> rw_step env s (s\<lparr>rw_fs := v\<rparr>)"

definition rw_reach :: "rw_env \<Rightarrow> rw_state \<Rightarrow> bool" where
  "rw_reach env = reachable (\<lambda>s. \<exists>v. s = rw_init env v) (rw_step env)"

text \<open>
  The connections carry every block of each reported file once, blocks are whole pages, and the
  messages of the sender give the number of blocks and the size of the file they are for.
\<close>

definition stream_of :: "rw_env \<Rightarrow> fino \<Rightarrow> file_block multiset" where
  "stream_of env f = (\<Sum>i<re_threads env. filter_mset (\<lambda>b. fb_file_no b = f) (mset (re_stream env i)))"

definition plan_ok :: "rw_env \<Rightarrow> bool" where
  "plan_ok env \<longleftrightarrow>
     0 < re_block env \<and> 4096 dvd re_block env \<and>
     (\<forall>i < re_threads env. \<forall>b \<in> set (re_stream env i). fb_file_no b \<noteq> 0) \<and>
     (\<forall>f c. re_plan env f = Some c \<longrightarrow> length c < 2 ^ 63 \<and> stream_of env f = mset (file_blocks (re_block env) f c)) \<and>
     (\<forall>f blocks sz. re_told env f = Some (blocks, sz) \<longrightarrow>
        (\<exists>c. re_plan env f = Some c \<and> blocks = int (block_count (re_block env) (length c)) \<and> sz = int (length c)))"

section \<open>Invariant\<close>

text \<open>Blocks a worker has taken but not written, has hashed but not written, has written but not counted.\<close>

fun unwritten :: "fino \<Rightarrow> rw_pc \<Rightarrow> file_block multiset" where
  "unwritten f Rx_recv = {#}"
| "unwritten f (Rx_wait b xs) = (if fb_file_no b = f then {#b#} else {#})"
| "unwritten f (Rx_mark b x fd xs) = (if fb_file_no b = f then {#b#} else {#})"
| "unwritten f (Rx_hash b) = (if fb_file_no b = f then {#b#} else {#})"
| "unwritten f (Rx_write b) = (if fb_file_no b = f then {#b#} else {#})"
| "unwritten f (Rx_count b sz) = {#}"

fun hashed_only :: "fino \<Rightarrow> rw_pc \<Rightarrow> file_block multiset" where
  "hashed_only f (Rx_write b) = (if fb_file_no b = f then {#b#} else {#})"
| "hashed_only f _ = {#}"

fun uncounted :: "fino \<Rightarrow> rw_pc \<Rightarrow> nat" where
  "uncounted f (Rx_count b sz) = (if fb_file_no b = f then 1 else 0)"
| "uncounted f _ = 0"

text \<open>The block a worker holds, and the block for whose file it has found the entry.\<close>

fun on_file :: "rw_pc \<Rightarrow> file_block option" where
  "on_file (Rx_hash b) = Some b"
| "on_file (Rx_write b) = Some b"
| "on_file (Rx_count b sz) = Some b"
| "on_file _ = None"

fun held :: "rw_pc \<Rightarrow> file_block option" where
  "held (Rx_wait b xs) = Some b"
| "held (Rx_mark b x fd xs) = Some b"
| "held pc = on_file pc"

definition unread :: "rw_env \<Rightarrow> rw_state \<Rightarrow> fino \<Rightarrow> file_block multiset" where
  "unread env s f = (\<Sum>i<re_threads env. filter_mset (\<lambda>b. fb_file_no b = f) (mset (rw_in s i)))"

definition in_work :: "rw_env \<Rightarrow> rw_state \<Rightarrow> fino \<Rightarrow> file_block multiset" where
  "in_work env s f = (\<Sum>i<re_threads env. unwritten f (rw_wk s i))"

definition ahead :: "rw_env \<Rightarrow> rw_state \<Rightarrow> fino \<Rightarrow> file_block multiset" where
  "ahead env s f = (\<Sum>i<re_threads env. hashed_only f (rw_wk s i))"

definition behind :: "rw_env \<Rightarrow> rw_state \<Rightarrow> fino \<Rightarrow> nat" where
  "behind env s f = (\<Sum>i<re_threads env. uncounted f (rw_wk s i))"

definition log_of :: "rw_state \<Rightarrow> fino \<Rightarrow> (bytes \<times> file_block) list" where
  "log_of s f = filter (\<lambda>w. fb_file_no (snd w) = f) (rw_log s)"

definition hashed_of :: "rw_state \<Rightarrow> fino \<Rightarrow> file_block list" where
  "hashed_of s f = filter (\<lambda>b. fb_file_no b = f) (rw_hashed s)"

definition hashes :: "rw_env \<Rightarrow> file_block list \<Rightarrow> u32" where
  "hashes env bs = (if re_do_hash env then foldr (\<lambda>b a. re_hash env (fb_data b) XOR a) bs 0 else 0)"

definition flow_inv :: "rw_env \<Rightarrow> rw_state \<Rightarrow> fino \<Rightarrow> bool" where
  "flow_inv env s f \<longleftrightarrow>
     mset (map snd (log_of s f)) + in_work env s f + unread env s f = stream_of env f \<and>
     mset (hashed_of s f) = mset (map snd (log_of s f)) + ahead env s f \<and>
     (f \<notin> rw_used s \<longrightarrow> log_of s f = [] \<and> hashed_of s f = [] \<and> behind env s f = 0 \<and> rw_closed s f = None)"

text \<open>The contents are known of a file that was changed by its own complete writes only.\<close>

definition closed_inv :: "rw_env \<Rightarrow> rw_state \<Rightarrow> fino \<Rightarrow> bool" where
  "closed_inv env s f \<longleftrightarrow>
     (\<forall>k. rw_closed s f = Some k \<longrightarrow>
        (\<exists>c. re_plan env f = Some c \<and> (cl_sole k \<longrightarrow> cl_data k = c) \<and> cl_sum k = hashes env (file_blocks (re_block env) f c)) \<and>
        cl_crc k = 0 \<and>
        f \<noteq> 0 \<and> in_work env s f = {#} \<and> behind env s f = 0 \<and> unread env s f = {#} \<and> (\<forall>x. st_file_no (rentry s x) \<noteq> f))"

definition holds_data :: "fd_view \<Rightarrow> i32 \<Rightarrow> bytes \<Rightarrow> bool" where
  "holds_data v fd c \<longleftrightarrow> (\<exists>n. fv_node v fd = Some n \<and> (\<not> fv_spoilt v fd \<longrightarrow> fv_data v n = c))"

definition open_inv :: "rw_env \<Rightarrow> rw_state \<Rightarrow> nat \<Rightarrow> bool" where
  "open_inv env s x \<longleftrightarrow>
     (let e = rentry s x; f = st_file_no e
      in st_state e \<noteq> 0 \<longrightarrow>
           f \<in> rw_used s \<and> rw_label s (st_fd e) = Some f \<and>
           holds_data (rw_fs s) (st_fd e) (write_blocks (re_sparse env) (log_of s f) []) \<and>
           (\<exists>m. st_block_total e = of_nat m \<and> m + behind env s f = length (log_of s f)) \<and>
           st_crc e = hashes env (hashed_of s f) \<and> st_read_limit e = 0)"

text \<open>A descriptor that was opened for a file that is not yet in the table.\<close>

definition pend_inv :: "rw_state \<Rightarrow> bool" where
  "pend_inv s \<longleftrightarrow>
     (\<forall>fd f. rw_label s fd = Some f \<longrightarrow> f \<notin> rw_used s \<longrightarrow> fv_node (rw_fs s) fd \<noteq> None \<longrightarrow> holds_data (rw_fs s) fd [])"

definition cur_inv :: "rw_state \<Rightarrow> fino \<times> nat \<times> i32 \<Rightarrow> bool" where
  "cur_inv s = (\<lambda>(f, x, fd). f \<noteq> 0 \<longrightarrow>
     f \<in> rw_used s \<and> (rw_closed s f \<noteq> None \<or> st_file_no (rentry s x) = f \<and> st_fd (rentry s x) = fd))"

definition worker_inv :: "rw_state \<Rightarrow> rw_pc \<Rightarrow> fino \<times> nat \<times> i32 \<Rightarrow> bool" where
  "worker_inv s pc cur \<longleftrightarrow>
     cur_inv s cur \<and> (\<forall>b. held pc = Some b \<longrightarrow> fb_file_no b \<noteq> 0) \<and> (\<forall>b. on_file pc = Some b \<longrightarrow> fst cur = fb_file_no b) \<and>
     (\<forall>b x fd xs. pc = Rx_mark b x fd xs \<longrightarrow> cur_inv s (fb_file_no b, x, fd))"

definition rw_inv :: "rw_env \<Rightarrow> rw_state \<Rightarrow> bool" where
  "rw_inv env s \<longleftrightarrow>
     fs_inv (rw_io s) \<and> (\<forall>f. flow_inv env s f) \<and> (\<forall>f. closed_inv env s f) \<and> (\<forall>x. open_inv env s x) \<and> pend_inv s \<and>
     (\<forall>i < re_threads env. worker_inv s (rw_wk s i) (rw_cur s i) \<and> (\<forall>b \<in> set (rw_in s i). fb_file_no b \<noteq> 0))"

subsection \<open>Sums over the workers\<close>

lemma in_work_upd:
  "i < re_threads env \<Longrightarrow> rw_wk s' = (rw_wk s)(i := pc) \<Longrightarrow>
   in_work env s' f + unwritten f (rw_wk s i) = in_work env s f + unwritten f pc"
  unfolding in_work_def by (simp only:) (rule sum_fun_upd)

lemma ahead_upd:
  "i < re_threads env \<Longrightarrow> rw_wk s' = (rw_wk s)(i := pc) \<Longrightarrow>
   ahead env s' f + hashed_only f (rw_wk s i) = ahead env s f + hashed_only f pc"
  unfolding ahead_def by (simp only:) (rule sum_fun_upd)

lemma behind_upd:
  "i < re_threads env \<Longrightarrow> rw_wk s' = (rw_wk s)(i := pc) \<Longrightarrow>
   behind env s' f + uncounted f (rw_wk s i) = behind env s f + uncounted f pc"
  unfolding behind_def by (simp only:) (rule sum_fun_upd)

lemma unread_upd:
  "i < re_threads env \<Longrightarrow> rw_in s' = (rw_in s)(i := bs) \<Longrightarrow>
   unread env s' f + filter_mset (\<lambda>b. fb_file_no b = f) (mset (rw_in s i))
     = unread env s f + filter_mset (\<lambda>b. fb_file_no b = f) (mset bs)"
  unfolding unread_def by (simp only:) (rule sum_fun_upd [where f = "\<lambda>xs. filter_mset (\<lambda>b. fb_file_no b = f) (mset xs)"])

lemma sum_member:
  fixes g :: "nat \<Rightarrow> 'a multiset"
  assumes "i < n"
  shows "g i \<subseteq># (\<Sum>k<n. g k)"
  using assms by (simp add: sum.remove [of _ i])

text \<open>A file of which a worker has a block is not closed.\<close>

lemma held_not_closed:
  assumes "rw_inv env s" and "i < re_threads env" and "held (rw_wk s i) = Some b"
  shows "rw_closed s (fb_file_no b) = None" and "fb_file_no b \<noteq> 0"
proof -
  let ?f = "fb_file_no b"
  show "?f \<noteq> 0"
    using assms by (auto simp: rw_inv_def worker_inv_def)
  show "rw_closed s ?f = None"
  proof (rule ccontr)
    assume "rw_closed s ?f \<noteq> None"
    moreover have "closed_inv env s ?f"
      using assms(1) by (simp add: rw_inv_def)
    ultimately have "in_work env s ?f = {#}" "behind env s ?f = 0"
      by (auto simp: closed_inv_def)
    then have "unwritten ?f (rw_wk s i) = {#}" "uncounted ?f (rw_wk s i) = 0"
      using assms(2) sum_member [OF assms(2), of "\<lambda>k. unwritten ?f (rw_wk s k)"]
      by (simp_all add: in_work_def behind_def)
    then show False
      using assms(3) by (cases "rw_wk s i") auto
  qed
qed

lemma on_file_held: "on_file pc = Some b \<Longrightarrow> held pc = Some b"
  by (cases pc) simp_all

text \<open>A worker on a block of a file keeps the file open, at the slot it remembers.\<close>

lemma on_file_open:
  assumes "rw_inv env s" and "i < re_threads env" and "on_file (rw_wk s i) = Some b"
  obtains x where "rw_cur s i = (fb_file_no b, x, st_fd (rentry s x))" and "st_file_no (rentry s x) = fb_file_no b"
    and "st_state (rentry s x) \<noteq> 0" and "rw_closed s (fb_file_no b) = None" and "fb_file_no b \<in> rw_used s"
    and "fb_file_no b \<noteq> 0"
proof -
  let ?f = "fb_file_no b"
  note h = held_not_closed [OF assms(1,2) on_file_held [OF assms(3)]]
  obtain x fd where cur: "rw_cur s i = (?f, x, fd)"
    using assms by (cases "rw_cur s i") (auto simp: rw_inv_def worker_inv_def)
  have "cur_inv s (rw_cur s i)"
    using assms(1,2) by (simp add: rw_inv_def worker_inv_def)
  then have "st_file_no (rentry s x) = ?f" "st_fd (rentry s x) = fd" "?f \<in> rw_used s"
    using h by (auto simp: cur_inv_def cur)
  moreover from this have "st_state (rentry s x) \<noteq> 0"
    using fs_inv_file_no_state [OF _ h(2), of "rw_io s" x] assms(1) by (simp add: rw_inv_def)
  ultimately show ?thesis
    using that cur h by simp
qed

text \<open>A step on a block of file \<open>f\<close>, which is not closed. The files of other numbers are changed only if they are marked as spoilt.\<close>

definition fs_frame :: "rw_state \<Rightarrow> rw_state \<Rightarrow> fino \<Rightarrow> bool" where
  "fs_frame s s' f \<longleftrightarrow>
     rw_label s' = rw_label s \<and> fv_node (rw_fs s') = fv_node (rw_fs s) \<and>
     (\<forall>fd n. rw_label s fd \<noteq> Some f \<longrightarrow> fv_node (rw_fs s) fd = Some n \<longrightarrow> \<not> fv_spoilt (rw_fs s') fd \<longrightarrow>
        \<not> fv_spoilt (rw_fs s) fd \<and> fv_data (rw_fs s') n = fv_data (rw_fs s) n)"

lemma fs_frame_same: "rw_fs s' = rw_fs s \<Longrightarrow> rw_label s' = rw_label s \<Longrightarrow> fs_frame s s' f"
  by (simp add: fs_frame_def)

lemma fs_frame_holds:
  "fs_frame s s' f \<Longrightarrow> rw_label s fd \<noteq> Some f \<Longrightarrow> holds_data (rw_fs s) fd c \<Longrightarrow> holds_data (rw_fs s') fd c"
  by (auto simp: fs_frame_def holds_data_def)

lemma pend_frame:
  assumes fs: "fs_frame s s' f" and "f \<in> rw_used s" and "rw_used s' = rw_used s" and "pend_inv s"
  shows "pend_inv s'"
proof -
  have "holds_data (rw_fs s') fd []"
    if "rw_label s fd = Some g" "g \<notin> rw_used s" "fv_node (rw_fs s) fd \<noteq> None" for fd g
    using that assms(2,4) by (intro fs_frame_holds [OF fs]) (auto simp: pend_inv_def)
  then show ?thesis
    using fs assms(3) by (simp add: pend_inv_def fs_frame_def)
qed

lemma block_frame:
  assumes inv: "rw_inv env s" and f: "rw_closed s f = None"
    and same: "rw_closed s' = rw_closed s" "rw_used s' = rw_used s"
    and others: "\<And>g. g \<noteq> f \<Longrightarrow> in_work env s' g = in_work env s g \<and> behind env s' g = behind env s g \<and>
      unread env s' g = unread env s g \<and> ahead env s' g = ahead env s g \<and> log_of s' g = log_of s g \<and>
      hashed_of s' g = hashed_of s g"
    and tab: "\<And>y. st_file_no (rentry s' y) = st_file_no (rentry s y)" "\<And>y. st_fd (rentry s' y) = st_fd (rentry s y)"
      "\<And>y. st_file_no (rentry s y) \<noteq> f \<Longrightarrow> rentry s' y = rentry s y"
    and fs: "fs_frame s s' f"
    and new: "fs_inv (rw_io s')" "flow_inv env s' f" "\<And>y. st_file_no (rentry s y) = f \<Longrightarrow> open_inv env s' y" "pend_inv s'"
    and workers: "\<And>j. j < re_threads env \<Longrightarrow> worker_inv s (rw_wk s' j) (rw_cur s' j) \<and>
        (\<forall>b \<in> set (rw_in s' j). fb_file_no b \<noteq> 0)"
  shows "rw_inv env s'"
proof -
  note parts = inv [unfolded rw_inv_def]
  have "flow_inv env s' g" for g
  proof (cases "g = f")
    case False
    have "flow_inv env s g"
      using parts by blast
    then show ?thesis
      using others [OF False] same by (simp add: flow_inv_def)
  qed (use new(2) in simp)
  moreover have "closed_inv env s' g" for g
  proof (cases "g = f")
    case False
    have "closed_inv env s g"
      using parts by blast
    then show ?thesis
      using others [OF False] same tab(1) by (simp add: closed_inv_def)
  qed (use f same in \<open>simp add: closed_inv_def\<close>)
  moreover have "open_inv env s' y" for y
  proof (cases "st_file_no (rentry s y) = f")
    case False
    have "open_inv env s y"
      using parts by blast
    then show ?thesis
      using others [OF False] same tab(3) [OF False] False fs fs_frame_holds [OF fs]
      by (auto simp: open_inv_def Let_def fs_frame_def)
  qed (use new(3) in simp)
  moreover have "cur_inv s' p = cur_inv s p" for p
    using same tab(1,2) by (simp add: cur_inv_def)
  ultimately show ?thesis
    using new(1,4) workers by (simp add: rw_inv_def worker_inv_def)
qed

lemma rgoto_simps [simp]:
  "rw_wk (rgoto i pc s) = (rw_wk s)(i := pc)" "rw_io (rgoto i pc s) = rw_io s" "rw_fs (rgoto i pc s) = rw_fs s"
  "rw_label (rgoto i pc s) = rw_label s"
  "rw_used (rgoto i pc s) = rw_used s" "rw_in (rgoto i pc s) = rw_in s" "rw_cur (rgoto i pc s) = rw_cur s"
  "rw_hashed (rgoto i pc s) = rw_hashed s" "rw_log (rgoto i pc s) = rw_log s" "rw_closed (rgoto i pc s) = rw_closed s"
  "rw_dead (rgoto i pc s) = rw_dead s"
  by (simp_all add: rgoto_def)

lemma set_rentry_simps [simp]:
  "rw_wk (set_rentry x e s) = rw_wk s" "fs_tab (rw_io (set_rentry x e s)) = (fs_tab (rw_io s))(x := e)"
  "rw_fs (set_rentry x e s) = rw_fs s" "rw_label (set_rentry x e s) = rw_label s"
  "rw_used (set_rentry x e s) = rw_used s" "rw_in (set_rentry x e s) = rw_in s"
  "rw_cur (set_rentry x e s) = rw_cur s" "rw_hashed (set_rentry x e s) = rw_hashed s"
  "rw_log (set_rentry x e s) = rw_log s" "rw_closed (set_rentry x e s) = rw_closed s"
  "rw_dead (set_rentry x e s) = rw_dead s"
  by (simp_all add: set_rentry_def)

lemma unread_same: "rw_in s' = rw_in s \<Longrightarrow> unread env s' f = unread env s f"
  by (simp add: unread_def)

lemma log_of_same: "rw_log s' = rw_log s \<Longrightarrow> log_of s' f = log_of s f"
  by (simp add: log_of_def)

lemma hashed_of_same: "rw_hashed s' = rw_hashed s \<Longrightarrow> hashed_of s' f = hashed_of s f"
  by (simp add: hashed_of_def)

lemma step_recv:
  assumes "rw_inv env s" and "i < re_threads env" and "rw_wk s i = Rx_recv"
  shows "rw_inv env (recv_block i s)"
proof (cases "rw_in s i")
  case Nil
  then show ?thesis
    using assms(1) by (simp add: recv_block_def)
next
  case (Cons b bs)
  let ?f = "fb_file_no b" and ?s = "recv_block i s"
  let ?pc = "if fst (rw_cur s i) = ?f then Rx_hash b else Rx_wait b (probe_seq ?f)"
  have flow: "flow_inv env s ?f" and nz: "?f \<noteq> 0"
    using assms(1,2) Cons by (auto simp: rw_inv_def)
  have wk: "rw_wk ?s = (rw_wk s)(i := ?pc)" and inb: "rw_in ?s = (rw_in s)(i := bs)"
    and rest: "rw_io ?s = rw_io s" "rw_fs ?s = rw_fs s" "rw_label ?s = rw_label s" "rw_used ?s = rw_used s" "rw_cur ?s = rw_cur s"
      "rw_hashed ?s = rw_hashed s" "rw_log ?s = rw_log s" "rw_closed ?s = rw_closed s"
    using nz by (simp_all add: recv_block_def Cons Let_def)
  note sums = in_work_upd [OF assms(2) wk] ahead_upd [OF assms(2) wk] behind_upd [OF assms(2) wk]
    unread_upd [OF assms(2) inb]
  have work: "in_work env ?s g = in_work env s g + (if ?f = g then {#b#} else {#})" for g
    using sums(1) [of g] assms(3) by (auto split: if_splits)
  have un: "unread env s g = unread env ?s g + (if ?f = g then {#b#} else {#})" for g
    using sums(4) [of g] Cons by (auto split: if_splits)
  have ah: "ahead env ?s g = ahead env s g" "behind env ?s g = behind env s g" for g
    using sums(2,3) [of g] assms(3) by (auto split: if_splits)
  have logs: "log_of ?s g = log_of s g" "hashed_of ?s g = hashed_of s g" for g
    using rest by (simp_all add: log_of_def hashed_of_def)
  have "b \<in># unread env s ?f"
    using un [of ?f] by simp
  moreover have "closed_inv env s ?f"
    using assms(1) unfolding rw_inv_def by blast
  ultimately have closed: "rw_closed s ?f = None"
    by (cases "rw_closed s ?f") (auto simp: closed_inv_def)
  show ?thesis
  proof (rule block_frame [OF assms(1) closed])
    show "flow_inv env ?s ?f"
      using flow by (simp add: flow_inv_def work un ah logs rest union_assoc)
    show "open_inv env ?s y" for y
      using assms(1) by (simp add: rw_inv_def open_inv_def rest logs ah)
    show "worker_inv s (rw_wk ?s j) (rw_cur ?s j) \<and> (\<forall>b \<in> set (rw_in ?s j). fb_file_no b \<noteq> 0)" if "j < re_threads env" for j
      using assms(1) that nz Cons by (auto simp: rw_inv_def worker_inv_def rest wk inb)
    show "fs_frame s ?s ?f"
      by (rule fs_frame_same) (simp_all add: rest)
  qed (use assms(1) in \<open>simp_all add: rest work un ah logs rw_inv_def pend_inv_def\<close>)
qed

text \<open>A step of worker \<open>i\<close> on a block of the open file in slot \<open>x\<close>.\<close>

lemma entry_frame:
  assumes inv: "rw_inv env s" and f: "rw_closed s f = None" "f \<noteq> 0" "st_file_no (rentry s x) = f" "f \<in> rw_used s"
    and i: "i < re_threads env" and wk: "rw_wk s' = (rw_wk s)(i := pc)"
    and same: "rw_closed s' = rw_closed s" "rw_used s' = rw_used s" "rw_in s' = rw_in s"
    and tab: "fs_tab (rw_io s') = (fs_tab (rw_io s))(x := e)"
    and e: "st_state e \<noteq> 0" "st_file_no e = f" "st_position e = st_position (rentry s x)" "st_fd e = st_fd (rentry s x)"
    and pcs: "\<And>g. g \<noteq> f \<Longrightarrow> unwritten g pc = unwritten g (rw_wk s i) \<and>
      hashed_only g pc = hashed_only g (rw_wk s i) \<and> uncounted g pc = uncounted g (rw_wk s i)"
    and logs: "\<And>g. g \<noteq> f \<Longrightarrow> log_of s' g = log_of s g \<and> hashed_of s' g = hashed_of s g"
    and fs: "fs_frame s s' f"
    and new: "flow_inv env s' f" "open_inv env s' x"
    and cur: "rw_cur s' = (rw_cur s)(i := (f, x, st_fd e))" "\<And>b. held pc = Some b \<Longrightarrow> on_file pc = Some b \<and> fb_file_no b = f"
  shows "rw_inv env s'"
proof (rule block_frame [OF inv f(1) same(1,2)])
  note parts = inv [unfolded rw_inv_def]
  have nz: "st_state (rentry s x) \<noteq> 0"
    using fs_inv_file_no_state [OF _ f(2,3)] parts by blast
  have "fs_inv ((rw_io s)\<lparr>fs_tab := (fs_tab (rw_io s))(x := e)\<rparr>)"
    using parts by (intro fs_inv_upd) (use nz e f(3) in auto)
  then show "fs_inv (rw_io s')"
    by (rule fs_inv_cong [THEN iffD1, rotated]) (simp add: tab)
  show "in_work env s' g = in_work env s g \<and> behind env s' g = behind env s g \<and> unread env s' g = unread env s g \<and>
      ahead env s' g = ahead env s g \<and> log_of s' g = log_of s g \<and> hashed_of s' g = hashed_of s g" if "g \<noteq> f" for g
    using pcs [OF that] logs [OF that] in_work_upd [OF i wk, of g] ahead_upd [OF i wk, of g] behind_upd [OF i wk, of g]
      unread_same [OF same(3)] by simp
  show "open_inv env s' y" if "st_file_no (rentry s y) = f" for y
    using used_slot_unique [of "rw_io s" y x] that f(3) nz new(2) parts by simp
  have "pend_inv s"
    using parts by blast
  then show "pend_inv s'"
    by (rule pend_frame [OF fs f(4) same(2)])
  have "worker_inv s pc (f, x, st_fd e)"
    using f e(4) cur(2) on_file_held [of pc] by (cases pc) (auto simp: worker_inv_def cur_inv_def)
  then show "worker_inv s (rw_wk s' j) (rw_cur s' j) \<and> (\<forall>b \<in> set (rw_in s' j). fb_file_no b \<noteq> 0)" if "j < re_threads env" for j
    using parts that by (simp add: wk same(3) cur(1))
qed (use tab e f fs new in auto)

lemma open_slot:
  assumes "rw_inv env s" and "st_file_no (rentry s x) = f" and "f \<noteq> 0"
  shows "st_state (rentry s x) \<noteq> 0" and "rw_closed s f = None" and "f \<in> rw_used s"
    and "holds_data (rw_fs s) (st_fd (rentry s x)) (write_blocks (re_sparse env) (log_of s f) [])"
    and "st_crc (rentry s x) = hashes env (hashed_of s f)"
    and "\<exists>m. st_block_total (rentry s x) = of_nat m \<and> m + behind env s f = length (log_of s f)"
    and "rw_label s (st_fd (rentry s x)) = Some f" and "st_read_limit (rentry s x) = 0"
proof -
  have "fs_inv (rw_io s)" and o: "open_inv env s x" and "closed_inv env s f"
    using assms(1) unfolding rw_inv_def by blast+
  then show nz: "st_state (rentry s x) \<noteq> 0" and "rw_closed s f = None"
    using fs_inv_file_no_state [OF _ assms(3,2)] assms(2)
    by (blast, cases "rw_closed s f") (auto simp: closed_inv_def)
  show "f \<in> rw_used s" "holds_data (rw_fs s) (st_fd (rentry s x)) (write_blocks (re_sparse env) (log_of s f) [])"
    "st_crc (rentry s x) = hashes env (hashed_of s f)"
    "\<exists>m. st_block_total (rentry s x) = of_nat m \<and> m + behind env s f = length (log_of s f)"
    "rw_label s (st_fd (rentry s x)) = Some f" "st_read_limit (rentry s x) = 0"
    using o nz by (simp_all add: open_inv_def assms(2) Let_def)
qed

lemmas rw_inv_defs = rw_inv_def flow_inv_def closed_inv_def open_inv_def pend_inv_def worker_inv_def cur_inv_def
  in_work_def ahead_def behind_def unread_def log_of_def hashed_of_def

lemma rw_inv_dead: "rw_inv env (s\<lparr>rw_dead := v\<rparr>) = rw_inv env s"
  by (simp add: rw_inv_defs)

text \<open>A step in which a worker only looks.\<close>

lemma step_look:
  assumes "rw_inv env s" and "i < re_threads env"
    and pc: "\<And>g. unwritten g pc = unwritten g (rw_wk s i)" "\<And>g. hashed_only g pc = hashed_only g (rw_wk s i)"
      "\<And>g. uncounted g pc = uncounted g (rw_wk s i)"
    and "worker_inv s pc cur"
  shows "rw_inv env (rgoto i pc (s\<lparr>rw_cur := (rw_cur s)(i := cur)\<rparr>))" (is "rw_inv env ?s")
proof -
  have wk: "rw_wk ?s = (rw_wk s)(i := pc)"
    by simp
  have same: "in_work env ?s g = in_work env s g" "ahead env ?s g = ahead env s g" "behind env ?s g = behind env s g" for g
    using in_work_upd [OF assms(2) wk, of g] ahead_upd [OF assms(2) wk, of g] behind_upd [OF assms(2) wk, of g] pc by simp_all
  have rest: "unread env ?s g = unread env s g" "log_of ?s g = log_of s g" "hashed_of ?s g = hashed_of s g" for g
    by (simp_all add: unread_def log_of_def hashed_of_def)
  have "flow_inv env ?s g = flow_inv env s g" "closed_inv env ?s g = closed_inv env s g" "open_inv env ?s y = open_inv env s y" for g y
    by (simp_all add: flow_inv_def closed_inv_def open_inv_def same rest)
  moreover have "pend_inv ?s = pend_inv s" "worker_inv ?s = worker_inv s"
    by (simp_all add: pend_inv_def worker_inv_def cur_inv_def fun_eq_iff)
  ultimately show ?thesis
    using assms(1,6) by (simp add: rw_inv_def)
qed

lemma worker_look:
  assumes "rw_inv env s" and "i < re_threads env" and "held (rw_wk s i) = Some b"
  shows "worker_inv s (Rx_wait b xs) (rw_cur s i)"
    and "\<lbrakk>st_file_no (rentry s x) = fb_file_no b; fd = st_fd (rentry s x)\<rbrakk> \<Longrightarrow>
      worker_inv s (Rx_mark b x fd xs) (rw_cur s i) \<and> worker_inv s (Rx_hash b) (fb_file_no b, x, fd)"
proof -
  have w: "cur_inv s (rw_cur s i)" and nz: "fb_file_no b \<noteq> 0"
    using assms by (auto simp: rw_inv_def worker_inv_def)
  then show "worker_inv s (Rx_wait b xs) (rw_cur s i)"
    by (simp add: worker_inv_def)
  assume x: "st_file_no (rentry s x) = fb_file_no b" "fd = st_fd (rentry s x)"
  then have "cur_inv s (fb_file_no b, x, fd)"
    using open_slot(3) [OF assms(1) x(1) nz] by (simp add: cur_inv_def)
  then show "worker_inv s (Rx_mark b x fd xs) (rw_cur s i) \<and> worker_inv s (Rx_hash b) (fb_file_no b, x, fd)"
    using w nz by (simp add: worker_inv_def)
qed

lemma step_wait:
  assumes "rw_inv env s" and "i < re_threads env" and "rw_wk s i = Rx_wait b xs"
  shows "rw_inv env (file_wait i b xs s)"
proof -
  have b: "held (rw_wk s i) = Some b"
    by (simp add: assms(3))
  have wait: "rw_inv env (rgoto i (Rx_wait b ys) s)" for ys
    using step_look [OF assms(1,2) _ _ _ worker_look(1) [OF assms(1,2) b, of ys]] by (simp add: assms(3))
  show ?thesis
  proof (cases xs)
    case (Cons x ys)
    show ?thesis
    proof (cases "st_file_no (rentry s x) = fb_file_no b")
      case True
      note look = worker_look(2) [OF assms(1,2) b True refl, of ys]
      have "rw_inv env (rgoto i (Rx_mark b x (st_fd (rentry s x)) ys) s)"
        using step_look [OF assms(1,2) _ _ _ look [THEN conjunct1]] by (simp add: assms(3))
      moreover have "rw_inv env (rgoto i (Rx_hash b) (s\<lparr>rw_cur := (rw_cur s)(i := (fb_file_no b, x, st_fd (rentry s x)))\<rparr>))"
        using step_look [OF assms(1,2) _ _ _ look [THEN conjunct2]] by (simp add: assms(3))
      ultimately show ?thesis
        using wait True by (simp add: Cons Let_def)
    qed (use wait in \<open>simp add: Cons Let_def\<close>)
  qed (use wait in simp)
qed

lemma step_spurious:
  assumes "rw_inv env s" and "i < re_threads env" and "rw_wk s i = Rx_mark b x fd xs"
  shows "rw_inv env (rgoto i (Rx_wait b ys) s)"
  using step_look [OF assms(1,2) _ _ _ worker_look(1) [OF assms(1,2), of b ys]] by (simp add: assms(3))

lemma step_mark:
  assumes "rw_inv env s" and "i < re_threads env" and "rw_wk s i = Rx_mark b x fd xs"
  shows "rw_inv env (mark_file i b x fd xs s)"
proof (cases "st_state (rentry s x) = FS_INIT")
  case True
  let ?s = "mark_file i b x fd xs s" and ?f = "fb_file_no b" and ?e = "(rentry s x)\<lparr>st_state := FS_COMPLETE OR FS_IO\<rparr>"
  have "held (rw_wk s i) = Some b"
    by (simp add: assms(3))
  note h = held_not_closed [OF assms(1,2) this]
  have "cur_inv s (?f, x, fd)"
    using assms by (auto simp: rw_inv_def worker_inv_def)
  then have x: "st_file_no (rentry s x) = ?f" "st_fd (rentry s x) = fd"
    using h by (auto simp: cur_inv_def)
  note o = open_slot [OF assms(1) x(1) h(2)]
  have fields: "rw_wk ?s = (rw_wk s)(i := Rx_hash b)" "fs_tab (rw_io ?s) = (fs_tab (rw_io s))(x := ?e)"
    "rw_cur ?s = (rw_cur s)(i := (?f, x, st_fd ?e))" "rw_fs ?s = rw_fs s" "rw_label ?s = rw_label s"
    "rw_used ?s = rw_used s" "rw_in ?s = rw_in s"
    "rw_hashed ?s = rw_hashed s" "rw_log ?s = rw_log s" "rw_closed ?s = rw_closed s"
    by (simp_all add: mark_file_def True x(2))
  note sums = in_work_upd [OF assms(2) fields(1)] ahead_upd [OF assms(2) fields(1)] behind_upd [OF assms(2) fields(1)]
  have same: "in_work env ?s g = in_work env s g" "ahead env ?s g = ahead env s g" "behind env ?s g = behind env s g"
    "unread env ?s g = unread env s g" "log_of ?s g = log_of s g" "hashed_of ?s g = hashed_of s g" for g
    using sums [of g] assms(3)
    by (simp_all add: unread_same [OF fields(7)] log_of_same [OF fields(9)] hashed_of_same [OF fields(8)])
  show ?thesis
  proof (rule entry_frame [OF assms(1) o(2) h(2) x(1) o(3) assms(2) fields(1,10,6,7,2)])
    show "flow_inv env ?s ?f"
      using assms(1) by (simp add: rw_inv_def flow_inv_def same fields)
    show "open_inv env ?s x"
      using o by (simp add: open_inv_def Let_def same fields x)
    show "fs_frame s ?s ?f"
      by (rule fs_frame_same) (simp_all add: fields)
  qed (use assms(3) x fields(3) in \<open>auto simp: same fields FS_COMPLETE_def FS_IO_def\<close>)
qed (use step_spurious [OF assms] in \<open>simp add: mark_file_def\<close>)

lemma hashes_snoc: "hashes env (bs @ [b]) = hashes env bs XOR (if re_do_hash env then re_hash env (fb_data b) else 0)"
proof -
  have "foldr (\<lambda>b a. h b XOR a) bs v = foldr (\<lambda>b a. h b XOR a) bs 0 XOR v" for h :: "file_block \<Rightarrow> u32" and v
    by (induction bs) (simp_all add: xor.assoc)
  from this [of _ "re_hash env (fb_data b)"] show ?thesis
    by (simp add: hashes_def)
qed

lemma step_hash:
  assumes "rw_inv env s" and "i < re_threads env" and "rw_wk s i = Rx_hash b"
  shows "rw_inv env (hash_block env i b s)"
proof -
  let ?s = "hash_block env i b s" and ?f = "fb_file_no b"
  obtain x where cur: "rw_cur s i = (?f, x, st_fd (rentry s x))" and x: "st_file_no (rentry s x) = ?f" and nz: "?f \<noteq> 0"
    by (rule on_file_open [OF assms(1,2)]) (use assms(3) in simp_all)
  note o = open_slot [OF assms(1) x nz]
  let ?e = "stat_update 0 0 (if re_do_hash env then re_hash env (fb_data b) else 0) (rentry s x)"
  have e: "st_fd ?e = st_fd (rentry s x)" "st_block_total ?e = st_block_total (rentry s x)"
    by (simp_all add: stat_update_def)
  have fields: "rw_wk ?s = (rw_wk s)(i := Rx_write b)" "fs_tab (rw_io ?s) = (fs_tab (rw_io s))(x := ?e)"
    "rw_cur ?s = (rw_cur s)(i := (?f, x, st_fd ?e))" "rw_fs ?s = rw_fs s" "rw_label ?s = rw_label s" "rw_used ?s = rw_used s" "rw_in ?s = rw_in s"
    "rw_hashed ?s = rw_hashed s @ [b]" "rw_log ?s = rw_log s" "rw_closed ?s = rw_closed s"
    by (simp_all add: hash_block_def cur e(1) fun_upd_idem)
  note sums = in_work_upd [OF assms(2) fields(1)] ahead_upd [OF assms(2) fields(1)] behind_upd [OF assms(2) fields(1)]
  have same: "in_work env ?s g = in_work env s g" "behind env ?s g = behind env s g"
    "unread env ?s g = unread env s g" "log_of ?s g = log_of s g"
    "ahead env ?s g = ahead env s g + (if ?f = g then {#b#} else {#})" for g
    using sums [of g] assms(3) by (simp_all add: unread_same [OF fields(7)] log_of_same [OF fields(9)])
  have hashed: "hashed_of ?s g = hashed_of s g @ (if ?f = g then [b] else [])" for g
    by (simp add: hashed_of_def fields(8))
  have flow: "flow_inv env s ?f"
    using assms(1) by (simp add: rw_inv_def)
  show ?thesis
  proof (rule entry_frame [OF assms(1) o(2) nz x o(3) assms(2) fields(1,10,6,7,2)])
    show "flow_inv env ?s ?f"
      using flow o(3) by (simp add: flow_inv_def same fields(6) hashed)
    show "open_inv env ?s x"
      using o by (simp add: open_inv_def Let_def same fields(2,4,5,6) x hashed hashes_snoc e) (simp add: stat_update_def)
    show "fs_frame s ?s ?f"
      by (rule fs_frame_same) (simp_all add: fields)
  qed (use assms(3) o(1) x fields(3) e(1) in \<open>simp_all add: same hashed\<close>)
qed

lemma pwrite_holds:
  assumes "holds_data v fd c" and "fv_node v fd = Some n"
  shows "holds_data (fv_pwrite fd n off buf k v) fd (pwrite off buf c)"
  using assms by (auto simp: holds_data_def fv_pwrite_def fv_change_def Let_def)

lemma pwrite_frame:
  assumes "rw_label s fd = Some f" and "fv_node (rw_fs s) fd = Some n" and "rw_label s' = rw_label s"
    and "rw_fs s' = fv_pwrite fd n off buf k (rw_fs s)"
  shows "fs_frame s s' f"
  using assms by (auto simp: fs_frame_def fv_pwrite_def fv_change_def Let_def)

lemma step_write:
  assumes "rw_inv env s" and "i < re_threads env" and "rw_wk s i = Rx_write b"
  shows "rw_inv env (rx_write env i junk k b s)"
proof -
  let ?s = "rx_write env i junk k b s" and ?f = "fb_file_no b" and ?buf = "padded junk (fb_data b)"
  let ?skip = "re_sparse env \<and> memcmp_zero ?buf"
  let ?sz = "if ?skip then length ?buf else min k (length ?buf)"
  obtain x where cur: "rw_cur s i = (?f, x, st_fd (rentry s x))" and x: "st_file_no (rentry s x) = ?f" and nz: "?f \<noteq> 0"
    by (rule on_file_open [OF assms(1,2)]) (use assms(3) in simp_all)
  note o = open_slot [OF assms(1) x nz]
  let ?fd = "st_fd (rentry s x)" and ?c = "write_blocks (re_sparse env) (log_of s ?f) []"
  obtain n where n: "fv_node (rw_fs s) ?fd = Some n"
    using o(4) by (auto simp: holds_data_def)
  show ?thesis
  proof (cases "?sz = 0")
    case True
    then show ?thesis
      using assms(1) by (simp add: rx_write_def cur Let_def rw_inv_dead)
  next
    case False
    let ?v = "if ?skip then rw_fs s else fv_pwrite ?fd n (unat (fb_offset b)) ?buf k (rw_fs s)"
    have fields: "rw_wk ?s = (rw_wk s)(i := Rx_count b ?sz)" "fs_tab (rw_io ?s) = (fs_tab (rw_io s))(x := rentry s x)"
      "rw_cur ?s = (rw_cur s)(i := (?f, x, ?fd))" "rw_fs ?s = ?v" "rw_label ?s = rw_label s"
      "rw_used ?s = rw_used s" "rw_in ?s = rw_in s"
      "rw_hashed ?s = rw_hashed s" "rw_log ?s = rw_log s @ [(junk, b)]" "rw_closed ?s = rw_closed s"
      using False by (auto simp: rx_write_def cur n Let_def fun_upd_idem)
    note sums = in_work_upd [OF assms(2) fields(1)] ahead_upd [OF assms(2) fields(1)] behind_upd [OF assms(2) fields(1)]
    have same: "in_work env s g = in_work env ?s g + (if ?f = g then {#b#} else {#})"
      "ahead env s g = ahead env ?s g + (if ?f = g then {#b#} else {#})"
      "behind env ?s g = behind env s g + (if ?f = g then 1 else 0)"
      "unread env ?s g = unread env s g" "hashed_of ?s g = hashed_of s g" for g
      using sums [of g] assms(3) by (simp_all add: unread_same [OF fields(7)] hashed_of_same [OF fields(8)])
    have log: "log_of ?s g = log_of s g @ (if ?f = g then [(junk, b)] else [])" for g
      by (simp add: log_of_def fields(9))
    have holds: "holds_data ?v ?fd (write_block (re_sparse env) junk b ?c)"
      using o(4) pwrite_holds [OF o(4) n] by (auto simp: write_block_def posix_write_def)
    have flow: "flow_inv env s ?f"
      using assms(1) by (simp add: rw_inv_def)
    show ?thesis
    proof (rule entry_frame [OF assms(1) o(2) nz x o(3) assms(2) fields(1,10,6,7,2)])
      show "flow_inv env ?s ?f"
        using flow o(3) by (simp add: flow_inv_def same(1,2,4,5) fields(6) log)
      show "open_inv env ?s x"
        using o(3,5-) holds by (simp add: open_inv_def Let_def same(3,5) fields(2,4,5,6) x log write_blocks_append)
      show "fs_frame s ?s ?f"
        using fs_frame_same [OF fields(4) [THEN trans] fields(5)] pwrite_frame [OF o(7) n fields(5,4) [THEN trans]]
        by (cases ?skip) simp_all
    qed (use assms(3) o(1) x fields(3) in \<open>simp_all add: same(5) log\<close>)
  qed
qed

lemma step_count:
  assumes "rw_inv env s" and "i < re_threads env" and "rw_wk s i = Rx_count b sz"
  shows "rw_inv env (count_block i b sz s)"
proof -
  let ?s = "count_block i b sz s" and ?f = "fb_file_no b"
  obtain x where cur: "rw_cur s i = (?f, x, st_fd (rentry s x))" and x: "st_file_no (rentry s x) = ?f" and nz: "?f \<noteq> 0"
    by (rule on_file_open [OF assms(1,2)]) (use assms(3) in simp_all)
  note o = open_slot [OF assms(1) x nz]
  let ?e = "stat_update 1 (of_nat sz) 0 (rentry s x)"
  have e: "st_fd ?e = st_fd (rentry s x)" "st_crc ?e = st_crc (rentry s x)"
    "st_block_total ?e = st_block_total (rentry s x) + 1" "st_read_limit ?e = st_read_limit (rentry s x)"
    by (simp_all add: stat_update_def)
  have fields: "rw_wk ?s = (rw_wk s)(i := Rx_recv)" "fs_tab (rw_io ?s) = (fs_tab (rw_io s))(x := ?e)"
    "rw_cur ?s = (rw_cur s)(i := (?f, x, st_fd ?e))" "rw_fs ?s = rw_fs s" "rw_label ?s = rw_label s" "rw_used ?s = rw_used s" "rw_in ?s = rw_in s"
    "rw_hashed ?s = rw_hashed s" "rw_log ?s = rw_log s" "rw_closed ?s = rw_closed s"
    by (simp_all add: count_block_def cur e(1) fun_upd_idem)
  note sums = in_work_upd [OF assms(2) fields(1)] ahead_upd [OF assms(2) fields(1)] behind_upd [OF assms(2) fields(1)]
  have same: "in_work env ?s g = in_work env s g" "ahead env ?s g = ahead env s g"
    "behind env s g = behind env ?s g + (if ?f = g then 1 else 0)"
    "unread env ?s g = unread env s g" "log_of ?s g = log_of s g" "hashed_of ?s g = hashed_of s g" for g
    using sums [of g] assms(3)
    by (simp_all add: unread_same [OF fields(7)] log_of_same [OF fields(9)] hashed_of_same [OF fields(8)])
  have flow: "flow_inv env s ?f"
    using assms(1) by (simp add: rw_inv_def)
  obtain m where m: "st_block_total (rentry s x) = of_nat m" "m + behind env s ?f = length (log_of s ?f)"
    using o(6) by blast
  then have "st_block_total ?e = of_nat (Suc m)" "Suc m + behind env ?s ?f = length (log_of s ?f)"
    using same(3) [of ?f] by (simp_all add: e(3))
  then have total: "\<exists>m. st_block_total ?e = of_nat m \<and> m + behind env ?s ?f = length (log_of s ?f)"
    by blast
  show ?thesis
  proof (rule entry_frame [OF assms(1) o(2) nz x o(3) assms(2) fields(1,10,6,7,2)])
    show "flow_inv env ?s ?f"
      using flow o(3) by (simp add: flow_inv_def same(1,2,4-) fields(6))
    show "open_inv env ?s x"
      using o(3-5,7,8) total by (simp add: open_inv_def Let_def same(4-) fields(2,4,5,6) x e(1,2,4))
    show "fs_frame s ?s ?f"
      by (rule fs_frame_same) (simp_all add: fields)
  qed (use assms(3) o(1) x fields(3) e(1) in \<open>simp_all add: same(4-)\<close>)
qed

subsection \<open>Opening and closing\<close>

lemma used_file:
  assumes "rw_inv env s" and "f \<notin> rw_used s" and "f \<noteq> 0"
  shows "st_file_no (rentry s y) \<noteq> f" and "log_of s f = []" and "hashed_of s f = []" and "behind env s f = 0"
    and "rw_closed s f = None"
proof -
  show "st_file_no (rentry s y) \<noteq> f"
    using open_slot(3) [OF assms(1) _ assms(3)] assms(2) by blast
  have "flow_inv env s f"
    using assms(1) by (simp add: rw_inv_def)
  then show "log_of s f = []" "hashed_of s f = []" "behind env s f = 0" "rw_closed s f = None"
    using assms(2) by (simp_all add: flow_inv_def)
qed

lemma step_other:
  assumes "rw_inv env s" and "fv_same (rw_fs s) v"
  shows "rw_inv env (s\<lparr>rw_fs := v\<rparr>)"
proof -
  have "holds_data v fd c \<longleftrightarrow> holds_data (rw_fs s) fd c" for fd c
    using assms(2) by (auto simp: fv_same_def holds_data_def)
  then show ?thesis
    using assms by (simp add: rw_inv_defs fv_same_def)
qed

lemma open_holds:
  assumes "fv_node v fd = None" and "holds_data v fd' c"
  shows "holds_data (fv_open fd n v) fd' c"
  using assms by (auto simp: holds_data_def fv_open_def fv_change_def Let_def)

lemma step_open:
  assumes "rw_inv env s" and fd: "fv_node (rw_fs s) fd = None"
  shows "rw_inv env (open_file f fd n s)"
proof -
  let ?s = "open_file f fd n s"
  have fields: "rw_io ?s = rw_io s" "rw_fs ?s = fv_open fd n (rw_fs s)" "rw_label ?s = (rw_label s)(fd \<mapsto> f)"
    "rw_used ?s = rw_used s" "rw_in ?s = rw_in s" "rw_wk ?s = rw_wk s" "rw_cur ?s = rw_cur s"
    "rw_hashed ?s = rw_hashed s" "rw_log ?s = rw_log s" "rw_closed ?s = rw_closed s"
    by (simp_all add: open_file_def)
  have same: "in_work env ?s g = in_work env s g" "ahead env ?s g = ahead env s g" "behind env ?s g = behind env s g"
    "unread env ?s g = unread env s g" "log_of ?s g = log_of s g" "hashed_of ?s g = hashed_of s g" for g
    by (simp_all add: in_work_def ahead_def behind_def unread_def log_of_def hashed_of_def fields)
  have parts: "flow_inv env s g" "closed_inv env s g" "open_inv env s y" "pend_inv s" for g y
    using assms(1) by (simp_all add: rw_inv_def)
  have other: "fd' \<noteq> fd" if "holds_data (rw_fs s) fd' c" for fd' c
    using that fd by (auto simp: holds_data_def)
  have "flow_inv env ?s g" "closed_inv env ?s g" for g
    using parts(1,2) [of g] by (simp_all add: flow_inv_def closed_inv_def same fields)
  moreover have "open_inv env ?s y" for y
    using parts(3) [of y] other open_holds [OF fd] by (auto simp: open_inv_def Let_def same fields)
  moreover have "holds_data (fv_open fd n (rw_fs s)) fd []"
    by (simp add: holds_data_def fv_open_def fv_change_def Let_def)
  then have "pend_inv ?s"
    using parts(4) open_holds [OF fd] by (auto simp: pend_inv_def fields) (auto simp: fv_open_def fv_change_def Let_def)
  moreover have "worker_inv ?s = worker_inv s"
    by (simp add: worker_inv_def cur_inv_def fields fun_eq_iff)
  ultimately show ?thesis
    using assms(1) by (simp add: rw_inv_def fields)
qed

lemma step_enter:
  assumes "rw_inv env s" and "enter_ok f fd s"
  shows "rw_inv env (enter_opened f fd s)"
proof (cases "file_addfile f fd 0 0 (rw_io s)")
  case (Pair r io)
  let ?s = "enter_opened f fd s"
  have ok: "f \<noteq> 0" "f \<notin> rw_used s" "rw_label s fd = Some f" "fv_node (rw_fs s) fd \<noteq> None"
    using assms(2) by (simp_all add: enter_ok_def)
  show ?thesis
  proof (cases r)
    case None
    then show ?thesis
      using assms(1) Pair by (simp add: enter_opened_def)
  next
    case (Some x)
    note D = addfile_SomeD [OF Pair [unfolded Some]]
    note fresh = used_file [OF assms(1) ok(2,1)]
    have fields: "rw_io ?s = io" "rw_fs ?s = rw_fs s" "rw_label ?s = rw_label s" "rw_used ?s = insert f (rw_used s)"
      "rw_in ?s = rw_in s" "rw_wk ?s = rw_wk s" "rw_cur ?s = rw_cur s" "rw_hashed ?s = rw_hashed s" "rw_log ?s = rw_log s"
      "rw_closed ?s = rw_closed s"
      using Pair Some by (simp_all add: enter_opened_def)
    have same: "in_work env ?s g = in_work env s g" "ahead env ?s g = ahead env s g" "behind env ?s g = behind env s g"
      "unread env ?s g = unread env s g" "log_of ?s g = log_of s g" "hashed_of ?s g = hashed_of s g" for g
      by (simp_all add: in_work_def ahead_def behind_def unread_def log_of_def hashed_of_def fields)
    have parts: "fs_inv (rw_io s)" "flow_inv env s g" "closed_inv env s g" "open_inv env s y" "pend_inv s" for g y
      using assms(1) by (simp_all add: rw_inv_def)
    have free: "rentry s x = stat_zero"
      using parts(1) D(2) by (simp add: fs_inv_def)
    have data: "holds_data (rw_fs s) fd []"
      using parts(5) ok by (simp add: pend_inv_def)
    have "fs_inv io"
      by (rule fs_inv_addfile [OF parts(1) ok(1) _ Pair [unfolded Some]]) (simp add: fresh)
    moreover have "flow_inv env ?s g" for g
      using parts(2) [of g] by (auto simp: flow_inv_def same fields)
    moreover have "closed_inv env ?s g" for g
      using parts(3) [of g] fresh(5) by (auto simp: closed_inv_def same fields D(3))
    moreover have "open_inv env ?s y" for y
      using parts(4) [of y] ok(3) fresh data by (auto simp: open_inv_def Let_def same fields D(3) hashes_def stat_zero_def)
    moreover have "pend_inv ?s"
      using parts(5) by (simp add: pend_inv_def fields)
    moreover have "cur_inv ?s p" if "cur_inv s p" for p
      using that free by (cases p) (auto simp: cur_inv_def fields D(3))
    ultimately show ?thesis
      using assms(1) by (simp add: rw_inv_def worker_inv_def fields)
  qed
qed

lemma ahead_in_work: "ahead env s f \<subseteq># in_work env s f"
proof -
  have "hashed_only f pc \<subseteq># unwritten f pc" for pc
    by (cases pc) simp_all
  then have "(\<Sum>i<n. hashed_only f (rw_wk s i)) \<subseteq># (\<Sum>i<n. unwritten f (rw_wk s i))" for n
    by (induction n) (simp_all add: subset_mset.add_mono)
  then show ?thesis
    by (simp add: ahead_def in_work_def)
qed

lemma block_count_le: "0 < B \<Longrightarrow> block_count B n \<le> n"
  using block_count_less_iff [of B n n] by simp

text \<open>When the count has reached the number of blocks, all of them are hashed and written.\<close>

lemma counted_complete:
  assumes "rw_inv env s" and "plan_ok env" and "re_plan env f = Some c" and "f \<noteq> 0" and "st_file_no (rentry s x) = f"
    and "int (block_count (re_block env) (length c)) \<le> u64_as_i64 (st_block_total (rentry s x))"
  shows "in_work env s f = {#}" and "unread env s f = {#}" and "behind env s f = 0"
    and "mset (map snd (log_of s f)) = mset (file_blocks (re_block env) f c)"
    and "mset (hashed_of s f) = mset (file_blocks (re_block env) f c)"
proof -
  let ?n = "block_count (re_block env) (length c)"
  have ok: "0 < re_block env" "length c < 2 ^ 63" "stream_of env f = mset (file_blocks (re_block env) f c)"
    using assms(2,3) by (auto simp: plan_ok_def)
  have flow: "mset (map snd (log_of s f)) + in_work env s f + unread env s f = mset (file_blocks (re_block env) f c)"
    "mset (hashed_of s f) = mset (map snd (log_of s f)) + ahead env s f"
    using assms(1) ok(3) by (simp_all add: rw_inv_def flow_inv_def)
  obtain m where m: "st_block_total (rentry s x) = of_nat m" "m + behind env s f = length (log_of s f)"
    using open_slot(6) [OF assms(1,5,4)] by blast
  from arg_cong [OF flow(1), of size]
  have sz: "length (log_of s f) + size (in_work env s f) + size (unread env s f) = ?n"
    by (simp add: file_blocks_def)
  then have "m < 2 ^ 63"
    using m(2) block_count_le [OF ok(1), of "length c"] ok(2) by linarith
  then have "u64_as_i64 (st_block_total (rentry s x)) = int m"
    by (simp add: m(1) u64_as_i64_of_nat)
  then have "?n \<le> m"
    using assms(6) by simp
  then have "size (in_work env s f) = 0 \<and> size (unread env s f) = 0 \<and> behind env s f = 0"
    using sz m(2) by linarith
  then show none: "in_work env s f = {#}" "unread env s f = {#}" "behind env s f = 0"
    by simp_all
  show "mset (map snd (log_of s f)) = mset (file_blocks (re_block env) f c)"
    using flow(1) none by simp
  then show "mset (hashed_of s f) = mset (file_blocks (re_block env) f c)"
    using flow(2) ahead_in_work [of env s f] none by simp
qed

lemma hashes_perm: "mset bs = mset cs \<Longrightarrow> hashes env bs = hashes env cs"
  using xor_fold_perm [of bs cs "\<lambda>b. re_hash env (fb_data b)" 0] by (simp add: hashes_def)

lemma close_fields:
  assumes "re_told env f = Some (blocks, sz)" and "file_getstats f (rw_io s) = Some x" and "0 \<le> blocks"
    and "blocks \<le> u64_as_i64 (st_block_total (rentry s x))" and "fv_node (rw_fs s) (st_fd (rentry s x)) = Some n"
  shows "close_counted env f s =
    s\<lparr>rw_fs := fv_close (st_fd (rentry s x)) (fv_truncate (st_fd (rentry s x)) sz (rw_fs s)),
      rw_label := (rw_label s)(st_fd (rentry s x) := None),
      rw_io := file_incrementtail (memset_slot x (rw_io s)),
      rw_closed := (rw_closed s)(f \<mapsto>
        \<lparr>cl_data = fv_data (fv_truncate (st_fd (rentry s x)) sz (rw_fs s)) n, cl_crc = rust_crc (rentry s x),
         cl_sum = st_crc (rentry s x), cl_sole = (\<not> fv_spoilt (rw_fs s) (st_fd (rentry s x)))\<rparr>)\<rparr>"
  using assms by (simp add: close_counted_def Let_def)

lemma close_holds:
  assumes "holds_data v fd' c" and "fd' \<noteq> fd"
  shows "holds_data (fv_close fd (fv_truncate fd sz v)) fd' c"
  using assms by (auto simp: holds_data_def fv_close_def fv_truncate_def fv_change_def split: option.splits)

lemma step_close_file:
  assumes "rw_inv env s" and "plan_ok env" and "f \<noteq> 0"
  shows "rw_inv env (close_counted env f s)"
proof (cases "close_counted env f s = s")
  case False
  let ?s = "close_counted env f s"
  obtain blocks sz x where told: "re_told env f = Some (blocks, sz)" and x: "file_getstats f (rw_io s) = Some x"
    using False by (auto simp: close_counted_def split: option.splits)
  obtain c where c: "re_plan env f = Some c" "blocks = int (block_count (re_block env) (length c))" "sz = int (length c)"
    using assms(2) told unfolding plan_ok_def by blast
  let ?e = "rentry s x"
  have io: "fs_inv (rw_io s)"
    using assms(1) by (simp add: rw_inv_def)
  have xf: "st_file_no ?e = f"
    using x getstats_iff [OF io assms(3)] by simp
  note o = open_slot [OF assms(1) xf assms(3)]
  obtain n where n: "fv_node (rw_fs s) (st_fd ?e) = Some n"
    "\<not> fv_spoilt (rw_fs s) (st_fd ?e) \<Longrightarrow> fv_data (rw_fs s) n = write_blocks (re_sparse env) (log_of s f) []"
    using o(4) by (auto simp: holds_data_def)
  have cnt: "blocks \<le> u64_as_i64 (st_block_total ?e)"
    using False by (rule_tac ccontr) (simp add: close_counted_def told x Let_def)
  note full = counted_complete [OF assms(1,2) c(1) assms(3) xf cnt [unfolded c(2)]]
  have "0 \<le> blocks"
    by (simp add: c(2))
  note s' = close_fields [OF told x this cnt n(1)]
  obtain k where closed: "rw_closed ?s = (rw_closed s)(f \<mapsto> k)" and "k = the (rw_closed ?s f)"
    by (simp add: s')
  then have k: "cl_crc k = 0" "cl_sum k = hashes env (hashed_of s f)"
    "cl_sole k \<Longrightarrow> cl_data k = ftruncate (length c) (write_blocks (re_sparse env) (log_of s f) [])"
    using n o(5,8) c(3) by (simp_all add: s' rust_crc_eq fv_truncate_def fv_change_def)
  have fields: "rw_fs ?s = fv_close (st_fd ?e) (fv_truncate (st_fd ?e) sz (rw_fs s))" "rw_label ?s = (rw_label s)(st_fd ?e := None)"
    "rw_used ?s = rw_used s" "rw_in ?s = rw_in s" "rw_wk ?s = rw_wk s" "rw_cur ?s = rw_cur s" "rw_hashed ?s = rw_hashed s"
    "rw_log ?s = rw_log s"
    by (simp_all add: s')
  have tab: "fs_tab (rw_io ?s) = (fs_tab (rw_io s))(x := stat_zero)"
    by (simp add: s' file_incrementtail_def memset_slot_def)
  have same: "in_work env ?s g = in_work env s g" "ahead env ?s g = ahead env s g" "behind env ?s g = behind env s g"
    "unread env ?s g = unread env s g" "log_of ?s g = log_of s g" "hashed_of ?s g = hashed_of s g" for g
    by (simp_all add: in_work_def ahead_def behind_def unread_def log_of_def hashed_of_def fields)
  have parts: "flow_inv env s g" "closed_inv env s g" "open_inv env s y" "pend_inv s" for g y
    using assms(1) by (simp_all add: rw_inv_def)
  have uniq: "y = x" if "st_file_no (rentry s y) = f" for y
    using used_slot_unique [OF io, of y x] that xf o(1) by simp
  have "ftruncate (length c) (write_blocks (re_sparse env) (log_of s f) []) = c"
    by (rule write_blocks_restore [of "re_block env"])
      (use assms(2) c full(4) mset_eq_setD [OF full(4)] in \<open>auto simp: plan_ok_def\<close>)
  then have "closed_inv env ?s f"
    using full k uniq assms(3) hashes_perm [OF full(5)] by (simp add: closed_inv_def same closed tab c) blast
  moreover have "closed_inv env ?s g" if "g \<noteq> f" for g
    using parts(2) [of g] that by (auto simp: closed_inv_def same closed tab)
  ultimately have "closed_inv env ?s g" for g
    by (cases "g = f") simp_all
  moreover have "fs_inv (rw_io ?s)"
    using fs_inv_memset [OF io, of x] by (rule fs_inv_cong [THEN iffD1, rotated]) (simp add: tab memset_slot_def)
  moreover have "flow_inv env ?s g" for g
    using parts(1) [of g] o(3) by (auto simp: flow_inv_def same fields(3) closed)
  moreover have "open_inv env ?s y" for y
    using parts(3) [of y] uniq [of y] o(7) close_holds [of "rw_fs s" "st_fd (rentry s y)" _ "st_fd ?e" sz]
    by (auto simp: open_inv_def Let_def same fields(1-3) tab)
  moreover have "pend_inv ?s"
    using parts(4) close_holds [of "rw_fs s" _ "[]" "st_fd ?e" sz]
    by (auto simp: pend_inv_def fields(1-3)) (auto simp: fv_close_def fv_truncate_def fv_change_def split: option.splits if_splits)
  moreover have "cur_inv ?s p" if "cur_inv s p" for p
    using that xf by (cases p) (auto simp: cur_inv_def fields(3) closed tab)
  ultimately show ?thesis
    using assms(1) by (simp add: rw_inv_def worker_inv_def fields(4-6))
qed (use assms(1) in simp)

section \<open>Files are restored\<close>

lemma rw_inv_init: "plan_ok env \<Longrightarrow> rw_inv env (rw_init env v)"
  by (simp add: rw_inv_defs rw_init_def stream_of_def file_io_init_def plan_ok_def fs_inv_def)

lemma rworker_step_inv:
  assumes "rw_inv env s" and "i < re_threads env" and "rw_wk s i = pc"
  shows "rw_inv env (rworker_step env i junk k s pc)"
  using assms by (cases pc) (simp_all add: step_recv step_wait step_mark step_hash step_write step_count)

lemma rw_step_inv: "rw_step env s s' \<Longrightarrow> plan_ok env \<Longrightarrow> rw_inv env s \<Longrightarrow> rw_inv env s'"
  by (induction rule: rw_step.induct)
    (simp_all add: rworker_step_inv step_spurious rw_inv_dead step_open step_enter step_close_file step_other)

interpretation write_run: step_system "\<lambda>s. \<exists>v. s = rw_init env v" "rw_step env" "\<lambda>s. plan_ok env \<longrightarrow> rw_inv env s"
  by unfold_locales (auto simp: rw_inv_init intro: rw_step_inv)

lemma rw_reach_inv: "rw_reach env s \<Longrightarrow> plan_ok env \<Longrightarrow> rw_inv env s"
  unfolding rw_reach_def by (drule write_run.reachable_inv) simp

text \<open>
  What makes a file spoilt: a short write to it, or a change of the file behind it through another
  descriptor. So when every open finds a file that no other descriptor refers to and every write
  is complete, no file is.
\<close>

lemma spoilt_sources:
  assumes "fv_spoilt (rw_fs (rworker_step env i junk k s pc)) fd" and "\<not> fv_spoilt (rw_fs s) fd"
  shows "\<exists>b n. pc = Rx_write b \<and> fv_node (rw_fs s) (snd (snd (rw_cur s i))) = Some n \<and>
    (fd = snd (snd (rw_cur s i)) \<and> k < length (padded junk (fb_data b)) \<or>
     fd \<noteq> snd (snd (rw_cur s i)) \<and> fv_node (rw_fs s) fd = Some n)"
proof (cases pc)
  case (Rx_write b)
  then show ?thesis
    using assms by (cases "rw_cur s i")
      (auto simp: rx_write_def fv_pwrite_def fv_change_def Let_def split: if_splits option.splits)
next
  case (Rx_wait b xs)
  then show ?thesis
    using assms by (cases xs) (auto simp: Let_def split: if_splits)
qed (use assms in \<open>auto simp: recv_block_def mark_file_def hash_block_def count_block_def Let_def
    split: list.splits if_splits prod.splits\<close>)

lemma open_spoils:
  "fv_spoilt (rw_fs (open_file f fd n s)) fd' \<longleftrightarrow>
     fd' \<noteq> fd \<and> (fv_spoilt (rw_fs s) fd' \<or> fv_node (rw_fs s) fd' = Some n)"
  by (auto simp: open_file_def fv_open_def fv_change_def Let_def)


lemma idle_sums:
  assumes "\<And>i. i < re_threads env \<Longrightarrow> rw_wk s i = Rx_recv \<and> rw_in s i = []"
  shows "in_work env s f = {#}" and "unread env s f = {#}" and "behind env s f = 0"
  using assms by (simp_all add: in_work_def unread_def behind_def)

text \<open>
  Claim C30. No count is lost: once the workers have taken every block and are back at the
  start of their loops, closing a reported file that is open and whose size and number of blocks were told succeeds,
  whatever order the workers ran in: it leaves the table and its descriptor is closed, the workers have
  accumulated the checksum of the sender's contents, and unless the file was written short or changed
  through another descriptor, its contents are those.
\<close>

theorem drained_file_closes:
  assumes "plan_ok env" and "rw_reach env s" and "f \<noteq> 0" and "re_told env f = Some (blocks, sz)"
    and x: "file_getstats f (rw_io s) = Some x"
    and "\<And>i. i < re_threads env \<Longrightarrow> rw_wk s i = Rx_recv \<and> rw_in s i = []"
  shows "\<exists>c k. re_plan env f = Some c \<and> rw_closed (close_counted env f s) f = Some k \<and>
    cl_sum k = hashes env (file_blocks (re_block env) f c) \<and>
    (\<not> fv_spoilt (rw_fs s) (st_fd (rentry s x)) \<longrightarrow> cl_data k = c) \<and>
    file_getstats f (rw_io (close_counted env f s)) = None \<and>
    fv_node (rw_fs (close_counted env f s)) (st_fd (rentry s x)) = None"
proof -
  obtain c where c: "re_plan env f = Some c" "blocks = int (block_count (re_block env) (length c))" "sz = int (length c)"
    using assms(1,4) unfolding plan_ok_def by blast
  have inv: "rw_inv env s"
    by (rule rw_reach_inv [OF assms(2,1)])
  then have io: "fs_inv (rw_io s)" and "flow_inv env s f"
    by (simp_all add: rw_inv_def)
  then have log: "mset (map snd (log_of s f)) = mset (file_blocks (re_block env) f c)"
    using assms(1) c(1) idle_sums [OF assms(6), where f = f] by (simp add: flow_inv_def plan_ok_def)
  have xf: "st_file_no (rentry s x) = f"
    using x getstats_iff [OF io assms(3)] by simp
  note o = open_slot [OF inv xf assms(3)]
  from arg_cong [OF log, of size] have "st_block_total (rentry s x) = of_nat (block_count (re_block env) (length c))"
    using o(6) idle_sums(3) [OF assms(6), where f = f] by (auto simp: file_blocks_def)
  moreover have "block_count (re_block env) (length c) < 2 ^ 63"
    using assms(1) c(1) block_count_le [of "re_block env" "length c"] by (fastforce simp: plan_ok_def)
  ultimately have cnt: "blocks \<le> u64_as_i64 (st_block_total (rentry s x))"
    by (simp add: u64_as_i64_of_nat c(2))
  obtain n where n: "fv_node (rw_fs s) (st_fd (rentry s x)) = Some n"
    using o(4) by (auto simp: holds_data_def)
  have "0 \<le> blocks"
    by (simp add: c(2))
  note s' = close_fields [OF assms(4) x this cnt n]
  obtain k where k: "rw_closed (close_counted env f s) f = Some k"
    "cl_sole k = (\<not> fv_spoilt (rw_fs s) (st_fd (rentry s x)))"
    by (simp add: s')
  have "fv_node (rw_fs (close_counted env f s)) (st_fd (rentry s x)) = None"
    by (simp add: s' fv_close_def)
  moreover have inv': "rw_inv env (close_counted env f s)"
    by (rule step_close_file [OF inv assms(1,3)])
  then have c': "closed_inv env (close_counted env f s) f" and io': "fs_inv (rw_io (close_counted env f s))"
    by (simp_all add: rw_inv_def)
  ultimately show ?thesis
    using k c' c(1) getstats_None_iff [OF io' assms(3)] by (auto simp: closed_inv_def)
qed

end
