(* ===== verification/Write_Runs.thy ===== *)
theory Write_Runs
  imports Send_Runs Write_Workers
begin

text \<open>
  A complete run of the receiving workers: one worker, one file of one block. The system writes
  the block completely, or only a part of it.
\<close>

definition one_byte :: bytes where
  "one_byte = [7]"

definition first_block :: "bytes \<Rightarrow> file_block" where
  "first_block c = nth_block 4096 1 c 0"

definition demo_rw :: "bytes \<Rightarrow> rw_env" where
  "demo_rw c = \<lparr>re_block = 4096, re_threads = 1, re_sparse = False, re_do_hash = True,
     re_hash = (\<lambda>d. of_nat (length d)), re_stream = (\<lambda>_. [])(0 := [first_block c]), re_plan = [1 \<mapsto> c],
     re_told = [1 \<mapsto> (1, int (length c))]\<rparr>"

lemma first_block_simps [simp]: "fb_file_no (first_block c) = 1" "fb_offset (first_block c) = 0"
  "fb_data (first_block c) = take 4096 c"
  by (simp_all add: first_block_def nth_block_def pread_def)

lemma one_block_count: "c \<noteq> [] \<Longrightarrow> length c \<le> 4096 \<Longrightarrow> block_count 4096 (length c) = 1"
  by (cases c) (auto simp: block_count_def intro!: div_nat_eqI)

lemma first_blocks: "c \<noteq> [] \<Longrightarrow> length c \<le> 4096 \<Longrightarrow> file_blocks 4096 1 c = [first_block c]"
  using one_block_count [of c] by (simp add: file_blocks_def first_block_def)

text \<open>What the run needs of the environment.\<close>

definition one_block :: "rw_env \<Rightarrow> bytes \<Rightarrow> bool" where
  "one_block env c \<longleftrightarrow> plan_ok env \<and> 0 < re_threads env \<and> re_block env = 4096 \<and> \<not> re_sparse env \<and>
     re_stream env = (\<lambda>_. [])(0 := [first_block c]) \<and> re_plan env 1 = Some c \<and>
     re_told env 1 = Some (1, int (length c)) \<and> c \<noteq> [] \<and> length c \<le> 4096"

lemma demo_rw_one_block: "c \<noteq> [] \<Longrightarrow> length c \<le> 4096 \<Longrightarrow> one_block (demo_rw c) c"
  by (simp add: one_block_def plan_ok_def demo_rw_def stream_of_def first_blocks one_block_count lessThan_Suc)

definition demo_slot :: nat where
  "demo_slot = hd (probe_seq 1)"

lemma demo_probe: "\<exists>xs. probe_seq 1 = demo_slot # xs"
  using probe_seq_not_Nil [of 1] by (cases "probe_seq 1") (simp_all add: demo_slot_def)

definition demo_entry :: file_stat_type where
  "demo_entry = stat_zero\<lparr>st_state := FS_INIT, st_fd := 3, st_file_no := 1, st_position := demo_slot\<rparr>"

lemma demo_entry_simps [simp]: "st_file_no demo_entry = 1" "st_state demo_entry = FS_INIT" "st_fd demo_entry = 3"
  "st_block_total demo_entry = 0"
  by (simp_all add: demo_entry_def stat_zero_def)

definition no_files :: fd_view where
  "no_files = \<lparr>fv_node = Map.empty, fv_data = (\<lambda>_. []), fv_spoilt = (\<lambda>_. False)\<rparr>"

text \<open>The state before the file is closed: its only block is counted, of which \<open>k\<close> bytes at most were written.\<close>

definition drained :: "rw_env \<Rightarrow> bytes \<Rightarrow> nat \<Rightarrow> rw_state \<Rightarrow> bool" where
  "drained env c k s \<longleftrightarrow>
     rw_reach env s \<and> rw_wk s = (\<lambda>_. Rx_recv) \<and> rw_in s = (\<lambda>_. []) \<and> \<not> rw_dead s \<and>
     st_file_no (rentry s demo_slot) = 1 \<and> st_fd (rentry s demo_slot) = 3 \<and> fv_node (rw_fs s) 3 = Some 5 \<and>
     fv_data (rw_fs s) 5 = pwrite 0 (take k (padded [] c)) [] \<and> fv_spoilt (rw_fs s) 3 = (k < 4096)"

lemma reach_work:
  assumes "rw_reach env s" and "\<not> rw_dead s" and "rw_wk s i = pc" and "i < re_threads env"
  shows "rw_reach env (rworker_step env i junk k s pc)"
  using assms rw_work [of s i env junk k] unfolding rw_reach_def by (auto intro: reachable.reachable_step)

text \<open>The file is open and in the table.\<close>

definition demo_open :: "rw_env \<Rightarrow> rw_state" where
  "demo_open env = (rw_init env (fv_open 3 5 no_files))
     \<lparr>rw_io := file_io_init\<lparr>fs_tab := (\<lambda>_. stat_zero)(demo_slot := demo_entry), fs_count := 1\<rparr>,
      rw_label := [3 \<mapsto> 1], rw_used := {1}\<rparr>"

lemma demo_open_reach: "rw_reach env (demo_open env)"
proof -
  define s1 where "s1 = open_file 1 3 5 (rw_init env no_files)"
  have "rw_reach env (rw_init env no_files)"
    unfolding rw_reach_def by (rule reachable.reachable_start) blast
  moreover have "rw_step env (rw_init env no_files) s1"
    unfolding s1_def by (rule rw_open) (simp_all add: rw_init_def no_files_def)
  moreover have "rw_step env s1 (enter_opened 1 3 s1)"
    by (rule rw_enter) (simp_all add: s1_def open_file_def enter_ok_def rw_init_def fv_open_def Let_def)
  moreover have "file_addfile 1 3 0 0 file_io_init =
      (Some demo_slot, file_io_init\<lparr>fs_tab := (\<lambda>_. stat_zero)(demo_slot := demo_entry), fs_count := 1\<rparr>)"
    by (simp add: file_addfile_def file_io_init_def find_hd demo_slot_def demo_entry_def stat_zero_def)
  then have "enter_opened 1 3 s1 = demo_open env"
    by (simp add: enter_opened_def s1_def open_file_def demo_open_def rw_init_def)
  ultimately show ?thesis
    unfolding rw_reach_def by (metis reachable.reachable_step)
qed

lemma padded_one_block: "c \<noteq> [] \<Longrightarrow> length c \<le> 4096 \<Longrightarrow> length (padded junk c) = 4096"
proof -
  assume "c \<noteq> []" "length c \<le> 4096"
  then have "(length c + 4095) div 4096 = 1"
    using one_block_count [of c] by (simp add: block_count_def)
  then show ?thesis
    by (simp add: length_padded pad_size_def)
qed

lemma drained_ex:
  assumes "one_block env c" and "0 < k"
  shows "\<exists>s. drained env c k s"
proof -
  let ?x = "demo_slot" and ?b = "first_block c"
  have env: "re_stream env = (\<lambda>_. [])(0 := [?b])" "0 < re_threads env" "\<not> re_sparse env" "take 4096 c = c"
    "length (padded [] c) = 4096"
    using assms padded_one_block [of c] by (simp_all add: one_block_def)
  obtain xs where xs: "probe_seq 1 = ?x # xs"
    using demo_probe by blast
  define s2 where "s2 = recv_block 0 (demo_open env)"
  define s3 where "s3 = file_wait 0 ?b (?x # xs) s2"
  define s4 where "s4 = mark_file 0 ?b ?x 3 xs s3"
  define s5 where "s5 = hash_block env 0 ?b s4"
  define s6 where "s6 = rx_write env 0 [] k ?b s5"
  define s7 where "s7 = count_block 0 ?b (min k 4096) s6"
  have e2: "s2 = rgoto 0 (Rx_wait ?b (?x # xs)) ((demo_open env)\<lparr>rw_in := (\<lambda>_. [])\<rparr>)"
    by (simp add: s2_def recv_block_def demo_open_def rw_init_def env(1) xs fun_upd_idem)
  have e3: "s3 = rgoto 0 (Rx_mark ?b ?x 3 xs) s2"
    by (simp add: s3_def e2 demo_open_def)
  have e4: "rw_cur s4 0 = (1, ?x, 3)" "rw_fs s4 = fv_open 3 5 no_files" "st_file_no (rentry s4 ?x) = 1"
    "st_fd (rentry s4 ?x) = 3" "rw_in s4 = (\<lambda>_. [])" "rw_wk s4 = (\<lambda>_. Rx_recv)(0 := Rx_hash ?b)" "\<not> rw_dead s4"
    by (simp_all add: s4_def mark_file_def e3 e2 demo_open_def) (simp_all add: rw_init_def fun_upd_idem)
  have e5: "rw_cur s5 0 = (1, ?x, 3)" "rw_fs s5 = fv_open 3 5 no_files" "st_file_no (rentry s5 ?x) = 1"
    "st_fd (rentry s5 ?x) = 3" "rw_in s5 = (\<lambda>_. [])" "rw_wk s5 = (\<lambda>_. Rx_recv)(0 := Rx_write ?b)" "\<not> rw_dead s5"
    by (simp_all add: s5_def hash_block_def e4) (simp add: stat_update_def e4)
  have node: "fv_node (fv_open 3 5 no_files) 3 = Some 5"
    by (simp add: fv_open_def Let_def)
  have e6: "rw_cur s6 0 = (1, ?x, 3)" "rw_fs s6 = fv_pwrite 3 5 0 (padded [] c) k (fv_open 3 5 no_files)"
    "st_file_no (rentry s6 ?x) = 1" "st_fd (rentry s6 ?x) = 3" "rw_in s6 = (\<lambda>_. [])"
    "rw_wk s6 = (\<lambda>_. Rx_recv)(0 := Rx_count ?b (min k 4096))" "\<not> rw_dead s6"
    using assms(2) by (simp_all add: s6_def rx_write_def e5 env Let_def node min_def)
  have e7: "rw_fs s7 = rw_fs s6" "st_file_no (rentry s7 ?x) = 1" "st_fd (rentry s7 ?x) = 3" "rw_in s7 = (\<lambda>_. [])"
    "rw_wk s7 = (\<lambda>_. Rx_recv)" "\<not> rw_dead s7"
    by (simp_all add: s7_def count_block_def e6 fun_upd_idem) (simp add: stat_update_def e6)
  have "rw_reach env s2"
    using reach_work [OF demo_open_reach, of env 0 Rx_recv "[]" 0] env(2)
    by (simp add: s2_def) (simp add: demo_open_def rw_init_def)
  then have "rw_reach env s3"
    using reach_work [of env s2 0 "Rx_wait ?b (?x # xs)" "[]" 0] env(2)
    by (simp add: s3_def del: file_wait.simps) (simp add: e2 demo_open_def rw_init_def)
  then have "rw_reach env s4"
    using reach_work [of env s3 0 "Rx_mark ?b ?x 3 xs" "[]" 0] env(2)
    by (simp add: s4_def) (simp add: e3 e2 demo_open_def rw_init_def)
  then have "rw_reach env s5"
    using reach_work [of env s4 0 "Rx_hash ?b" "[]" 0] env(2) by (simp add: s5_def e4)
  then have "rw_reach env s6"
    using reach_work [of env s5 0 "Rx_write ?b" "[]" k] env(2) by (simp add: s6_def e5)
  then have "rw_reach env s7"
    using reach_work [of env s6 0 "Rx_count ?b (min k 4096)" "[]" 0] env(2) by (simp add: s7_def e6)
  then have "drained env c k s7"
    using e7 env(5) by (simp add: drained_def e6(2)) (simp add: fv_pwrite_def fv_open_def fv_change_def no_files_def Let_def)
  then show ?thesis
    by blast
qed

lemma drained_slot:
  assumes "one_block env c" and "drained env c k s"
  shows "file_getstats 1 (rw_io s) = Some demo_slot"
proof -
  have "fs_inv (rw_io s)"
    using rw_reach_inv [of env s] assms by (simp add: drained_def one_block_def rw_inv_def)
  then show ?thesis
    using assms(2) getstats_iff [of "rw_io s" 1 demo_slot] by (simp add: drained_def)
qed

lemma drained_count:
  assumes "one_block env c" and "drained env c k s"
  shows "st_block_total (rentry s demo_slot) = 1"
proof -
  have inv: "rw_inv env s"
    using rw_reach_inv [of env s] assms by (simp add: one_block_def drained_def)
  have x: "st_file_no (rentry s demo_slot) = 1"
    using assms(2) by (simp add: drained_def)
  have "flow_inv env s 1"
    using inv by (simp add: rw_inv_def)
  then have log: "mset (map snd (log_of s 1)) = {#first_block c#}"
    using assms by (simp add: flow_inv_def drained_def in_work_def unread_def one_block_def plan_ok_def first_blocks)
  from arg_cong [OF log, of size] show ?thesis
    using open_slot(6) [OF inv x] assms(2) by (simp add: behind_def drained_def)
qed

theorem drained_file_closes_witness:
  "\<exists>s k. rw_reach (demo_rw one_byte) s \<and> rw_closed (close_counted (demo_rw one_byte) 1 s) 1 = Some k \<and>
     cl_data k = [7] \<and> cl_sum k = hashes (demo_rw one_byte) [first_block one_byte]"
proof -
  have c: "one_byte \<noteq> []" "length one_byte \<le> 4096"
    by (simp_all add: one_byte_def)
  note one = demo_rw_one_block [OF c]
  obtain s where s: "drained (demo_rw one_byte) one_byte 4096 s"
    using drained_ex [OF one, of 4096] by auto
  have "plan_ok (demo_rw one_byte)" "rw_reach (demo_rw one_byte) s" "(1 :: fino) \<noteq> 0"
    "re_told (demo_rw one_byte) 1 = Some (1, int (length one_byte))"
    using one s by (simp_all add: one_block_def drained_def)
  from drained_file_closes [OF this drained_slot [OF one s]] obtain d k where k: "re_plan (demo_rw one_byte) 1 = Some d"
    "rw_closed (close_counted (demo_rw one_byte) 1 s) 1 = Some k"
    "cl_sum k = hashes (demo_rw one_byte) (file_blocks (re_block (demo_rw one_byte)) 1 d)" "cl_data k = d"
    using s by (auto simp: drained_def)
  then show ?thesis
    using s first_blocks [OF c] by (auto simp: drained_def demo_rw_def one_byte_def)
qed

text \<open>Closing after the run.\<close>

lemma drained_closing:
  assumes "one_block env c" and "drained env c k s"
  shows "rw_reach env (close_counted env 1 s)"
    and "\<exists>cl. rw_closed (close_counted env 1 s) 1 = Some cl \<and> cl_sole cl = (4096 \<le> k) \<and>
      cl_data cl = ftruncate (length c) (pwrite 0 (take k (padded [] c)) [])"
proof -
  show "rw_reach env (close_counted env 1 s)"
    using assms(2) rw_close [of s 1 env] unfolding rw_reach_def drained_def by (auto intro: reachable.reachable_step)
  have told: "re_told env 1 = Some (1, int (length c))"
    using assms(1) by (simp add: one_block_def)
  show "\<exists>cl. rw_closed (close_counted env 1 s) 1 = Some cl \<and> cl_sole cl = (4096 \<le> k) \<and>
      cl_data cl = ftruncate (length c) (pwrite 0 (take k (padded [] c)) [])"
    using close_fields [OF told drained_slot [OF assms], of 5] drained_count [OF assms] assms(2)
    by (auto simp: drained_def u64_as_i64_def fv_truncate_def fv_change_def)
qed


text \<open>
  A short write is not repeated and not noticed: of a file with the bytes 7 and 8 the system writes
  only the first, the block is counted, and the file is closed as complete with the contents 7 and 0.
\<close>

theorem short_write_corrupts:
  "\<exists>s k. rw_reach (demo_rw [7, 8]) s \<and> rw_closed s 1 = Some k \<and> cl_data k = [7, 0] \<and> re_plan (demo_rw [7, 8]) 1 = Some [7, 8]"
proof -
  have one: "one_block (demo_rw [7, 8]) [7, 8]"
    by (rule demo_rw_one_block) simp_all
  obtain s where s: "drained (demo_rw [7, 8]) [7, 8] 1 s"
    using drained_ex [OF one, of 1] by auto
  obtain k where "rw_closed (close_counted (demo_rw [7, 8]) 1 s) 1 = Some k"
    "cl_data k = ftruncate (length [7 :: u8, 8]) (pwrite 0 (take 1 (padded [] [7, 8])) [])"
    using drained_closing(2) [OF one s] by blast
  then show ?thesis
    using drained_closing(1) [OF one s] by (auto simp: demo_rw_def padded_def pwrite_def ftruncate_def)
qed

end
