(* ===== verification/Meta_Ring.thy ===== *)
theory Meta_Ring
  imports Wire_Header
begin

text \<open>
  The buffer that takes metadata messages from the thread of the connection to the Rust side
  (\<open>libdtn/src/dtn.c\<close>: the metadata branch of \<open>network_recv\<close>, \<open>meta_init\<close>, \<open>meta_recv\<close>,
  \<open>meta_complete\<close>): a ring of \<open>METABUF_SZ\<close> bytes in units of 64 with one writer and one reader.
  A message is never split over the end of the ring; a marker tells the reader to go on at
  the start.

  Every load and store of the two counters is a step of its own; the bytes of a message, which
  nobody else touches before the counter is stored, are written in one step. The counters are 64 bit
  numbers of 64 byte units and do not wrap.
\<close>

section \<open>Memory\<close>

definition METABUF_SZ :: nat where "METABUF_SZ = 4 * 1024 * 1024"

definition meta_units :: nat where "meta_units = METABUF_SZ div 64"

definition put_bytes :: "nat \<Rightarrow> u8 list \<Rightarrow> (nat \<Rightarrow> u8) \<Rightarrow> nat \<Rightarrow> u8" where
  "put_bytes off bs buf = (\<lambda>i. if off \<le> i \<and> i < off + length bs then bs ! (i - off) else buf i)"

definition get_bytes :: "nat \<Rightarrow> nat \<Rightarrow> (nat \<Rightarrow> u8) \<Rightarrow> u8 list" where
  "get_bytes off n buf = map buf [off..<off + n]"

text \<open>The size in the first four bytes of a message, in network order.\<close>

fun ntohl_word :: "u8 list \<Rightarrow> u32" where
  "ntohl_word (a # b # c # d # _) = push_bit 24 (ucast a) OR push_bit 16 (ucast b) OR push_bit 8 (ucast c) OR ucast d"
| "ntohl_word _ = 0"

definition frame_sz :: "u8 list \<Rightarrow> nat" where
  "frame_sz m = unat (ntohl_word (take 4 m))"

text \<open>\<open>increment = (sz+16+63) / 64\<close>.\<close>

definition increment :: "nat \<Rightarrow> nat" where
  "increment sz = (sz + 16 + 63) div 64"

definition wrap_marker :: "u8 list" where
  "wrap_marker = [0xFF, 0xFF, 0xFF, 0xFF]"

section \<open>State and operations\<close>

text \<open>
  Where the writer is: reading the connection, waiting for room with the head it will write at and the
  tail it has loaded, or about to store the new head. The reader holds the pointer that \<open>meta_recv\<close> gave it.
  \<open>mr_sent\<close> are the messages the writer has stored the head for, \<open>mr_got\<close> those the reader has read.
\<close>

datatype meta_writer =
    Mw_idle
  | Mw_wait "u8 list" nat nat
  | Mw_store "u8 list" nat

record meta_ring =
  mr_buf :: "nat \<Rightarrow> u8"
  mr_head :: nat
  mr_tail :: nat
  mr_writer :: meta_writer
  mr_ptr :: "nat option"
  mr_sent :: "u8 list list"
  mr_got :: "u8 list list"
  mr_dead :: bool

definition meta_ring_start :: meta_ring where
  "meta_ring_start =
     \<lparr>mr_buf = (\<lambda>_. 0), mr_head = 0, mr_tail = 0, mr_writer = Mw_idle, mr_ptr = None, mr_sent = [], mr_got = [],
      mr_dead = False\<rparr>"

text \<open>\<open>meta_init\<close> installs a new buffer of zeros and leaves the counters.\<close>

definition meta_init :: "meta_ring \<Rightarrow> meta_ring" where
  "meta_init r = r\<lparr>mr_buf := (\<lambda>_. 0)\<rparr>"

definition meta_begin :: "u8 list \<Rightarrow> meta_ring \<Rightarrow> meta_ring" where
  "meta_begin m r =
     (let h = mr_head r mod meta_units; inc = increment (frame_sz m)
      in if \<not> frame_sz m < METABUF_SZ div 2 then r\<lparr>mr_dead := True\<rparr>
         else if (h + inc) * 64 \<ge> METABUF_SZ
         then r\<lparr>mr_buf := put_bytes (h * 64) wrap_marker (mr_buf r),
                mr_writer := Mw_wait m (mr_head r + (meta_units - h)) (mr_tail r)\<rparr>
         else r\<lparr>mr_writer := Mw_wait m (mr_head r) (mr_tail r)\<rparr>)"

definition meta_room :: "nat \<Rightarrow> nat \<Rightarrow> nat \<Rightarrow> bool" where
  "meta_room inc head tail \<longleftrightarrow>
     (let h = head mod meta_units; t = tail mod meta_units
      in \<not> (tail + meta_units \<le> head \<or> h < t \<and> h + inc \<ge> t))"

definition meta_fill :: "u8 list \<Rightarrow> nat \<Rightarrow> nat \<Rightarrow> meta_ring \<Rightarrow> meta_ring" where
  "meta_fill m head tail r =
     (let inc = increment (frame_sz m)
      in if meta_room inc head tail
         then r\<lparr>mr_buf := put_bytes (head mod meta_units * 64) m (mr_buf r), mr_writer := Mw_store m (head + inc)\<rparr>
         else r\<lparr>mr_writer := Mw_wait m head (mr_tail r)\<rparr>)"

definition meta_publish :: "u8 list \<Rightarrow> nat \<Rightarrow> meta_ring \<Rightarrow> meta_ring" where
  "meta_publish m head r = r\<lparr>mr_head := head, mr_writer := Mw_idle, mr_sent := mr_sent r @ [m]\<rparr>"

definition meta_recv :: "meta_ring \<Rightarrow> nat option \<times> meta_ring" where
  "meta_recv r =
     (let t = mr_tail r mod meta_units
      in if mr_tail r \<ge> mr_head r then (None, r)
         else if get_bytes (t * 64) 4 (mr_buf r) = wrap_marker
         then (Some 0, r\<lparr>mr_tail := mr_tail r + (meta_units - t)\<rparr>)
         else (Some (t * 64), r))"

definition meta_complete :: "meta_ring \<Rightarrow> meta_ring" where
  "meta_complete r =
     (let t = mr_tail r mod meta_units
      in r\<lparr>mr_tail := mr_tail r + increment (frame_sz (get_bytes (t * 64) 4 (mr_buf r)))\<rparr>)"

text \<open>What the Rust side reads behind the pointer: the header of 16 bytes and as many bytes as it says.\<close>

definition frame_at :: "nat \<Rightarrow> (nat \<Rightarrow> u8) \<Rightarrow> u8 list" where
  "frame_at p buf = get_bytes p (16 + frame_sz (get_bytes p 4 buf)) buf"

definition take_frame :: "meta_ring \<Rightarrow> meta_ring" where
  "take_frame r = (case meta_recv r of (p, r') \<Rightarrow> r'\<lparr>mr_ptr := p\<rparr>)"

definition done_frame :: "nat \<Rightarrow> meta_ring \<Rightarrow> meta_ring" where
  "done_frame p r = (meta_complete r)\<lparr>mr_ptr := None, mr_got := mr_got r @ [frame_at p (mr_buf r)]\<rparr>"

text \<open>What comes over a connection: a header and the bytes it announces.\<close>

definition whole_frame :: "u8 list \<Rightarrow> bool" where
  "whole_frame m \<longleftrightarrow> length m = 16 + frame_sz m"

inductive ring_step :: "meta_ring \<Rightarrow> meta_ring \<Rightarrow> bool" where
  ring_begin: "\<not> mr_dead r \<Longrightarrow> mr_writer r = Mw_idle \<Longrightarrow> whole_frame m \<Longrightarrow> ring_step r (meta_begin m r)"
| ring_fill: "\<not> mr_dead r \<Longrightarrow> mr_writer r = Mw_wait m head tail \<Longrightarrow> ring_step r (meta_fill m head tail r)"
| ring_publish: "\<not> mr_dead r \<Longrightarrow> mr_writer r = Mw_store m head \<Longrightarrow> ring_step r (meta_publish m head r)"
| ring_bad_tag: "mr_writer r = Mw_store m head \<Longrightarrow> ring_step r (r\<lparr>mr_dead := True\<rparr>)"
| ring_take: "\<not> mr_dead r \<Longrightarrow> mr_ptr r = None \<Longrightarrow> ring_step r (take_frame r)"
| ring_done: "\<not> mr_dead r \<Longrightarrow> mr_ptr r = Some p \<Longrightarrow> ring_step r (done_frame p r)"

definition ring_reach :: "meta_ring \<Rightarrow> bool" where
  "ring_reach = reachable (\<lambda>r. r = meta_ring_start) ring_step"

section \<open>Layout\<close>

text \<open>
  The messages between two counters. Positions are counters; the unit of position \<open>p\<close> is
  \<open>p mod meta_units\<close>.
\<close>

definition marked :: "(nat \<Rightarrow> u8) \<Rightarrow> nat \<Rightarrow> bool" where
  "marked buf p \<longleftrightarrow> get_bytes (p mod meta_units * 64) 4 buf = wrap_marker"

definition skip_marker :: "(nat \<Rightarrow> u8) \<Rightarrow> nat \<Rightarrow> nat" where
  "skip_marker buf p = (if marked buf p then p + (meta_units - p mod meta_units) else p)"

definition fits_at :: "nat \<Rightarrow> u8 list \<Rightarrow> bool" where
  "fits_at p m \<longleftrightarrow> whole_frame m \<and> frame_sz m < METABUF_SZ div 2 \<and> p mod meta_units + increment (frame_sz m) < meta_units"

definition holds_at :: "(nat \<Rightarrow> u8) \<Rightarrow> nat \<Rightarrow> u8 list \<Rightarrow> bool" where
  "holds_at buf p m \<longleftrightarrow> fits_at p m \<and> get_bytes (p mod meta_units * 64) (length m) buf = m"

fun segment :: "(nat \<Rightarrow> u8) \<Rightarrow> nat \<Rightarrow> nat \<Rightarrow> u8 list list \<Rightarrow> bool" where
  "segment buf p e [] = (p = e)"
| "segment buf p e (m # q) =
     (holds_at buf (skip_marker buf p) m \<and> segment buf (skip_marker buf p + increment (frame_sz m)) e q)"

definition agree :: "(nat \<Rightarrow> u8) \<Rightarrow> (nat \<Rightarrow> u8) \<Rightarrow> nat \<Rightarrow> nat \<Rightarrow> bool" where
  "agree buf buf' p e \<longleftrightarrow>
     (\<forall>a k. p \<le> a \<longrightarrow> a < e \<longrightarrow> k < 64 \<longrightarrow> buf' (a mod meta_units * 64 + k) = buf (a mod meta_units * 64 + k))"

lemma meta_units_eq: "meta_units = 65536" "METABUF_SZ = meta_units * 64"
  by (simp_all add: meta_units_def METABUF_SZ_def)

lemma meta_units_pos [simp]: "0 < meta_units"
  by (simp add: meta_units_eq)

lemma get_put [simp]: "length bs = n \<Longrightarrow> get_bytes off n (put_bytes off bs buf) = bs"
  by (rule nth_equalityI) (simp_all add: get_bytes_def put_bytes_def)

lemma take_get: "n \<le> m \<Longrightarrow> take n (get_bytes off m buf) = get_bytes off n buf"
  by (simp add: get_bytes_def take_map)

lemma increment_ge: "16 + n \<le> increment n * 64"
  unfolding increment_def by linarith

lemma increment_pos [simp]: "0 < increment n"
  by (simp add: increment_def)

lemma units_apart:
  assumes "a < b" and "b < a + n"
  shows "a mod n \<noteq> b mod (n :: nat)"
proof
  assume "a mod n = b mod n"
  then have "n dvd b - a"
    using assms(1) mod_eq_dvd_iff_nat [of a b n] by simp
  then show False
    using assms by (auto dest: dvd_imp_le)
qed

lemma mod_add_small: "p mod n + k < n \<Longrightarrow> (p + k) mod n = p mod n + (k :: nat)"
  by (metis mod_add_left_eq mod_less)

lemma get_agree:
  assumes "agree buf buf' p e" and "p + n \<le> e" and "len \<le> n * 64" and "p mod meta_units + n \<le> meta_units"
  shows "get_bytes (p mod meta_units * 64) len buf' = get_bytes (p mod meta_units * 64) len buf"
proof -
  have "buf' (p mod meta_units * 64 + i) = buf (p mod meta_units * 64 + i)" if "i < len" for i
  proof -
    have i: "i div 64 < n"
      using that assms(3) by (simp add: less_mult_imp_div_less)
    then have "(p + i div 64) mod meta_units = p mod meta_units + i div 64"
      using assms(4) by (intro mod_add_small) simp
    moreover have "p \<le> p + i div 64" "p + i div 64 < e" "i mod 64 < 64"
      using i assms(2) by simp_all
    ultimately have "buf' ((p mod meta_units + i div 64) * 64 + i mod 64) = buf ((p mod meta_units + i div 64) * 64 + i mod 64)"
      using assms(1) unfolding agree_def by metis
    moreover have "(p mod meta_units + i div 64) * 64 + i mod 64 = p mod meta_units * 64 + i"
      by (simp add: distrib_right)
    ultimately show ?thesis
      by metis
  qed
  then show ?thesis
    unfolding get_bytes_def by (intro nth_equalityI) simp_all
qed

lemma put_agree:
  assumes "length bs \<le> n * 64" and "w mod meta_units + n \<le> meta_units" and "e \<le> w" and "w + n \<le> p + meta_units"
  shows "agree buf (put_bytes (w mod meta_units * 64) bs buf) p e"
  unfolding agree_def
proof (intro allI impI)
  fix a k :: nat assume a: "p \<le> a" "a < e" and k: "k < 64"
  let ?x = "a mod meta_units * 64 + k" and ?w = "w mod meta_units"
  show "put_bytes (?w * 64) bs buf ?x = buf ?x"
  proof (rule ccontr)
    assume "\<not> ?thesis"
    then have x: "?w * 64 \<le> ?x" "?x < ?w * 64 + length bs"
      by (auto simp: put_bytes_def split: if_splits)
    then have lo: "?w \<le> a mod meta_units" and hi: "a mod meta_units < ?w + n"
      using k assms(1) by linarith+
    define d where "d = a mod meta_units - ?w"
    have d: "d < n" "?w + d = a mod meta_units"
      using lo hi by (simp_all add: d_def)
    then have "(w + d) mod meta_units = a mod meta_units"
      using mod_add_small [of w meta_units d] by simp
    moreover have "a < w + d" "w + d < a + meta_units"
      using a assms(3,4) d(1) by linarith+
    ultimately show False
      using units_apart by metis
  qed
qed

lemma fits_len: "fits_at p m \<Longrightarrow> length m \<le> increment (frame_sz m) * 64"
  using increment_ge [of "frame_sz m"] by (simp add: fits_at_def whole_frame_def)

lemma holds_head:
  assumes "holds_at buf p m"
  shows "get_bytes (p mod meta_units * 64) 4 buf = take 4 m" and "\<not> marked buf p" and "skip_marker buf p = p"
    and "frame_at (p mod meta_units * 64) buf = m"
proof -
  let ?o = "p mod meta_units * 64"
  have m: "get_bytes ?o (length m) buf = m" "length m = 16 + frame_sz m" "frame_sz m < METABUF_SZ div 2"
    using assms unfolding holds_at_def fits_at_def whole_frame_def by blast+
  then show g: "get_bytes ?o 4 buf = take 4 m"
    using take_get [of 4 "length m" ?o buf] by simp
  have "frame_sz m = 4294967295" if "take 4 m = wrap_marker"
    by (simp add: frame_sz_def that wrap_marker_def push_bit_of_1)
  then show nm: "\<not> marked buf p"
    using m(3) by (auto simp: marked_def g METABUF_SZ_def)
  then show "skip_marker buf p = p"
    by (simp add: skip_marker_def)
  have "frame_sz (take 4 m) = frame_sz m"
    by (simp add: frame_sz_def)
  then show "frame_at ?o buf = m"
    using m(1,2) by (simp only: frame_at_def g)
qed

lemma skip_marker_ge [simp]: "p \<le> skip_marker buf p"
  by (cases "marked buf p") (simp_all only: skip_marker_def if_True if_False le_add1 order_refl)

lemma next_lap: "(p + (meta_units - p mod meta_units)) mod meta_units = 0"
proof -
  have "p + (meta_units - p mod meta_units) = (p div meta_units + 1) * meta_units"
    using mod_less_divisor [OF meta_units_pos, of p] div_mult_mod_eq [of p meta_units]
    unfolding distrib_right by linarith
  then show ?thesis
    by simp
qed

lemma segment_le: "segment buf p e q \<Longrightarrow> p \<le> e \<and> (q \<noteq> [] \<longrightarrow> p < e)"
proof (induction q arbitrary: p)
  case (Cons m q)
  then have "skip_marker buf p + increment (frame_sz m) \<le> e"
    by auto
  then show ?case
    using skip_marker_ge [of p buf] increment_pos [of "frame_sz m"] by linarith
qed simp

lemma segment_snoc:
  "segment buf p e q \<Longrightarrow> holds_at buf (skip_marker buf e) m \<Longrightarrow>
   segment buf p (skip_marker buf e + increment (frame_sz m)) (q @ [m])"
  by (induction q arbitrary: p) simp_all

lemma segment_agree:
  assumes "segment buf p e q" and "agree buf buf' p e"
  shows "segment buf' p e q"
  using assms
proof (induction q arbitrary: p)
  case (Cons m q)
  let ?p = "skip_marker buf p" and ?n = "increment (frame_sz m)"
  have lt: "p < e" and le: "?p + ?n \<le> e" and ge: "p \<le> ?p"
    using segment_le [OF Cons.prems(1)] segment_le [of buf "?p + ?n" e q] Cons.prems(1) by simp_all
  have "get_bytes (p mod meta_units * 64) 4 buf' = get_bytes (p mod meta_units * 64) 4 buf"
    by (rule get_agree [OF Cons.prems(2), of 1]) (use lt in \<open>simp_all add: Suc_le_eq\<close>)
  then have sk: "skip_marker buf' p = ?p"
    by (simp add: skip_marker_def marked_def)
  have ag: "agree buf buf' ?p e" "agree buf buf' (?p + ?n) e"
    using Cons.prems(2) ge unfolding agree_def by (meson le_trans trans_le_add1)+
  have h: "fits_at ?p m" "get_bytes (?p mod meta_units * 64) (length m) buf = m"
    using Cons.prems(1) by (simp_all add: holds_at_def)
  have "get_bytes (?p mod meta_units * 64) (length m) buf' = m"
    using get_agree [OF ag(1) le fits_len [OF h(1)]] h by (simp add: fits_at_def)
  then have "holds_at buf' ?p m"
    using h(1) by (simp add: holds_at_def)
  then show ?case
    using Cons.IH [OF _ ag(2)] Cons.prems(1) by (simp add: sk)
qed simp

lemma room_apart:
  assumes "meta_room inc head tail" and "tail \<le> head" and "head mod meta_units + inc < meta_units"
  shows "head + inc < tail + meta_units"
proof -
  let ?N = meta_units
  have r: "head < tail + ?N" "head mod ?N < tail mod ?N \<longrightarrow> head mod ?N + inc < tail mod ?N"
    using assms(1) by (auto simp: meta_room_def Let_def)
  have eq: "head = head div ?N * ?N + head mod ?N" "tail = tail div ?N * ?N + tail mod ?N"
    by simp_all
  show ?thesis
  proof (cases "head div ?N = tail div ?N")
    case True
    have "head + inc < head div ?N * ?N + ?N"
      using eq(1) assms(3) by linarith
    also have "\<dots> \<le> tail + ?N"
      unfolding True using eq(2) by linarith
    finally show ?thesis .
  next
    case False
    then have "tail div ?N < head div ?N"
      using assms(2) div_le_mono [of tail head ?N] by simp
    moreover have "head div ?N < tail div ?N + 2"
      using r(1) div_le_mono [of head "tail + ?N" ?N] div_add_self2 [of ?N tail] meta_units_pos by linarith
    ultimately have d: "head div ?N = tail div ?N + 1"
      by simp
    then have "head = tail div ?N * ?N + ?N + head mod ?N"
      using eq(1) by (simp add: algebra_simps)
    then have "head mod ?N < tail mod ?N"
      using r(1) eq(2) by linarith
    then show ?thesis
      using r(2) eq(2) \<open>head = tail div ?N * ?N + ?N + head mod ?N\<close> by linarith
  qed
qed

section \<open>Invariant\<close>

text \<open>Where the next message goes: at the head, or at the start of the next lap behind a marker.\<close>

definition placed :: "(nat \<Rightarrow> u8) \<Rightarrow> nat \<Rightarrow> nat \<Rightarrow> u8 list \<Rightarrow> bool" where
  "placed buf head p m \<longleftrightarrow>
     p = head \<or> marked buf head \<and> p = head + (meta_units - head mod meta_units) \<and>
       meta_units \<le> head mod meta_units + increment (frame_sz m)"

fun writer_inv :: "meta_ring \<Rightarrow> meta_writer \<Rightarrow> bool" where
  "writer_inv r Mw_idle = True"
| "writer_inv r (Mw_wait m p t0) = (fits_at p m \<and> placed (mr_buf r) (mr_head r) p m \<and> t0 \<le> mr_tail r)"
| "writer_inv r (Mw_store m e) =
     (\<exists>p. holds_at (mr_buf r) p m \<and> placed (mr_buf r) (mr_head r) p m \<and> e = p + increment (frame_sz m) \<and>
        e < mr_tail r + meta_units)"

definition ring_holds :: "meta_ring \<Rightarrow> u8 list list \<Rightarrow> bool" where
  "ring_holds r q \<longleftrightarrow>
     mr_sent r = mr_got r @ q \<and> segment (mr_buf r) (mr_tail r) (mr_head r) q \<and> mr_head r < mr_tail r + meta_units \<and>
     (\<forall>p. mr_ptr r = Some p \<longrightarrow> q \<noteq> [] \<and> p = mr_tail r mod meta_units * 64 \<and> \<not> marked (mr_buf r) (mr_tail r))"

definition ring_inv :: "meta_ring \<Rightarrow> bool" where
  "ring_inv r \<longleftrightarrow> (\<exists>q. ring_holds r q) \<and> writer_inv r (mr_writer r)"

lemma marked_agree: "agree buf buf' p e \<Longrightarrow> p < e \<Longrightarrow> marked buf' p = marked buf p"
  using get_agree [of buf buf' p e 1 4] by (simp add: marked_def Suc_le_eq)

text \<open>Writing between the head and the tail of the next lap keeps what the ring holds.\<close>

lemma ring_holds_put:
  assumes "ring_holds r q" and "agree (mr_buf r) buf (mr_tail r) (mr_head r)"
  shows "ring_holds (r\<lparr>mr_buf := buf, mr_writer := w\<rparr>) q"
proof -
  have "marked buf (mr_tail r) = marked (mr_buf r) (mr_tail r)" if "q \<noteq> []"
    using marked_agree [OF assms(2)] segment_le that assms(1) unfolding ring_holds_def by blast
  then show ?thesis
    using assms segment_agree unfolding ring_holds_def by auto
qed

lemma ring_holds_le: "ring_holds r q \<Longrightarrow> mr_tail r \<le> mr_head r"
  unfolding ring_holds_def using segment_le by blast

lemma small_increment: "n < METABUF_SZ div 2 \<Longrightarrow> increment n < meta_units"
  by (simp add: METABUF_SZ_def meta_units_def increment_def)

lemma step_begin:
  assumes "ring_inv r" and "mr_writer r = Mw_idle" and "whole_frame m"
  shows "ring_inv (meta_begin m r)"
proof (cases "frame_sz m < METABUF_SZ div 2")
  case False
  then show ?thesis
    using assms(1,2) by (simp add: meta_begin_def ring_inv_def ring_holds_def)
next
  case small: True
  let ?h = "mr_head r mod meta_units" and ?inc = "increment (frame_sz m)"
  obtain q where q: "ring_holds r q"
    using assms(1) by (auto simp: ring_inv_def)
  show ?thesis
  proof (cases "METABUF_SZ \<le> (?h + ?inc) * 64")
    case True
    let ?buf = "put_bytes (?h * 64) wrap_marker (mr_buf r)" and ?p = "mr_head r + (meta_units - ?h)"
    have "mr_head r + 1 \<le> mr_tail r + meta_units"
      using q by (simp add: ring_holds_def)
    then have "agree (mr_buf r) ?buf (mr_tail r) (mr_head r)"
      by (intro put_agree [where n = 1]) (simp_all add: wrap_marker_def Suc_le_eq)
    then have "ring_holds (r\<lparr>mr_buf := ?buf, mr_writer := Mw_wait m ?p (mr_tail r)\<rparr>) q"
      by (rule ring_holds_put [OF q])
    moreover have "marked ?buf (mr_head r)"
      by (simp add: marked_def wrap_marker_def)
    moreover have "fits_at ?p m"
      using assms(3) small small_increment [OF small] by (simp only: fits_at_def next_lap) simp
    moreover have "meta_units \<le> ?h + ?inc"
      using True by (simp add: meta_units_eq(2))
    ultimately show ?thesis
      using True small by (auto simp: meta_begin_def Let_def ring_inv_def placed_def)
  next
    case False
    then have "fits_at (mr_head r) m"
      using assms(3) small by (simp add: fits_at_def meta_units_eq(2))
    moreover have "ring_holds (r\<lparr>mr_writer := Mw_wait m (mr_head r) (mr_tail r)\<rparr>) q"
      using q by (simp add: ring_holds_def)
    ultimately show ?thesis
      using False small by (auto simp: meta_begin_def Let_def ring_inv_def placed_def)
  qed
qed

lemma step_fill:
  assumes "ring_inv r" and "mr_writer r = Mw_wait m p t0"
  shows "ring_inv (meta_fill m p t0 r)"
proof -
  let ?inc = "increment (frame_sz m)"
  obtain q where q: "ring_holds r q"
    using assms(1) by (auto simp: ring_inv_def)
  have w: "fits_at p m" "placed (mr_buf r) (mr_head r) p m" "t0 \<le> mr_tail r"
    using assms by (simp_all add: ring_inv_def)
  have ge: "mr_head r \<le> p" "mr_head r = p \<or> mr_head r < p"
    using w(2) unfolding placed_def by linarith+
  show ?thesis
  proof (cases "meta_room ?inc p t0")
    case True
    let ?buf = "put_bytes (p mod meta_units * 64) m (mr_buf r)"
    have fit: "p mod meta_units + ?inc < meta_units"
      using w(1) by (simp add: fits_at_def)
    have "t0 \<le> p"
      using w(3) ring_holds_le [OF q] ge(1) by simp
    from room_apart [OF True this fit] have e: "p + ?inc < mr_tail r + meta_units"
      using w(3) by simp
    have ag: "agree (mr_buf r) ?buf (mr_tail r) b" if "b \<le> p" for b
      by (rule put_agree [OF fits_len [OF w(1)]]) (use fit e that in simp_all)
    have "holds_at ?buf p m"
      using w(1) by (simp add: holds_at_def)
    moreover have "marked ?buf (mr_head r) = marked (mr_buf r) (mr_head r)" if "mr_head r < p"
    proof (rule marked_agree)
      show "agree (mr_buf r) ?buf (mr_head r) p"
        using ag [of p] ring_holds_le [OF q] unfolding agree_def by (meson order_refl order_trans)
    qed (rule that)
    then have "placed ?buf (mr_head r) p m"
      using w(2) ge(2) by (auto simp: placed_def)
    ultimately show ?thesis
      using True e ring_holds_put [OF q ag [OF ge(1)]] unfolding ring_inv_def meta_fill_def Let_def by auto
  next
    case False
    have "ring_holds (r\<lparr>mr_writer := Mw_wait m p (mr_tail r)\<rparr>) q"
      using q by (simp add: ring_holds_def)
    then show ?thesis
      using False w by (auto simp: meta_fill_def ring_inv_def)
  qed
qed

lemma step_publish:
  assumes "ring_inv r" and "mr_writer r = Mw_store m e"
  shows "ring_inv (meta_publish m e r)"
proof -
  obtain q where q: "ring_holds r q"
    using assms(1) by (auto simp: ring_inv_def)
  obtain p where p: "holds_at (mr_buf r) p m" "placed (mr_buf r) (mr_head r) p m" "e = p + increment (frame_sz m)"
    "e < mr_tail r + meta_units"
    using assms by (auto simp: ring_inv_def)
  then have "skip_marker (mr_buf r) (mr_head r) = p"
    using holds_head(3) [OF p(1)] by (auto simp: placed_def skip_marker_def)
  then have "segment (mr_buf r) (mr_tail r) e (q @ [m])"
    using segment_snoc [of "mr_buf r" "mr_tail r" "mr_head r" q m] q p(1,3) by (simp add: ring_holds_def)
  then have "ring_holds (meta_publish m e r) (q @ [m])"
    using q p(4) by (auto simp: ring_holds_def meta_publish_def)
  then show ?thesis
    by (auto simp: ring_inv_def meta_publish_def)
qed

text \<open>The reader: the writer does not mind the tail moving on.\<close>

lemma writer_inv_tail:
  assumes "writer_inv r w" and "mr_buf r' = mr_buf r" and "mr_head r' = mr_head r" and "mr_tail r \<le> mr_tail r'"
  shows "writer_inv r' w"
  using assms by (cases w) (auto intro: order_trans less_le_trans)

lemma step_take:
  assumes "ring_inv r" and "mr_ptr r = None"
  shows "ring_inv (take_frame r)"
proof -
  obtain q where q: "ring_holds r q"
    using assms(1) by (auto simp: ring_inv_def)
  show ?thesis
  proof (cases q)
    case Nil
    then have "take_frame r = r"
      using q assms(2) by (simp add: take_frame_def meta_recv_def ring_holds_def)
    then show ?thesis
      using assms(1) by simp
  next
    case (Cons m ms)
    let ?p = "skip_marker (mr_buf r) (mr_tail r)"
    let ?r = "r\<lparr>mr_tail := ?p, mr_ptr := Some (?p mod meta_units * 64)\<rparr>"
    have seg: "holds_at (mr_buf r) ?p m" "segment (mr_buf r) (?p + increment (frame_sz m)) (mr_head r) ms"
      using q Cons by (simp_all add: ring_holds_def)
    note hh = holds_head [OF seg(1)]
    have "mr_tail r < mr_head r"
      using q Cons segment_le unfolding ring_holds_def by blast
    then have r: "take_frame r = ?r"
      using next_lap [of "mr_tail r"] by (simp add: take_frame_def meta_recv_def skip_marker_def marked_def Let_def)
    have "mr_head r < ?p + meta_units"
      using q skip_marker_ge [of "mr_tail r" "mr_buf r"] unfolding ring_holds_def by linarith
    then have "ring_holds ?r q"
      using q seg hh(2,3) Cons by (simp add: ring_holds_def)
    moreover have "writer_inv ?r (mr_writer r)"
      by (rule writer_inv_tail [of r]) (use assms(1) in \<open>simp_all add: ring_inv_def\<close>)
    ultimately show ?thesis
      unfolding r by (auto simp: ring_inv_def)
  qed
qed

lemma held_frame:
  assumes "ring_holds r q" and "mr_ptr r = Some p"
  obtains m ms where "q = m # ms" and "frame_at p (mr_buf r) = m"
    and "meta_complete r = r\<lparr>mr_tail := mr_tail r + increment (frame_sz m)\<rparr>"
    and "segment (mr_buf r) (mr_tail r + increment (frame_sz m)) (mr_head r) ms"
proof -
  have p: "q \<noteq> []" "p = mr_tail r mod meta_units * 64" "skip_marker (mr_buf r) (mr_tail r) = mr_tail r"
    using assms by (auto simp: ring_holds_def skip_marker_def)
  then obtain m ms where q: "q = m # ms"
    by (cases q) simp_all
  then have seg: "holds_at (mr_buf r) (mr_tail r) m"
    "segment (mr_buf r) (mr_tail r + increment (frame_sz m)) (mr_head r) ms"
    using assms(1) p(3) by (simp_all add: ring_holds_def)
  have "frame_sz (take 4 m) = frame_sz m"
    by (simp add: frame_sz_def)
  then show ?thesis
    using that q seg(2) holds_head [OF seg(1)] p(2) by (simp add: meta_complete_def)
qed

lemma step_done:
  assumes "ring_inv r" and "mr_ptr r = Some p"
  shows "ring_inv (done_frame p r)"
proof -
  obtain q where q: "ring_holds r q"
    using assms(1) by (auto simp: ring_inv_def)
  from held_frame [OF q assms(2)] obtain m ms where m: "q = m # ms" "frame_at p (mr_buf r) = m"
    "meta_complete r = r\<lparr>mr_tail := mr_tail r + increment (frame_sz m)\<rparr>"
    "segment (mr_buf r) (mr_tail r + increment (frame_sz m)) (mr_head r) ms" .
  have "ring_holds (done_frame p r) ms"
    using q m by (auto simp: ring_holds_def done_frame_def)
  moreover have "writer_inv (done_frame p r) (mr_writer r)"
    by (rule writer_inv_tail [of r]) (use assms(1) m(3) in \<open>simp_all add: ring_inv_def done_frame_def\<close>)
  ultimately show ?thesis
    using m(3) by (auto simp: ring_inv_def done_frame_def)
qed

lemma ring_inv_dead: "ring_inv (r\<lparr>mr_dead := True\<rparr>) = ring_inv r"
proof -
  have "writer_inv (r\<lparr>mr_dead := True\<rparr>) w = writer_inv r w" for w
    by (cases w) simp_all
  then show ?thesis
    by (simp add: ring_inv_def ring_holds_def)
qed

lemma ring_step_inv: "ring_step r r' \<Longrightarrow> ring_inv r \<Longrightarrow> ring_inv r'"
  by (induction rule: ring_step.induct)
    (simp_all add: step_begin step_fill step_publish step_take step_done ring_inv_dead)

lemma ring_inv_start: "ring_inv meta_ring_start"
  by (auto simp: ring_inv_def ring_holds_def meta_ring_start_def intro!: exI [of _ "[]"])

interpretation meta_run: step_system "\<lambda>r. r = meta_ring_start" ring_step ring_inv
  by unfold_locales (simp_all add: ring_inv_start ring_step_inv)

lemma ring_reach_inv: "ring_reach r \<Longrightarrow> ring_inv r"
  unfolding ring_reach_def by (rule meta_run.reachable_inv)

section \<open>Messages of the protocol\<close>

lemma frame_sz_meta_frame: "frame_sz (meta_frame (to_header sz typ) d) = unat sz"
proof -
  obtain a b c e f g where h: "to_header sz typ = [a, b, c, e, f, g]"
    by (auto simp: to_header_def to_be_bytes_def)
  have "from_header (to_header sz typ) = Done (sz, typ)"
    using from_header_to_header [where rest = "[]"] by simp
  then show ?thesis
    by (simp add: h frame_sz_def meta_frame_def)
qed

lemma whole_frame_meta_frame: "length d = unat sz \<Longrightarrow> whole_frame (meta_frame (to_header sz typ) d)"
  by (simp add: whole_frame_def frame_sz_meta_frame) (simp add: meta_frame_def to_header_def to_be_bytes_def)

section \<open>Runs\<close>

text \<open>An idle ring whose messages are all read, and one message through it.\<close>

definition quiet :: "meta_ring \<Rightarrow> bool" where
  "quiet r \<longleftrightarrow> ring_reach r \<and> \<not> mr_dead r \<and> mr_writer r = Mw_idle \<and> mr_ptr r = None"

lemma quiet_start: "quiet meta_ring_start"
  by (simp add: quiet_def ring_reach_def reachable.reachable_start) (simp add: meta_ring_start_def)

lemma ring_reach_step: "ring_reach r \<Longrightarrow> ring_step r r' \<Longrightarrow> ring_reach r'"
  unfolding ring_reach_def by (rule reachable.reachable_step)

lemma run_write:
  assumes "quiet r" and "mr_tail r = mr_head r" and "fits_at (mr_head r) m"
  obtains r' where "quiet r'" and "mr_sent r' = mr_sent r @ [m]" and "mr_got r' = mr_got r" and "mr_tail r' = mr_tail r"
    and "mr_head r' = mr_head r + increment (frame_sz m)"
proof -
  let ?h = "mr_head r"
  note q = assms(1) [unfolded quiet_def]
  have m: "whole_frame m" "frame_sz m < METABUF_SZ div 2" "?h mod meta_units + increment (frame_sz m) < meta_units"
    using assms(3) by (simp_all add: fits_at_def)
  define r1 where "r1 = r\<lparr>mr_writer := Mw_wait m ?h ?h\<rparr>"
  define r2 where "r2 = r1\<lparr>mr_buf := put_bytes (?h mod meta_units * 64) m (mr_buf r),
    mr_writer := Mw_store m (?h + increment (frame_sz m))\<rparr>"
  have "meta_begin m r = r1"
    using m assms(2) by (simp add: meta_begin_def r1_def meta_units_eq(2) Let_def)
  then have "ring_reach r1"
    using q m(1) ring_begin [of r m] ring_reach_step by auto
  moreover have "meta_fill m ?h ?h r1 = r2"
    by (simp add: meta_fill_def meta_room_def r1_def r2_def)
  then have "ring_step r1 r2"
    using q ring_fill [of r1 m ?h ?h] by (simp add: r1_def)
  moreover have "ring_step r2 (meta_publish m (?h + increment (frame_sz m)) r2)"
    using q by (intro ring_publish) (simp_all add: r2_def r1_def)
  ultimately have "ring_reach (meta_publish m (?h + increment (frame_sz m)) r2)"
    using ring_reach_step by blast
  then show ?thesis
    using q by (intro that [of "meta_publish m (?h + increment (frame_sz m)) r2"])
      (simp_all add: quiet_def meta_publish_def r2_def r1_def)
qed

lemma run_read:
  assumes "quiet r" and "mr_sent r = mr_got r @ [m]"
  obtains r' where "quiet r'" and "mr_got r' = mr_sent r" and "mr_sent r' = mr_sent r" and "mr_head r' = mr_head r"
    and "mr_tail r' = mr_head r"
proof -
  note q = assms(1) [unfolded quiet_def]
  let ?r = "take_frame r"
  have keep: "mr_dead ?r = mr_dead r" "mr_writer ?r = mr_writer r" "mr_sent ?r = mr_sent r" "mr_got ?r = mr_got r"
    "mr_head ?r = mr_head r"
    by (simp_all add: take_frame_def meta_recv_def Let_def split: prod.split)
  have reach: "ring_reach ?r"
    using q ring_take ring_reach_step by blast
  obtain q0 where q0: "ring_holds r q0"
    using ring_reach_inv q by (auto simp: ring_inv_def)
  then have "q0 = [m]"
    using assms(2) by (simp add: ring_holds_def)
  then have "mr_tail r < mr_head r"
    using q0 segment_le unfolding ring_holds_def by blast
  then have "mr_ptr ?r \<noteq> None"
    by (simp add: take_frame_def meta_recv_def Let_def)
  then obtain p where p: "mr_ptr ?r = Some p"
    by blast
  obtain q1 where q1: "ring_holds ?r q1"
    using ring_reach_inv [OF reach] by (auto simp: ring_inv_def)
  from held_frame [OF q1 p] obtain m' ms where m': "q1 = m' # ms" "frame_at p (mr_buf ?r) = m'"
    "meta_complete ?r = ?r\<lparr>mr_tail := mr_tail ?r + increment (frame_sz m')\<rparr>"
    "segment (mr_buf ?r) (mr_tail ?r + increment (frame_sz m')) (mr_head ?r) ms" .
  have "q1 = [m]"
    using q1 assms(2) keep(3,4) by (simp add: ring_holds_def)
  then have "m' = m" "mr_tail ?r + increment (frame_sz m) = mr_head r"
    using m' keep(5) by simp_all
  moreover have "ring_reach (done_frame p ?r)"
    using ring_reach_step [OF reach ring_done] p q keep(1) by simp
  ultimately show ?thesis
    using q keep m'(2,3) assms(2) by (intro that [of "done_frame p ?r"]) (simp_all add: quiet_def done_frame_def)
qed

definition demo_frame :: "u8 list" where
  "demo_frame = meta_frame (to_header 1 msg_keepalive) [42]"

lemma demo_frame: "whole_frame demo_frame" "frame_sz demo_frame = 1" "length demo_frame = 17" "demo_frame \<noteq> replicate 16 0"
proof -
  show "whole_frame demo_frame" "frame_sz demo_frame = 1"
    by (simp_all add: demo_frame_def whole_frame_meta_frame frame_sz_meta_frame)
  then show "length demo_frame = 17"
    by (simp add: whole_frame_def)
  then have "length demo_frame \<noteq> length (replicate 16 (0 :: u8))"
    by simp
  then show "demo_frame \<noteq> replicate 16 0"
    by (rule contrapos_nn) simp
qed

lemma demo_unread:
  obtains r where "quiet r" and "mr_sent r = [demo_frame]" and "mr_got r = []" and "mr_tail r = 0" and "mr_head r = 1"
proof -
  have "fits_at 0 demo_frame"
    by (simp add: fits_at_def demo_frame meta_units_eq METABUF_SZ_def increment_def)
  then show ?thesis
    using run_write [OF quiet_start, of demo_frame] that
    by (auto simp: meta_ring_start_def demo_frame increment_def)
qed

section \<open>Properties\<close>

text \<open>
  Claim C10. The ring is a queue: in every interleaving of the writer and the reader, the messages the Rust
  side has read are the first ones that came over the connection, unchanged and in order; \<open>meta_recv\<close>
  returns null exactly when there are no others, and otherwise a pointer to the next one.
\<close>

theorem ring_fifo:
  assumes "ring_reach r"
  shows "\<exists>q. mr_sent r = mr_got r @ q \<and>
    (case fst (meta_recv r) of None \<Rightarrow> q = [] | Some p \<Rightarrow> q \<noteq> [] \<and> frame_at p (mr_buf r) = hd q)"
proof -
  obtain q where q: "ring_holds r q"
    using ring_reach_inv [OF assms] by (auto simp: ring_inv_def)
  show ?thesis
  proof (cases q)
    case Nil
    then show ?thesis
      using q by (simp add: ring_holds_def meta_recv_def)
  next
    case (Cons m ms)
    let ?p = "skip_marker (mr_buf r) (mr_tail r)"
    have "holds_at (mr_buf r) ?p m"
      using q Cons by (simp add: ring_holds_def)
    then have "frame_at (?p mod meta_units * 64) (mr_buf r) = m"
      by (rule holds_head(4))
    moreover have "mr_tail r < mr_head r"
      using q Cons segment_le unfolding ring_holds_def by blast
    then have "fst (meta_recv r) = Some (?p mod meta_units * 64)"
      using next_lap [of "mr_tail r"] by (simp add: meta_recv_def skip_marker_def marked_def Let_def)
    ultimately show ?thesis
      using q Cons by (auto simp: ring_holds_def)
  qed
qed

theorem ring_fifo_witness:
  "\<exists>r p. ring_reach r \<and> mr_sent r = [demo_frame] \<and> fst (meta_recv r) = Some p \<and> frame_at p (mr_buf r) = demo_frame"
proof -
  obtain r where r: "quiet r" "mr_sent r = [demo_frame]" "mr_got r = []" "mr_tail r = 0" "mr_head r = 1"
    by (rule demo_unread)
  then have reach: "ring_reach r"
    by (simp add: quiet_def)
  with ring_fifo [OF reach] r show ?thesis
    by (auto split: option.splits)
qed

text \<open>
  Claim C31. The writer is not stuck: \<open>meta_send\<close> sends at most 1 MiB, and for such a message there is room,
  whatever the positions of the counters, as soon as the reader has read everything.
\<close>

theorem ring_makes_room:
  assumes "ring_reach r" and "mr_writer r = Mw_wait m p t0" and "frame_sz m \<le> 1024 * 1024" and "mr_tail r = mr_head r"
  shows "mr_writer (meta_fill m p (mr_tail r) r) = Mw_store m (p + increment (frame_sz m))"
proof -
  let ?h = "mr_head r mod meta_units" and ?inc = "increment (frame_sz m)"
  have w: "placed (mr_buf r) (mr_head r) p m"
    using ring_reach_inv [OF assms(1)] assms(2) by (simp add: ring_inv_def)
  have inc: "?inc \<le> 16385"
    using assms(3) by (simp add: increment_def)
  have "meta_room ?inc p (mr_tail r)"
  proof (cases "p = mr_head r")
    case True
    then show ?thesis
      using assms(4) by (simp add: meta_room_def)
  next
    case False
    then have p: "p = mr_head r + (meta_units - ?h)" "meta_units \<le> ?h + ?inc"
      using w by (auto simp: placed_def)
    have "0 < ?h" "?inc < ?h"
      using p(2) inc unfolding meta_units_eq(1) by linarith+
    then have "mr_tail r + meta_units > p"
      using assms(4) unfolding p(1) meta_units_eq(1) by linarith
    moreover have "p mod meta_units = 0"
      unfolding p(1) by (rule next_lap)
    ultimately show ?thesis
      using \<open>?inc < ?h\<close> assms(4) by (simp add: meta_room_def)
  qed
  then show ?thesis
    by (simp add: meta_fill_def)
qed

theorem ring_makes_room_witness:
  "\<exists>r. ring_reach r \<and> mr_writer (meta_fill demo_frame 0 0 r) = Mw_store demo_frame 1"
proof -
  let ?r = "meta_begin demo_frame meta_ring_start"
  have w: "mr_writer ?r = Mw_wait demo_frame 0 0" "mr_tail ?r = 0" "mr_head ?r = 0"
    by (simp_all add: meta_begin_def meta_ring_start_def demo_frame meta_units_eq METABUF_SZ_def increment_def)
  have r: "ring_reach ?r"
    using ring_begin [of meta_ring_start demo_frame] quiet_start ring_reach_step demo_frame(1) by (auto simp: quiet_def)
  have "mr_writer (meta_fill demo_frame 0 (mr_tail ?r) ?r) = Mw_store demo_frame (0 + increment (frame_sz demo_frame))"
    by (rule ring_makes_room [OF r w(1)]) (simp_all add: w demo_frame)
  then show ?thesis
    using r w(2) by (auto simp: demo_frame increment_def)
qed

text \<open>
  The bound the writer itself checks is not enough: it accepts messages of almost half the
  ring, and two of 2097073 bytes lock it. The second waits for room at the start of the ring
  although everything is read, and no step changes the state any more.
\<close>

theorem ring_large_messages_stuck:
  "\<exists>r m. ring_reach r \<and> \<not> mr_dead r \<and> frame_sz m = 2097073 \<and> mr_sent r = [m] \<and> mr_got r = [m] \<and>
     mr_writer r = Mw_wait m 65536 32768 \<and> (\<forall>r'. ring_step r r' \<longrightarrow> r' = r)"
proof -
  define m where "m = meta_frame (to_header 2097073 msg_file_spec) (replicate 2097073 0)"
  have sz: "frame_sz m = 2097073" and ok: "whole_frame m" and inc: "increment 2097073 = 32768"
    by (simp_all add: m_def frame_sz_meta_frame whole_frame_meta_frame increment_def)
  have "fits_at (mr_head meta_ring_start) m"
    by (simp add: fits_at_def ok sz inc meta_ring_start_def METABUF_SZ_def meta_units_eq)
  from run_write [OF quiet_start _ this] obtain r1 where r1: "quiet r1" "mr_sent r1 = [m]" "mr_got r1 = []"
    "mr_head r1 = 32768"
    by (auto simp: meta_ring_start_def sz inc)
  from run_read [OF r1(1), of m] obtain r2 where r2: "quiet r2" "mr_got r2 = [m]" "mr_sent r2 = [m]"
    "mr_head r2 = 32768" "mr_tail r2 = 32768"
    using r1 by auto
  let ?r = "meta_begin m r2"
  have r: "ring_reach ?r"
    using r2(1) ring_begin [of r2 m] ok ring_reach_step by (auto simp: quiet_def)
  have f: "mr_writer ?r = Mw_wait m 65536 32768" "mr_head ?r = 32768" "mr_tail ?r = 32768" "\<not> mr_dead ?r"
    "mr_ptr ?r = None" "mr_sent ?r = [m]" "mr_got ?r = [m]"
    using r2 by (simp_all add: meta_begin_def sz inc METABUF_SZ_def meta_units_def quiet_def)
  have "meta_fill m 65536 32768 ?r = ?r"
    using f by (simp add: meta_fill_def meta_room_def sz inc meta_units_eq)
  moreover have "take_frame ?r = ?r"
    using f by (simp add: take_frame_def meta_recv_def)
  ultimately have "\<forall>r'. ring_step ?r r' \<longrightarrow> r' = ?r"
    using f by (auto elim!: ring_step.cases)
  then show ?thesis
    using r f sz by blast
qed

text \<open>
  Claim C39. A new buffer loses messages: when a connection that carries data sends its farewell,
  \<open>network_recv\<close> calls \<open>meta_init\<close> for it; if messages are still unread, the next thing the Rust
  side reads in their place is an empty header of zeros.
\<close>

theorem farewell_discards:
  assumes "ring_reach r" and "mr_got r \<noteq> mr_sent r"
  shows "\<exists>p. fst (meta_recv (meta_init r)) = Some p \<and> frame_at p (mr_buf (meta_init r)) = replicate 16 0"
proof -
  obtain q where q: "ring_holds r q"
    using ring_reach_inv [OF assms(1)] by (auto simp: ring_inv_def)
  then have "q \<noteq> []"
    using assms(2) by (auto simp: ring_holds_def)
  then have lt: "mr_tail r < mr_head r"
    using q segment_le unfolding ring_holds_def by blast
  have z: "get_bytes o' n (\<lambda>_. 0) = replicate n 0" for o' n
    by (simp add: get_bytes_def map_replicate_const)
  have "replicate 4 (0 :: u8) = [0, 0, 0, 0]"
    by (simp add: numeral_eq_Suc)
  then have "replicate 4 0 \<noteq> wrap_marker" "frame_sz (replicate 4 0) = 0"
    by (simp_all add: wrap_marker_def frame_sz_def)
  then show ?thesis
    using lt by (simp add: meta_recv_def meta_init_def frame_at_def z)
qed

theorem farewell_discards_witness:
  "\<exists>r p. ring_reach r \<and> mr_sent r = [demo_frame] \<and> fst (meta_recv (meta_init r)) = Some p \<and>
     frame_at p (mr_buf (meta_init r)) \<noteq> demo_frame"
proof -
  obtain r where r: "quiet r" "mr_sent r = [demo_frame]" "mr_got r = []"
    by (rule demo_unread)
  then have reach: "ring_reach r"
    by (simp add: quiet_def)
  with farewell_discards [OF reach] r demo_frame(4) show ?thesis
    by (metis list.distinct(1))
qed

end
