(* ===== verification/Secure_Link.thy ===== *)
theory Secure_Link
  imports Meta_Ring File_Blocks
begin

text \<open>
  The encrypted connections (\<open>libdtn/src/dtn.c\<close>: \<open>network_send\<close>, \<open>network_recv\<close>, the sending part of
  \<open>submit_work\<close>; \<open>libdtn/src/engine_posix.c\<close>: the compression in \<open>file_posixsubmit\<close>). A message is a counter of
  eight bytes, the encrypted payload and a tag of 16 bytes; a payload is a block of a file behind
  a \<open>struct file_info\<close>, possibly compressed, or a metadata message.

  AES-GCM and zstd are parameters with their documented behaviour: a ciphertext is as long as
  the plaintext, the first bytes of a plaintext determine the first bytes of the ciphertext,
  decryption with the same key, nonce and additional data gives plaintext and tag back, and what was compressed is
  decompressed to the same bytes. Key, salt and the counter are the state of a connection.
\<close>

section \<open>Bytes of words\<close>

definition le_bytes :: "nat \<Rightarrow> 'a :: len word \<Rightarrow> u8 list" where
  "le_bytes n w = map (\<lambda>i. ucast (drop_bit (8 * i) w)) [0..<n]"

definition le_word :: "u8 list \<Rightarrow> 'a :: len word" where
  "le_word bs = foldr (\<lambda>b acc. ucast b OR push_bit 8 acc) bs 0"

section \<open>Parameters and state\<close>

record link_env =
  ln_enc :: "u8 list \<Rightarrow> u8 list \<Rightarrow> u8 list \<Rightarrow> u8 list \<Rightarrow> u8 list \<times> u8 list"
  ln_dec :: "u8 list \<Rightarrow> u8 list \<Rightarrow> u8 list \<Rightarrow> u8 list \<Rightarrow> u8 list \<times> u8 list"
  ln_zc :: "u8 list \<Rightarrow> u8 list"
  ln_zd :: "nat \<Rightarrow> u8 list \<Rightarrow> u8 list option"
  ln_compression :: bool
  ln_block :: nat

definition gcm_laws :: "link_env \<Rightarrow> bool" where
  "gcm_laws L \<longleftrightarrow>
     (\<forall>k n a p. length (fst (ln_enc L k n a p)) = length p \<and> length (snd (ln_enc L k n a p)) = 16 \<and>
        ln_dec L k n a (fst (ln_enc L k n a p)) = (p, snd (ln_enc L k n a p))) \<and>
     (\<forall>k n a p q. take (length p) (fst (ln_enc L k n a (p @ q))) = fst (ln_enc L k n a p))"

definition zstd_block_laws :: "link_env \<Rightarrow> bool" where
  "zstd_block_laws L \<longleftrightarrow> (\<forall>d. ln_zc L d \<noteq> [] \<longrightarrow> length d \<le> ln_block L \<longrightarrow> ln_zd L (ln_block L) (ln_zc L d) = Some d)"

text \<open>
  \<open>struct network_obj\<close>, with the message that is being encrypted: its additional data and the
  plaintext so far. \<open>no_did_header\<close> is the static variable of \<open>network_send\<close>.
\<close>

record network_obj =
  no_key :: "u8 list"
  no_salt :: "u8 list"
  no_incr :: u64
  no_server :: bool
  no_did_header :: bool
  no_plain :: "u8 list"

text \<open>
  The first twelve bytes of \<open>iv\<close>: the structure in the union is not packed, so \<open>iv_incr\<close> starts at byte 8
  and only its lower half is in the nonce.
\<close>

definition nonce :: "u8 list \<Rightarrow> u64 \<Rightarrow> u8 list" where
  "nonce salt incr = salt @ replicate 4 0 @ le_bytes 4 incr"

definition IS_RECEIVER :: u64 where "IS_RECEIVER = push_bit 63 1"
definition IS_FIHDR_SHORT :: u64 where "IS_FIHDR_SHORT = push_bit 62 1"
definition FIO_COMPRESS_MARGIN :: nat where "FIO_COMPRESS_MARGIN = 256 * 1024"

section \<open>Setting up a connection\<close>

text \<open>
  \<open>network_inittx\<close> and \<open>network_initrx\<close> of an encrypted session: the sender draws a key and a salt of together 20
  bytes and sends them encrypted under the key of the session, with a nonce from the session
  number and a global counter. The parameters are the key of the session, its number, the value of the
  counter and the random bytes.
\<close>

definition FIHDR_CINIT :: u16 where "FIHDR_CINIT = 1"

definition session_hdr_sz :: u16 where "session_hdr_sz = 52"

definition init_nonce :: "u32 \<Rightarrow> u64 \<Rightarrow> u8 list" where
  "init_nonce session_id cnt = le_bytes 4 session_id @ le_bytes 8 cnt"

definition network_inittx :: "link_env \<Rightarrow> bool \<Rightarrow> u8 list \<Rightarrow> u32 \<Rightarrow> u64 \<Rightarrow> u8 list \<Rightarrow> u8 list \<times> network_obj" where
  "network_inittx L server master session_id cnt rnd =
     (let iv = init_nonce session_id cnt;
          hdr = le_bytes 2 FIHDR_CINIT @ le_bytes 2 session_hdr_sz @ iv;
          (c, hash) = ln_enc L master iv hdr rnd
      in (hdr @ c @ hash,
          \<lparr>no_key = take 16 rnd, no_salt = drop 16 rnd, no_incr = 0, no_server = server, no_did_header = False,
           no_plain = []\<rparr>))"

definition network_initrx :: "link_env \<Rightarrow> bool \<Rightarrow> u8 list \<Rightarrow> u8 list \<Rightarrow> (network_obj \<times> u8 list) outcome" where
  "network_initrx L server master sock =
     (case read_exact 16 sock of
        None \<Rightarrow> Exited (-1)
      | Some (hdr, s1) \<Rightarrow>
          if (le_word (take 2 (drop 2 hdr)) :: u16) \<noteq> session_hdr_sz then Exited (-1)
          else
            (case read_exact 36 s1 of
               None \<Rightarrow> Exited (-1)
             | Some (body, s2) \<Rightarrow>
                 let (key, hash) = ln_dec L master (drop 4 hdr) hdr (take 20 body)
                 in if hash \<noteq> drop 20 body then Exited (-1)
                    else Done (\<lparr>no_key = take 16 key, no_salt = drop 16 key, no_incr = 0, no_server = server,
                                no_did_header = False, no_plain = []\<rparr>, s2)))"

section \<open>Sending\<close>

definition next_iv :: "bool \<Rightarrow> network_obj \<Rightarrow> u64" where
  "next_iv short knob =
     (let a = (if no_server knob then no_incr knob OR IS_RECEIVER else no_incr knob)
      in (if short then a OR IS_FIHDR_SHORT else a AND NOT IS_FIHDR_SHORT) + 1)"

text \<open>
  \<open>network_send\<close> with the results of \<open>write_fixed\<close> as a parameter: what it returns, the buffers it has given
  to \<open>write\<close>, and the state. Its results are kept in unsigned variables.
\<close>

definition send_body :: "link_env \<Rightarrow> (u8 list \<Rightarrow> int) \<Rightarrow> network_obj \<Rightarrow> u8 list \<Rightarrow> bool \<Rightarrow> u64 \<Rightarrow> u8 list list \<Rightarrow>
    int \<times> u8 list list \<times> network_obj" where
  "send_body L wr knob buf partial sent out =
     (let plain = no_plain knob @ buf;
          (c, tag) = ln_enc L (no_key knob) (nonce (no_salt knob) (no_incr knob)) (le_bytes 8 (no_incr knob)) plain;
          piece = drop (length (no_plain knob)) c;
          res = (word_of_int (wr piece) :: u64);
          knob1 = knob\<lparr>no_plain := plain\<rparr>
      in if res < 1 then (sint res, out @ [piece], knob1)
         else if partial then (sint (sent + res), out @ [piece], knob1)
         else
           let res2 = res + word_of_int (wr tag)
           in if res2 < 1 then (sint res2, out @ [piece, tag], knob1)
              else (sint (sent + res + res2), out @ [piece, tag], knob1\<lparr>no_did_header := False\<rparr>))"

definition network_send :: "link_env \<Rightarrow> (u8 list \<Rightarrow> int) \<Rightarrow> network_obj \<Rightarrow> u8 list \<Rightarrow> bool \<Rightarrow> bool \<Rightarrow>
    (int \<times> u8 list list \<times> network_obj) outcome" where
  "network_send L wr knob buf partial short =
     (if no_did_header knob then Done (send_body L wr knob buf partial 0 [])
      else
        let iv = next_iv short knob;
            knob1 = knob\<lparr>no_incr := iv, no_did_header := True, no_plain := []\<rparr>;
            sent = (word_of_int (wr (le_bytes 8 iv)) :: u64)
        in if bit iv 61 then Exited (-1)
           else if sent < 8 then Done (-1, [le_bytes 8 iv], knob1)
           else Done (send_body L wr knob1 buf partial sent [le_bytes 8 iv]))"

text \<open>A payload in two pieces, as all callers send it; \<open>VRFY\<close> ends the program unless both returned more than 0.\<close>

definition send_two :: "link_env \<Rightarrow> (u8 list \<Rightarrow> int) \<Rightarrow> network_obj \<Rightarrow> u8 list \<Rightarrow> u8 list \<Rightarrow> bool \<Rightarrow>
    (u8 list list \<times> network_obj) outcome" where
  "send_two L wr knob hdr buf short =
     bind_outcome (network_send L wr knob hdr True short)
       (\<lambda>(r1, out1, knob1).
          if \<not> r1 > 0 then Exited (-1)
          else bind_outcome (network_send L wr knob1 buf False short)
            (\<lambda>(r2, out2, knob2). if \<not> r2 > 0 then Exited (-1) else Done (out1 @ out2, knob2)))"

definition file_info_bytes :: "u64 \<Rightarrow> u64 \<Rightarrow> u32 \<Rightarrow> u8 list" where
  "file_info_bytes offset file_no sz = le_bytes 8 offset @ le_bytes 8 file_no @ le_bytes 4 sz"

definition compress_block :: "link_env \<Rightarrow> u8 list \<Rightarrow> u8 list option" where
  "compress_block L d =
     (let z = ln_zc L d in if ln_compression L \<and> z \<noteq> [] \<and> length z < length d then Some z else None)"

definition submit_block :: "link_env \<Rightarrow> (u8 list \<Rightarrow> int) \<Rightarrow> network_obj \<Rightarrow> file_block \<Rightarrow>
    (u8 list list \<times> network_obj) outcome" where
  "submit_block L wr knob b =
     (case compress_block L (fb_data b) of
        Some z \<Rightarrow> send_two L wr knob
          (file_info_bytes (fb_offset b) (fb_file_no b) (of_nat (length z) OR push_bit 31 1)) z True
      | None \<Rightarrow> send_two L wr knob
          (file_info_bytes (fb_offset b) (fb_file_no b) (of_nat (length (fb_data b)))) (fb_data b) True)"

text \<open>\<open>meta_send\<close>: the first six bytes of the header, padded, and the message; no message for a keepalive.\<close>

definition meta_send :: "link_env \<Rightarrow> (u8 list \<Rightarrow> int) \<Rightarrow> network_obj \<Rightarrow> u8 list \<Rightarrow> u8 list option \<Rightarrow>
    (u8 list list \<times> network_obj) outcome" where
  "meta_send L wr knob hdr buf =
     (let b = take 6 hdr @ replicate 10 0
      in case buf of
           Some d \<Rightarrow> if \<not> length d \<le> 1024 * 1024 then Exited (-1) else send_two L wr knob b d False
         | None \<Rightarrow>
             bind_outcome (network_send L wr knob b False False)
               (\<lambda>(r, out, knob1). if \<not> r > 0 then Exited (-1) else Done (out, knob1)))"

text \<open>What goes over a connection, and what arrives.\<close>

datatype link_msg = Lm_block file_block | Lm_meta u16 "u8 list"

fun send_msg :: "link_env \<Rightarrow> (u8 list \<Rightarrow> int) \<Rightarrow> network_obj \<Rightarrow> link_msg \<Rightarrow> (u8 list list \<times> network_obj) outcome" where
  "send_msg L wr knob (Lm_block b) = submit_block L wr knob b"
| "send_msg L wr knob (Lm_meta t d) =
     meta_send L wr knob (to_header (of_nat (length d)) t) (if d = [] then None else Some d)"

fun send_msgs :: "link_env \<Rightarrow> (u8 list \<Rightarrow> int) \<Rightarrow> network_obj \<Rightarrow> link_msg list \<Rightarrow> (u8 list list \<times> network_obj) outcome" where
  "send_msgs L wr knob [] = Done ([], knob)"
| "send_msgs L wr knob (m # ms) =
     bind_outcome (send_msg L wr knob m)
       (\<lambda>(out, knob1). bind_outcome (send_msgs L wr knob1 ms) (\<lambda>(outs, knob2). Done (out @ outs, knob2)))"

section \<open>Receiving\<close>

text \<open>\<open>Recv_overrun\<close>: the buffer of the block is written outside its bounds.\<close>

datatype recv_result =
    Recv_closed
  | Recv_block file_block
  | Recv_meta "u8 list"
  | Recv_overrun

definition recv_tag :: "link_env \<Rightarrow> network_obj \<Rightarrow> u64 \<Rightarrow> u8 list \<Rightarrow> u8 list \<Rightarrow> recv_result \<Rightarrow>
    (recv_result \<times> u8 list) outcome" where
  "recv_tag L knob iv c sock r =
     (case read_exact 16 sock of
        None \<Rightarrow> Exited (-1)
      | Some (tag, rest) \<Rightarrow>
          if snd (ln_dec L (no_key knob) (nonce (no_salt knob) iv) (le_bytes 8 iv) c) = tag then Done (r, rest)
          else Exited (-1))"

text \<open>The allocation of a buffer is twice the block size when the session compresses.\<close>

definition overruns :: "link_env \<Rightarrow> nat \<Rightarrow> bool" where
  "overruns L n \<longleftrightarrow>
     n > ln_block L + FIO_COMPRESS_MARGIN \<or>
     ln_block L + FIO_COMPRESS_MARGIN > (if ln_compression L then 2 * ln_block L else ln_block L)"

definition recv_block_data :: "link_env \<Rightarrow> network_obj \<Rightarrow> u64 \<Rightarrow> u8 list \<Rightarrow> (recv_result \<times> u8 list) outcome" where
  "recv_block_data L knob iv sock =
     (let dec = \<lambda>c. fst (ln_dec L (no_key knob) (nonce (no_salt knob) iv) (le_bytes 8 iv) c)
      in case read_exact 20 sock of
           None \<Rightarrow> Exited (-1)
         | Some (c1, s1) \<Rightarrow>
             let fi = dec c1; off = le_word (take 8 fi); f = le_word (take 8 (drop 8 fi));
                 sz = (le_word (drop 16 fi) :: u32)
             in if bit sz 31 then
                  let n = unat (take_bit 31 sz)
                  in if overruns L n then Done (Recv_overrun, s1)
                     else
                       (case read_exact n s1 of
                          None \<Rightarrow> Done (Recv_closed, s1)
                        | Some (c2, s2) \<Rightarrow>
                            (case ln_zd L (ln_block L) (drop 20 (dec (c1 @ c2))) of
                               None \<Rightarrow> Exited (-1)
                             | Some d \<Rightarrow> recv_tag L knob iv (c1 @ c2) s2
                                 (Recv_block \<lparr>fb_file_no = f, fb_offset = off, fb_data = d\<rparr>)))
                else if \<not> unat sz \<le> ln_block L then Exited (-1)
                else
                  (case read_exact (unat sz) s1 of
                     None \<Rightarrow> Exited (-1)
                   | Some (c2, s2) \<Rightarrow>
                       recv_tag L knob iv (c1 @ c2) s2
                         (Recv_block \<lparr>fb_file_no = f, fb_offset = off, fb_data = drop 20 (dec (c1 @ c2))\<rparr>)))"

definition recv_meta :: "link_env \<Rightarrow> network_obj \<Rightarrow> u64 \<Rightarrow> u8 list \<Rightarrow> (recv_result \<times> u8 list) outcome" where
  "recv_meta L knob iv sock =
     (let dec = \<lambda>c. fst (ln_dec L (no_key knob) (nonce (no_salt knob) iv) (le_bytes 8 iv) c)
      in case read_exact 16 sock of
           None \<Rightarrow> Exited (-1)
         | Some (c1, s1) \<Rightarrow>
             let sz = frame_sz (dec c1)
             in if \<not> sz < METABUF_SZ div 2 then Exited (-1)
                else
                  (case read_exact sz s1 of
                     None \<Rightarrow> Exited (-1)
                   | Some (c2, s2) \<Rightarrow> recv_tag L knob iv (c1 @ c2) s2 (Recv_meta (dec (c1 @ c2)))))"

text \<open>The counter in front of a message becomes that of the connection, also for what is sent back on it.\<close>

definition network_recv :: "link_env \<Rightarrow> network_obj \<Rightarrow> u8 list \<Rightarrow> (recv_result \<times> network_obj \<times> u8 list) outcome" where
  "network_recv L knob sock =
     (case read_exact 8 sock of
        None \<Rightarrow> Done (Recv_closed, knob, sock)
      | Some (aad, s1) \<Rightarrow>
          let iv = (le_word aad :: u64); knob1 = knob\<lparr>no_incr := iv\<rparr>
          in bind_outcome (if bit iv 62 then recv_block_data L knob1 iv s1 else recv_meta L knob1 iv s1)
               (\<lambda>(r, s2). Done (r, knob1, s2)))"

fun recv_msgs :: "link_env \<Rightarrow> network_obj \<Rightarrow> nat \<Rightarrow> u8 list \<Rightarrow> (recv_result list \<times> network_obj \<times> u8 list) outcome" where
  "recv_msgs L knob 0 sock = Done ([], knob, sock)"
| "recv_msgs L knob (Suc n) sock =
     bind_outcome (network_recv L knob sock)
       (\<lambda>(r, knob1, s1). bind_outcome (recv_msgs L knob1 n s1) (\<lambda>(rs, knob2, s2). Done (r # rs, knob2, s2)))"

fun arrival_of :: "link_msg \<Rightarrow> recv_result" where
  "arrival_of (Lm_block b) = Recv_block b"
| "arrival_of (Lm_meta t d) = Recv_meta (meta_frame (to_header (of_nat (length d)) t) d)"

text \<open>The sizes the callers keep: blocks are not empty and not longer than the block size, which is at least 256 KiB when blocks are compressed.\<close>

definition link_ok :: "link_env \<Rightarrow> bool" where
  "link_ok L \<longleftrightarrow> (ln_compression L \<longrightarrow> FIO_COMPRESS_MARGIN \<le> ln_block L) \<and> ln_block L < 2 ^ 31"

fun msg_ok :: "link_env \<Rightarrow> link_msg \<Rightarrow> bool" where
  "msg_ok L (Lm_block b) = (fb_data b \<noteq> [] \<and> length (fb_data b) \<le> ln_block L)"
| "msg_ok L (Lm_meta t d) = (length d \<le> 1024 * 1024)"

section \<open>Words\<close>

lemma le_bytes_Suc: "le_bytes (Suc n) (w :: 'a :: len word) = ucast w # le_bytes n (drop_bit 8 w)"
  by (simp add: le_bytes_def upt_conv_Cons map_Suc_upt [symmetric] comp_def algebra_simps del: upt_Suc)

lemma length_le_bytes [simp]: "length (le_bytes n w) = n"
  by (simp add: le_bytes_def)

lemma le_word_le_bytes: "le_word (le_bytes n (w :: 'a :: len word)) = take_bit (8 * n) w"
proof (induction n arbitrary: w)
  case 0
  then show ?case
    by (simp add: le_bytes_def le_word_def)
next
  case (Suc n)
  have "le_word (le_bytes (Suc n) w) = ucast (ucast w :: u8) OR push_bit 8 (take_bit (8 * n) (drop_bit 8 w))"
    using Suc [of "drop_bit 8 w"] by (simp add: le_bytes_Suc le_word_def)
  also have "\<dots> = take_bit (8 * Suc n) w"
    by (rule bit_eqI) (auto simp: bit_or_iff bit_push_bit_iff bit_take_bit_iff bit_drop_bit_eq bit_ucast_iff
        dest: bit_imp_le_length)
  finally show ?case .
qed

lemma le_bytes_le_word:
  assumes "length bs = 8"
  shows "le_bytes 8 (le_word bs :: u64) = bs"
proof -
  have "le_bytes n (le_word bs :: u64) = bs" if "length bs = n" "8 * n \<le> 64" for n and bs :: "u8 list"
    using that
  proof (induction n arbitrary: bs)
    case (Suc n)
    then obtain b cs where bs: "bs = b # cs" "length cs = n"
      by (cases bs) auto
    have lw: "le_word bs = ucast b OR push_bit 8 (le_word cs :: u64)"
      by (simp add: bs le_word_def)
    have "take_bit (8 * n) (le_word cs :: u64) = le_word cs"
      using Suc.IH [OF bs(2)] Suc.prems(2) le_word_le_bytes [of n "le_word cs :: u64"] by simp
    then have "bit (le_word cs :: u64) m \<Longrightarrow> m < 8 * n" for m
      by (metis bit_take_bit_iff)
    then have small: "bit (le_word cs :: u64) m \<Longrightarrow> m < 56" for m
      using Suc.prems(2) by fastforce
    have "ucast (le_word bs :: u64) = b"
      by (rule bit_eqI) (auto simp: lw bit_simps)
    moreover have "drop_bit 8 (le_word bs :: u64) = le_word cs"
      by (rule bit_eqI) (auto simp: lw bit_simps dest: small bit_imp_le_length)
    ultimately show ?case
      using Suc.IH [OF bs(2)] Suc.prems(2) by (simp add: le_bytes_Suc bs)
  qed (simp add: le_bytes_def)
  from this [OF assms] show ?thesis
    by simp
qed

lemma le_word_u64 [simp]: "le_word (le_bytes 8 (w :: u64)) = w"
  using le_word_le_bytes [of 8 w] by (simp add: take_bit_word_eq_self)

lemma le_word_u16 [simp]: "le_word (le_bytes 2 (w :: u16)) = w"
  using le_word_le_bytes [of 2 w] by (simp add: take_bit_word_eq_self)

lemma le_word_u32 [simp]: "le_word (le_bytes 4 (w :: u32)) = w"
  using le_word_le_bytes [of 4 w] by (simp add: take_bit_word_eq_self)

text \<open>The counter in the lower 61 bits; the bits above are not touched while it does not overflow.\<close>

definition iv_count :: "u64 \<Rightarrow> nat" where
  "iv_count x = unat x mod 2 ^ 61"

lemma iv_count_eq: "take_bit 61 x = take_bit 61 y \<Longrightarrow> iv_count x = iv_count y"
  unfolding iv_count_def take_bit_eq_mod [symmetric] unsigned_take_bit_eq [symmetric] by simp

lemma iv_add1:
  assumes "iv_count x + 1 < 2 ^ 61"
  shows "iv_count (x + 1) = iv_count x + 1" and "61 \<le> n \<Longrightarrow> bit (x + 1) n = bit x n"
proof -
  have lt: "unat x mod 2 ^ 61 + 1 < 2 ^ 61"
    using assms by (simp add: iv_count_def)
  have "unat x < 2 ^ 64"
    using unsigned_less [of x] by simp
  moreover have "unat x \<noteq> 2 ^ 64 - 1"
    using lt by auto
  ultimately have "unat x + 1 < 2 ^ 64"
    by simp
  then have u: "unat (x + 1) = unat x + 1"
    by (simp add: unat_word_ariths)
  then show "iv_count (x + 1) = iv_count x + 1"
    using lt by (simp add: iv_count_def mod_Suc)
  have "(unat x + 1) div 2 ^ 61 = unat x div 2 ^ 61"
    using lt by (simp add: div_Suc mod_Suc)
  then have "drop_bit 61 (unat (x + 1)) = drop_bit 61 (unat x)"
    by (simp add: u drop_bit_eq_div)
  then have "drop_bit 61 (x + 1) = drop_bit 61 x"
    by (simp add: word_unat_eq_iff unat_drop_bit_eq)
  then have "bit (drop_bit 61 (x + 1)) (n - 61) = bit (drop_bit 61 x) (n - 61)"
    by simp
  then show "bit (x + 1) n = bit x n" if "61 \<le> n"
    using that by (simp add: bit_drop_bit_eq)
qed

text \<open>A connection that can send \<open>n\<close> more messages.\<close>

definition iv_left :: "nat \<Rightarrow> network_obj \<Rightarrow> bool" where
  "iv_left n knob \<longleftrightarrow> \<not> bit (no_incr knob) 61 \<and> iv_count (no_incr knob) + n < 2 ^ 61 \<and> \<not> no_did_header knob"

lemma flag_bits [simp]: "bit IS_RECEIVER n \<longleftrightarrow> n = 63" "bit IS_FIHDR_SHORT n \<longleftrightarrow> n = 62"
  unfolding IS_RECEIVER_def IS_FIHDR_SHORT_def bit_push_bit_iff by (auto simp: bit_1_iff)

lemma next_iv:
  assumes "iv_left (Suc n) knob"
  shows "\<not> bit (next_iv short knob) 61" and "bit (next_iv short knob) 62 = short"
    and "iv_count (next_iv short knob) = iv_count (no_incr knob) + 1"
proof -
  let ?a = "if no_server knob then no_incr knob OR IS_RECEIVER else no_incr knob"
  let ?b = "if short then ?a OR IS_FIHDR_SHORT else ?a AND NOT IS_FIHDR_SHORT"
  have "take_bit 61 ?b = take_bit 61 (no_incr knob)"
    by (rule bit_eqI) (auto simp: bit_take_bit_iff bit_or_iff bit_and_iff bit_not_iff)
  then have c: "iv_count ?b = iv_count (no_incr knob)"
    by (rule iv_count_eq)
  have bits: "bit ?b 61 = bit (no_incr knob) 61" "bit ?b 62 = short"
    by (auto simp: bit_or_iff bit_and_iff bit_not_iff)
  have lt: "iv_count ?b + 1 < 2 ^ 61"
    using assms c by (simp add: iv_left_def)
  have e: "next_iv short knob = ?b + 1"
    by (simp add: next_iv_def Let_def)
  show "\<not> bit (next_iv short knob) 61" "bit (next_iv short knob) 62 = short"
    unfolding e using iv_add1(2) [OF lt] bits assms by (simp_all add: iv_left_def)
  show "iv_count (next_iv short knob) = iv_count (no_incr knob) + 1"
    unfolding e using iv_add1(1) [OF lt] c by simp
qed

section \<open>A message through a connection\<close>

definition full_writes :: "(u8 list \<Rightarrow> int) \<Rightarrow> bool" where
  "full_writes wr \<longleftrightarrow> (\<forall>bs. wr bs = int (length bs))"

lemma of_nat_ge_1: "0 < n \<Longrightarrow> n < 2 ^ 63 \<Longrightarrow> \<not> (of_nat n :: u64) < 1"
  by (simp add: word_less_nat_alt unat_of_nat take_bit_nat_eq_self)

text \<open>The bytes of a message with payload \<open>p\<close>.\<close>

definition wire_frame :: "link_env \<Rightarrow> network_obj \<Rightarrow> u64 \<Rightarrow> u8 list \<Rightarrow> u8 list" where
  "wire_frame L knob iv p =
     (let (c, tag) = ln_enc L (no_key knob) (nonce (no_salt knob) iv) (le_bytes 8 iv) p in le_bytes 8 iv @ c @ tag)"

lemma send_two_wire:
  assumes "gcm_laws L" and "full_writes wr" and "iv_left (Suc n) knob" and "hdr \<noteq> []" and "buf \<noteq> []"
    and "length hdr + length buf < 2 ^ 32"
  obtains out where
    "send_two L wr knob hdr buf short =
       Done (out, knob\<lparr>no_incr := next_iv short knob, no_did_header := False, no_plain := hdr @ buf\<rparr>)"
    and "concat out = wire_frame L knob (next_iv short knob) (hdr @ buf)"
proof -
  let ?iv = "next_iv short knob" and ?E = "\<lambda>p. ln_enc L (no_key knob) (nonce (no_salt knob) (next_iv short knob))
    (le_bytes 8 (next_iv short knob)) p"
  let ?k = "\<lambda>d p. knob\<lparr>no_incr := ?iv, no_did_header := d, no_plain := p\<rparr>"
  have len: "length (fst (?E p)) = length p" "length (snd (?E p)) = 16" for p
    using assms(1) by (simp_all add: gcm_laws_def)
  have pre: "take (length hdr) (fst (?E (hdr @ buf))) = fst (?E hdr)"
    using assms(1) by (simp add: gcm_laws_def)
  have wr: "wr bs = int (length bs)" for bs
    using assms(2) by (simp add: full_writes_def)
  have h: "0 < length hdr" "length hdr < 2 ^ 63" "0 < length buf" "length buf < 2 ^ 63"
    "length buf + 16 < 2 ^ 63" "8 + length hdr < 2 ^ 63" "length buf + (length buf + 16) < 2 ^ 63"
    using assms(4-6) by (auto simp: length_greater_0_conv)
  have s1: "send_body L wr (?k True []) hdr True 8 [le_bytes 8 ?iv] =
      (int (8 + length hdr), [le_bytes 8 ?iv, fst (?E hdr)], ?k True hdr)"
    using of_nat_ge_1 [OF h(1,2)] u64_as_i64_of_nat [OF h(6)]
    by (simp add: send_body_def Let_def case_prod_beta len wr u64_as_i64_def)
  have "network_send L wr knob hdr True short = Done (int (8 + length hdr), [le_bytes 8 ?iv, fst (?E hdr)], ?k True hdr)"
    using assms(3) next_iv(1) [OF assms(3), of short] s1 by (simp add: network_send_def iv_left_def Let_def wr)
  moreover have "send_body L wr (?k True hdr) buf False 0 [] =
      (int (length buf + (length buf + 16)), [drop (length hdr) (fst (?E (hdr @ buf))), snd (?E (hdr @ buf))], ?k False (hdr @ buf))"
    using of_nat_ge_1 [OF h(3,4)] of_nat_ge_1 [OF _ h(5)] u64_as_i64_of_nat [OF h(7)]
    by (simp add: send_body_def Let_def case_prod_beta len wr u64_as_i64_def)
  then have "network_send L wr (?k True hdr) buf False short =
      Done (int (length buf + (length buf + 16)), [drop (length hdr) (fst (?E (hdr @ buf))), snd (?E (hdr @ buf))], ?k False (hdr @ buf))"
    by (simp add: network_send_def)
  ultimately have "send_two L wr knob hdr buf short =
      Done ([le_bytes 8 ?iv, fst (?E hdr), drop (length hdr) (fst (?E (hdr @ buf))), snd (?E (hdr @ buf))], ?k False (hdr @ buf))"
    using h by (simp add: send_two_def)
  moreover have "fst (?E hdr) @ drop (length hdr) (fst (?E (hdr @ buf))) = fst (?E (hdr @ buf))"
    unfolding pre [symmetric] by simp
  then have "concat [le_bytes 8 ?iv, fst (?E hdr), drop (length hdr) (fst (?E (hdr @ buf))), snd (?E (hdr @ buf))]
      = wire_frame L knob ?iv (hdr @ buf)"
    by (simp add: wire_frame_def case_prod_beta append_assoc [symmetric] del: append_assoc)
  ultimately show ?thesis
    by (rule that)
qed

lemma send_one_wire:
  assumes "gcm_laws L" and "full_writes wr" and "iv_left (Suc n) knob" and "p \<noteq> []" and "length p < 2 ^ 32"
  shows "\<exists>r out. network_send L wr knob p False short =
       Done (r, out, knob\<lparr>no_incr := next_iv short knob, no_did_header := False, no_plain := p\<rparr>) \<and> r > 0 \<and>
     concat out = wire_frame L knob (next_iv short knob) p"
proof -
  let ?iv = "next_iv short knob" and ?E = "ln_enc L (no_key knob) (nonce (no_salt knob) (next_iv short knob))
    (le_bytes 8 (next_iv short knob)) p"
  have len: "length (fst ?E) = length p" "length (snd ?E) = 16"
    using assms(1) by (simp_all add: gcm_laws_def)
  have wr: "wr bs = int (length bs)" for bs
    using assms(2) by (simp add: full_writes_def)
  have h: "0 < length p" "length p < 2 ^ 63" "length p + 16 < 2 ^ 63" "8 + length p + (length p + 16) < 2 ^ 63"
    using assms(4,5) by (auto simp: length_greater_0_conv)
  have "send_body L wr (knob\<lparr>no_incr := ?iv, no_did_header := True, no_plain := []\<rparr>) p False 8 [le_bytes 8 ?iv] =
      (int (8 + length p + (length p + 16)), [le_bytes 8 ?iv, fst ?E, snd ?E],
       knob\<lparr>no_incr := ?iv, no_did_header := False, no_plain := p\<rparr>)"
    using of_nat_ge_1 [OF h(1,2)] of_nat_ge_1 [OF _ h(3)] u64_as_i64_of_nat [OF h(4)]
    by (simp add: send_body_def Let_def case_prod_beta len wr u64_as_i64_def)
  then show ?thesis
    using assms(3) next_iv(1) [OF assms(3), of short]
    by (simp add: network_send_def iv_left_def Let_def wr wire_frame_def case_prod_beta)
qed

section \<open>Reading it back\<close>

text \<open>Two ends of a connection.\<close>

definition same_keys :: "network_obj \<Rightarrow> network_obj \<Rightarrow> bool" where
  "same_keys a b \<longleftrightarrow> no_key a = no_key b \<and> no_salt a = no_salt b"

definition linked :: "link_env \<Rightarrow> network_obj \<Rightarrow> network_obj \<Rightarrow> bool" where
  "linked L tk rk \<longleftrightarrow> gcm_laws L \<and> same_keys tk rk"

definition crypt :: "link_env \<Rightarrow> network_obj \<Rightarrow> u64 \<Rightarrow> u8 list \<Rightarrow> u8 list" where
  "crypt L k iv p = fst (ln_enc L (no_key k) (nonce (no_salt k) iv) (le_bytes 8 iv) p)"

definition tag_of :: "link_env \<Rightarrow> network_obj \<Rightarrow> u64 \<Rightarrow> u8 list \<Rightarrow> u8 list" where
  "tag_of L k iv p = snd (ln_enc L (no_key k) (nonce (no_salt k) iv) (le_bytes 8 iv) p)"

lemma wire_eq: "wire_frame L k iv p = le_bytes 8 iv @ crypt L k iv p @ tag_of L k iv p"
  by (simp add: wire_frame_def crypt_def tag_of_def case_prod_beta)

lemma crypt_lengths: "gcm_laws L \<Longrightarrow> length (crypt L k iv p) = length p" "gcm_laws L \<Longrightarrow> length (tag_of L k iv p) = 16"
  by (simp_all add: gcm_laws_def crypt_def tag_of_def)

lemma decrypt:
  "linked L k r \<Longrightarrow> ln_dec L (no_key r) (nonce (no_salt r) iv) (le_bytes 8 iv) (crypt L k iv p) = (p, tag_of L k iv p)"
  by (simp add: linked_def gcm_laws_def crypt_def tag_of_def same_keys_def)

lemma crypt_pieces:
  assumes "gcm_laws L"
  shows "crypt L k iv p @ drop (length p) (crypt L k iv (p @ q)) = crypt L k iv (p @ q)"
proof -
  have "take (length p) (crypt L k iv (p @ q)) = crypt L k iv p"
    using assms by (simp add: gcm_laws_def crypt_def)
  then show ?thesis
    by (metis append_take_drop_id)
qed

lemma read_pieces:
  assumes "gcm_laws L" and "length p = n"
  shows "read_exact n (crypt L k iv (p @ q) @ s) = Some (crypt L k iv p, drop n (crypt L k iv (p @ q)) @ s)"
    and "length q = m \<Longrightarrow> read_exact m (drop n (crypt L k iv (p @ q)) @ s) = Some (drop n (crypt L k iv (p @ q)), s)"
proof -
  have "crypt L k iv (p @ q) @ s = crypt L k iv p @ drop n (crypt L k iv (p @ q)) @ s"
    using crypt_pieces [OF assms(1), of k iv p q] assms(2) by simp
  then show "read_exact n (crypt L k iv (p @ q) @ s) = Some (crypt L k iv p, drop n (crypt L k iv (p @ q)) @ s)"
    using crypt_lengths(1) [OF assms(1)] assms(2) by (metis read_exact_append)
  show "read_exact m (drop n (crypt L k iv (p @ q)) @ s) = Some (drop n (crypt L k iv (p @ q)), s)" if "length q = m"
    by (rule read_exact_append) (simp add: crypt_lengths(1) [OF assms(1)] assms(2) that)
qed

lemma tag_ok:
  assumes "linked L k r"
  shows "recv_tag L r iv (crypt L k iv p) (tag_of L k iv p @ rest) x = Done (x, rest)"
  using assms crypt_lengths(2) [of L k iv p] decrypt [OF assms] by (simp add: recv_tag_def linked_def)

lemma recv_head:
  "network_recv L r (wire_frame L k iv p @ rest) =
   bind_outcome (if bit iv 62 then recv_block_data L (r\<lparr>no_incr := iv\<rparr>) iv (crypt L k iv p @ tag_of L k iv p @ rest)
     else recv_meta L (r\<lparr>no_incr := iv\<rparr>) iv (crypt L k iv p @ tag_of L k iv p @ rest))
     (\<lambda>(x, s2). Done (x, r\<lparr>no_incr := iv\<rparr>, s2))"
  by (simp add: network_recv_def wire_eq Let_def)

lemma recv_meta_wire:
  assumes "linked L k r" and "length h = 16" and "frame_sz h = length d" and "length d < METABUF_SZ div 2"
  shows "recv_meta L r iv (crypt L k iv (h @ d) @ tag_of L k iv (h @ d) @ rest) = Done (Recv_meta (h @ d), rest)"
proof -
  have g: "gcm_laws L"
    using assms(1) by (simp add: linked_def)
  show ?thesis
    using read_pieces(1) [OF g assms(2), where q = d] read_pieces(2) [OF g assms(2) refl, where q = d]
      crypt_pieces [OF g, of k iv h d] tag_ok [OF assms(1), of iv "h @ d"] decrypt [OF assms(1)] assms(2-4)
    by (simp add: recv_meta_def Let_def)
qed

lemma small_top_bit: "n < 2 ^ 31 \<Longrightarrow> \<not> bit (of_nat n :: u32) 31"
  unfolding bit_of_nat_iff by (simp add: bit_iff_odd)

lemma file_info_fields:
  "length (file_info_bytes off f sz) = 20" "le_word (take 8 (file_info_bytes off f sz)) = off"
  "le_word (take 8 (drop 8 (file_info_bytes off f sz))) = f" "le_word (drop 16 (file_info_bytes off f sz)) = sz"
  by (simp_all add: file_info_bytes_def)

lemma recv_plain_wire:
  assumes "linked L k r" and "length d \<le> ln_block L" and "ln_block L < 2 ^ 31"
    and "fi = file_info_bytes off f (of_nat (length d))"
  shows "recv_block_data L r iv (crypt L k iv (fi @ d) @ tag_of L k iv (fi @ d) @ rest) =
    Done (Recv_block \<lparr>fb_file_no = f, fb_offset = off, fb_data = d\<rparr>, rest)"
proof -
  have g: "gcm_laws L"
    using assms(1) by (simp add: linked_def)
  have fi: "length fi = 20"
    by (simp add: assms(4) file_info_fields)
  have sz: "unat (of_nat (length d) :: u32) = length d" "\<not> bit (of_nat (length d) :: u32) 31"
    using assms(2,3) by (simp_all add: unat_of_nat take_bit_nat_eq_self small_top_bit)
  show ?thesis
    using read_pieces(1) [OF g fi, where q = d] read_pieces(2) [OF g fi refl, where q = d]
      crypt_pieces [OF g, of k iv fi d] tag_ok [OF assms(1), of iv "fi @ d"] decrypt [OF assms(1)] assms(2) fi sz
    by (simp add: recv_block_data_def Let_def assms(4) file_info_fields)
qed

lemma recv_compressed_wire:
  assumes "linked L k r" and "zstd_block_laws L" and "ln_compression L" and "link_ok L"
    and "length d \<le> ln_block L" and "ln_zc L d = z" and "z \<noteq> []" and "length z < length d"
    and "fi = file_info_bytes off f (of_nat (length z) OR push_bit 31 1)"
  shows "recv_block_data L r iv (crypt L k iv (fi @ z) @ tag_of L k iv (fi @ z) @ rest) =
    Done (Recv_block \<lparr>fb_file_no = f, fb_offset = off, fb_data = d\<rparr>, rest)"
proof -
  let ?sz = "of_nat (length z) OR push_bit 31 1 :: u32"
  have g: "gcm_laws L"
    using assms(1) by (simp add: linked_def)
  have fi: "length fi = 20"
    by (simp add: assms(9) file_info_fields)
  have small: "length z < 2 ^ 31"
    using assms(4,5,8) by (simp add: link_ok_def)
  have top: "bit ?sz 31"
    unfolding bit_or_iff bit_push_bit_iff by simp
  have "take_bit 31 ?sz = take_bit 31 (of_nat (length z))"
    by (rule bit_eqI) (auto simp: bit_simps)
  then have "unat (take_bit 31 ?sz) = take_bit 31 (unat (of_nat (length z) :: u32))"
    by (simp add: unsigned_take_bit_eq)
  then have sz: "unat (take_bit 31 ?sz) = length z"
    using small by (simp add: unat_of_nat take_bit_nat_eq_self)
  have ov: "\<not> overruns L (length z)"
    using assms(3,4,5,8) by (simp add: overruns_def link_ok_def)
  have zd: "ln_zd L (ln_block L) z = Some d"
    using assms(2,5,6,7) by (auto simp: zstd_block_laws_def)
  show ?thesis
    using read_pieces(1) [OF g fi, where q = z] read_pieces(2) [OF g fi refl, where q = z]
      crypt_pieces [OF g, of k iv fi z] tag_ok [OF assms(1), of iv "fi @ z"] decrypt [OF assms(1)] fi sz top ov zd
    by (simp add: recv_block_data_def Let_def assms(9) file_info_fields)
qed

text \<open>One message, from \<open>send_msg\<close> to \<open>network_recv\<close>.\<close>

lemma msg_roundtrip:
  assumes "linked L k r" and "zstd_block_laws L" and "link_ok L" and "full_writes wr" and "iv_left (Suc n) k" and "msg_ok L m"
  obtains out k' r' where "send_msg L wr k m = Done (out, k')" and "iv_left n k'" and "linked L k' r'"
    and "no_incr r' = no_incr k'" and "\<And>rest. network_recv L r (concat out @ rest) = Done (arrival_of m, r', rest)"
proof -
  have g: "gcm_laws L"
    using assms(1) by (simp add: linked_def)
  let ?iv = "\<lambda>short. next_iv short k"
  let ?k = "\<lambda>short p. k\<lparr>no_incr := ?iv short, no_did_header := False, no_plain := p\<rparr>"
  let ?r = "\<lambda>short. r\<lparr>no_incr := ?iv short\<rparr>"
  have k': "iv_left n (?k short p)" "linked L (?k short p) (?r short)" for short p
    using assms(1,5) next_iv [OF assms(5), of short] by (simp_all add: iv_left_def linked_def same_keys_def)
  have link: "linked L k (?r short)" for short
    using assms(1) by (simp add: linked_def same_keys_def)
  show thesis
  proof (cases m)
    case (Lm_block b)
    define z where "z = compress_block L (fb_data b)"
    define fi where "fi = file_info_bytes (fb_offset b) (fb_file_no b)
      (case z of Some z \<Rightarrow> of_nat (length z) OR push_bit 31 1 | None \<Rightarrow> of_nat (length (fb_data b)))"
    define body where "body = (case z of Some z \<Rightarrow> z | None \<Rightarrow> fb_data b)"
    have b: "fb_data b \<noteq> []" "length (fb_data b) \<le> ln_block L" "ln_block L < 2 ^ 31"
      using assms(3,6) Lm_block by (simp_all add: link_ok_def)
    have fi: "length fi = 20"
      by (simp add: fi_def file_info_fields)
    have body: "body \<noteq> []" "length body \<le> ln_block L"
      using b by (auto simp: body_def z_def compress_block_def Let_def)
    have send: "send_msg L wr k m = send_two L wr k fi body True"
      by (simp add: Lm_block submit_block_def fi_def body_def z_def split: option.split)
    have recv: "recv_block_data L (?r True) (?iv True) (crypt L k (?iv True) (fi @ body) @ tag_of L k (?iv True) (fi @ body) @ rest) =
        Done (Recv_block b, rest)" for rest
    proof (cases z)
      case None
      then show ?thesis
        using recv_plain_wire [OF link b(2,3), of fi "fb_offset b" "fb_file_no b"] by (simp add: fi_def body_def)
    next
      case (Some y)
      then have y: "ln_compression L" "ln_zc L (fb_data b) = y" "y \<noteq> []" "length y < length (fb_data b)"
        by (auto simp: z_def compress_block_def Let_def split: if_splits)
      then show ?thesis
        using recv_compressed_wire [OF link assms(2) y(1) assms(3) b(2) y(2-4), of fi "fb_offset b" "fb_file_no b"] Some
        by (simp add: fi_def body_def)
    qed
    have "fi \<noteq> []" "length fi + length body < 2 ^ 32"
      using fi body b(3) by auto
    from send_two_wire [OF g assms(4,5) this(1) body(1) this(2)] obtain out where
      "send_two L wr k fi body True = Done (out, ?k True (fi @ body))" "concat out = wire_frame L k (?iv True) (fi @ body)" .
    then show thesis
      using that [of out "?k True (fi @ body)" "?r True"] send k' recv next_iv(2) [OF assms(5), of True]
      by (simp add: recv_head Lm_block)
  next
    case (Lm_meta t d)
    let ?h = "take 6 (to_header (of_nat (length d)) t) @ replicate 10 0"
    have d: "length d \<le> 1024 * 1024"
      using assms(6) Lm_meta by simp
    then have sz: "unat (of_nat (length d) :: u32) = length d"
      by (simp add: unat_of_nat_length)
    have h: "length ?h = 16" "?h @ d = meta_frame (to_header (of_nat (length d)) t) d"
      by (simp_all add: meta_frame_def)
    have fs: "frame_sz ?h = length d"
      using frame_sz_meta_frame [of "of_nat (length d)" t "[]"] sz by (simp add: meta_frame_def)
    have recv: "recv_meta L (?r False) (?iv False) (crypt L k (?iv False) (?h @ d) @ tag_of L k (?iv False) (?h @ d) @ rest) =
        Done (Recv_meta (?h @ d), rest)" for rest
      by (rule recv_meta_wire [OF link h(1) fs]) (use d in \<open>simp add: METABUF_SZ_def\<close>)
    have ne: "?h \<noteq> []" "length ?h + length d < 2 ^ 32"
      using d h(1) by auto
    have "\<exists>out. send_msg L wr k m = Done (out, ?k False (?h @ d)) \<and> concat out = wire_frame L k (?iv False) (?h @ d)"
    proof (cases "d = []")
      case True
      then show ?thesis
        using send_one_wire [OF g assms(4,5) ne(1), of False] by (auto simp: Lm_meta meta_send_def)
    next
      case False
      from send_two_wire [OF g assms(4,5) ne(1) False ne(2), of False] show ?thesis
        using False d by (auto simp: Lm_meta meta_send_def Let_def)
    qed
    then obtain out where "send_msg L wr k m = Done (out, ?k False (?h @ d))"
      "concat out = wire_frame L k (?iv False) (?h @ d)"
      by blast
    then show thesis
      using that [of out "?k False (?h @ d)" "?r False"] k' recv next_iv(2) [OF assms(5), of False] h(2)
      by (simp add: recv_head Lm_meta)
  qed
qed

lemma msgs_roundtrip:
  assumes "linked L k r" and "zstd_block_laws L" and "link_ok L" and "full_writes wr" and "iv_left (length ms) k"
    and "\<forall>m \<in> set ms. msg_ok L m"
  shows "\<exists>out k' r'. send_msgs L wr k ms = Done (out, k') \<and>
    recv_msgs L r (length ms) (concat out @ rest) = Done (map arrival_of ms, r', rest) \<and> linked L k' r' \<and>
    (ms \<noteq> [] \<or> no_incr r = no_incr k \<longrightarrow> no_incr r' = no_incr k')"
  using assms(1,5,6)
proof (induction ms arbitrary: k r)
  case (Cons m ms)
  from Cons.prems have left: "iv_left (Suc (length ms)) k" and ok: "msg_ok L m"
    by simp_all
  obtain out k1 r1 where
    m: "send_msg L wr k m = Done (out, k1)" "iv_left (length ms) k1" "linked L k1 r1" "no_incr r1 = no_incr k1"
    "\<And>rest. network_recv L r (concat out @ rest) = Done (arrival_of m, r1, rest)"
    by (rule msg_roundtrip [OF Cons.prems(1) assms(2-4) left ok]) blast
  from Cons.IH [OF m(3,2)] Cons.prems(3) m(4) obtain outs k2 r2 where
    "send_msgs L wr k1 ms = Done (outs, k2)"
    "recv_msgs L r1 (length ms) (concat outs @ rest) = Done (map arrival_of ms, r2, rest)" "linked L k2 r2"
    "no_incr r2 = no_incr k2"
    by auto
  then show ?case
    using m by simp
qed simp

section \<open>Properties\<close>

text \<open>
  Claim C8. A connection carries messages faithfully: any list of blocks, compressed or not, and metadata
  messages of the sizes the program uses arrives unchanged and in order, whatever cipher and compressor
  with the documented behaviour are used, nothing is left on the connection, and the receiving end has then the
  keys and the counter of the sending end.
\<close>

theorem connection_roundtrip:
  assumes "linked L k r" and "zstd_block_laws L" and "link_ok L" and "full_writes wr" and "iv_left (length ms) k"
    and "\<forall>m \<in> set ms. msg_ok L m"
  shows "\<exists>out k' r'. send_msgs L wr k ms = Done (out, k') \<and>
    recv_msgs L r (length ms) (concat out) = Done (map arrival_of ms, r', []) \<and> linked L k' r' \<and>
    (ms \<noteq> [] \<or> no_incr r = no_incr k \<longrightarrow> no_incr r' = no_incr k')"
  using msgs_roundtrip [OF assms, of "[]"] by simp

text \<open>
  A cipher and a compressor that have the laws, to show that the hypotheses can hold: bytes are
  inverted, the tag is made of key, nonce and length, runs of zeros are compressed to one byte.
\<close>

definition toy_link :: link_env where
  "toy_link =
     \<lparr>ln_enc = (\<lambda>k n a p. (map NOT p, replicate 16 (of_nat (length p)))),
      ln_dec = (\<lambda>k n a c. (map NOT c, replicate 16 (of_nat (length c)))),
      ln_zc = (\<lambda>d. if length d = 300 \<and> d = replicate 300 0 then [7] else []),
      ln_zd = (\<lambda>n z. if z = [7] then Some (replicate 300 0) else None),
      ln_compression = True, ln_block = 262144\<rparr>"

definition toy_knob :: network_obj where
  "toy_knob = \<lparr>no_key = [], no_salt = [1, 2, 3, 4], no_incr = 0, no_server = False, no_did_header = False, no_plain = []\<rparr>"

definition toy_msgs :: "link_msg list" where
  "toy_msgs =
     [Lm_block \<lparr>fb_file_no = 5, fb_offset = 0, fb_data = replicate 300 0\<rparr>,
      Lm_block \<lparr>fb_file_no = 5, fb_offset = 262144, fb_data = [9, 8]\<rparr>, Lm_meta msg_keepalive []]"

theorem connection_roundtrip_witness:
  "\<exists>out k' r'. send_msgs toy_link (\<lambda>bs. int (length bs)) toy_knob toy_msgs = Done (out, k') \<and>
     recv_msgs toy_link toy_knob 3 (concat out) = Done (map arrival_of toy_msgs, r', []) \<and> no_incr r' = no_incr k'"
proof -
  have l: "linked toy_link toy_knob toy_knob"
    by (simp add: linked_def gcm_laws_def same_keys_def toy_link_def comp_def)
  have o: "zstd_block_laws toy_link" "link_ok toy_link" "full_writes (\<lambda>bs. int (length bs))"
    "iv_left (length toy_msgs) toy_knob" "\<forall>m \<in> set toy_msgs. msg_ok toy_link m"
    by (simp_all add: zstd_block_laws_def toy_link_def link_ok_def FIO_COMPRESS_MARGIN_def full_writes_def iv_left_def
        toy_knob_def toy_msgs_def iv_count_def)
  have "length toy_msgs = 3" "toy_msgs \<noteq> []"
    by (simp_all add: toy_msgs_def)
  then show ?thesis
    using connection_roundtrip [OF l o] by auto
qed

text \<open>
  Claim C18. The two ends agree on the key: from what \<open>network_inittx\<close> writes, \<open>network_initrx\<close> with the same session key
  takes the key and salt the sender drew, and connections with different values of the global counter
  use different nonces under the session key.
\<close>

theorem key_exchange_agrees:
  assumes "gcm_laws L" and "length rnd = 20" and "network_inittx L False master session_id cnt rnd = (wire, k)"
  shows "(\<exists>r. network_initrx L True master (wire @ rest) = Done (r, rest) \<and> linked L k r) \<and>
    (\<forall>n < 2 ^ 61. iv_left n k) \<and> (\<forall>cnt'. cnt' \<noteq> cnt \<longrightarrow> init_nonce session_id cnt' \<noteq> init_nonce session_id cnt)"
proof -
  let ?iv = "init_nonce session_id cnt" and ?hdr = "le_bytes 2 FIHDR_CINIT @ le_bytes 2 session_hdr_sz @ init_nonce session_id cnt"
  let ?c = "fst (ln_enc L master ?iv ?hdr rnd)" and ?h = "snd (ln_enc L master ?iv ?hdr rnd)"
  have w: "wire = ?hdr @ ?c @ ?h" "no_key k = take 16 rnd" "no_salt k = drop 16 rnd" "no_incr k = 0" "\<not> no_did_header k"
    using assms(3) by (auto simp: network_inittx_def Let_def case_prod_beta)
  have len: "length ?c = 20" "length ?h = 16" and dec: "ln_dec L master ?iv ?hdr ?c = (rnd, ?h)"
    using assms(1,2) by (simp_all add: gcm_laws_def)
  have hl: "length ?hdr = 16" "drop 4 ?hdr = ?iv" "le_word (take 2 (drop 2 ?hdr)) = session_hdr_sz"
    by (simp_all add: init_nonce_def)
  have "read_exact 16 (wire @ rest) = Some (?hdr, ?c @ ?h @ rest)"
    using read_exact_append [of 16 ?hdr "?c @ ?h @ rest"] hl(1) by (simp add: w(1))
  moreover have "read_exact 36 (?c @ ?h @ rest) = Some (?c @ ?h, rest)"
    using read_exact_append [of 36 "?c @ ?h" rest] len by simp
  ultimately have "\<exists>r. network_initrx L True master (wire @ rest) = Done (r, rest) \<and> same_keys k r"
    using hl(2,3) len dec w(2,3) by (simp add: network_initrx_def same_keys_def)
  moreover have "init_nonce session_id cnt' \<noteq> init_nonce session_id cnt" if "cnt' \<noteq> cnt" for cnt'
    using that le_word_u64 [of cnt] le_word_u64 [of cnt'] by (auto simp: init_nonce_def simp del: le_word_u64)
  ultimately show ?thesis
    using assms(1) w(4,5) by (auto simp: linked_def iv_left_def iv_count_def)
qed

theorem key_exchange_agrees_witness:
  "\<exists>r. network_initrx toy_link True [0] (fst (network_inittx toy_link False [0] 7 0 (replicate 20 3))) = Done (r, []) \<and>
     no_salt r = [3, 3, 3, 3]"
proof -
  let ?t = "network_inittx toy_link False [0] 7 0 (replicate 20 3)"
  have "gcm_laws toy_link" "length (replicate 20 (3 :: u8)) = 20" "?t = (fst ?t, snd ?t)"
    by (simp_all add: gcm_laws_def toy_link_def comp_def)
  from key_exchange_agrees [OF this, of "[]"] have
    "\<exists>r. network_initrx toy_link True [0] (fst ?t) = Done (r, []) \<and> no_salt r = no_salt (snd ?t)"
    by (auto simp: linked_def same_keys_def)
  moreover have "no_salt (snd ?t) = [3, 3, 3, 3]"
    by (simp add: network_inittx_def Let_def case_prod_beta numeral_eq_Suc)
  ultimately show ?thesis
    by simp
qed

text \<open>
  Claim C17. Nothing unauthenticated is taken: whatever bytes are on the connection, a block or a metadata message is
  handed on only if the tag behind its ciphertext is the one computed from the key, the nonce and the
  counter in front of it, which becomes the counter of the connection, and a metadata message is the
  decryption of that ciphertext.
\<close>

theorem received_authentic:
  assumes "network_recv L k sock = Done (x, k', rest)" and "x \<noteq> Recv_closed" and "x \<noteq> Recv_overrun"
  shows "\<exists>iv c tag. sock = le_bytes 8 iv @ c @ tag @ rest \<and> length tag = 16 \<and> k' = k\<lparr>no_incr := iv\<rparr> \<and>
    snd (ln_dec L (no_key k) (nonce (no_salt k) iv) (le_bytes 8 iv) c) = tag \<and>
    (\<forall>m. x = Recv_meta m \<longrightarrow> m = fst (ln_dec L (no_key k) (nonce (no_salt k) iv) (le_bytes 8 iv) c))"
proof -
  have re: "read_exact n s = Some (a, t) \<longleftrightarrow> s = a @ t \<and> length a = n" for n s and a t :: "u8 list"
    by (auto simp: read_exact_def)
  obtain h s1 where h: "sock = h @ s1" "length h = 8"
    using assms(1,2) by (cases "read_exact 8 sock") (auto simp: network_recv_def re)
  define iv where "iv = (le_word h :: u64)"
  let ?k = "k\<lparr>no_incr := iv\<rparr>"
  have aad: "le_bytes 8 iv = h"
    unfolding iv_def by (rule le_bytes_le_word [OF h(2)])
  have tag: "\<exists>tag. s = tag @ rest \<and> length tag = 16 \<and> y = x \<and>
      snd (ln_dec L (no_key k) (nonce (no_salt k) iv) (le_bytes 8 iv) c) = tag"
    if "recv_tag L ?k iv c s y = Done (x, rest)" for c s y
    using that by (auto simp: recv_tag_def re split: option.splits if_splits)
  have "network_recv L k sock = bind_outcome (if bit iv 62 then recv_block_data L ?k iv s1 else recv_meta L ?k iv s1)
      (\<lambda>(r, s2). Done (r, ?k, s2))"
    by (simp add: network_recv_def h iv_def Let_def)
  then have "(if bit iv 62 then recv_block_data L ?k iv s1 else recv_meta L ?k iv s1) = Done (x, rest)" and k': "k' = ?k"
    using assms(1) by (cases "if bit iv 62 then recv_block_data L ?k iv s1 else recv_meta L ?k iv s1"; force)+
  then consider (blk) "recv_block_data L ?k iv s1 = Done (x, rest)" | (mta) "recv_meta L ?k iv s1 = Done (x, rest)"
    by (auto split: if_splits)
  then show ?thesis
  proof cases
    case blk
    then obtain c1 c2 s2 y where "s1 = c1 @ c2 @ s2" "recv_tag L ?k iv (c1 @ c2) s2 (Recv_block y) = Done (x, rest)"
      using assms(2,3) by (auto simp: recv_block_data_def Let_def re split: option.splits if_splits)
    with tag obtain t where t: "s2 = t @ rest" "length t = 16" "Recv_block y = x"
      "snd (ln_dec L (no_key k) (nonce (no_salt k) iv) (le_bytes 8 iv) (c1 @ c2)) = t"
      by blast
    then have "sock = le_bytes 8 iv @ (c1 @ c2) @ t @ rest"
      using h(1) aad \<open>s1 = c1 @ c2 @ s2\<close> by simp
    moreover have "\<forall>m. x \<noteq> Recv_meta m"
      using t(3) by auto
    ultimately show ?thesis
      using t(2,4) k' by blast
  next
    case mta
    then obtain c1 c2 s2 where "s1 = c1 @ c2 @ s2" "recv_tag L ?k iv (c1 @ c2) s2
        (Recv_meta (fst (ln_dec L (no_key k) (nonce (no_salt k) iv) (le_bytes 8 iv) (c1 @ c2)))) = Done (x, rest)"
      by (auto simp: recv_meta_def Let_def re split: option.splits if_splits)
    with tag obtain t where t: "s2 = t @ rest" "length t = 16"
      "Recv_meta (fst (ln_dec L (no_key k) (nonce (no_salt k) iv) (le_bytes 8 iv) (c1 @ c2))) = x"
      "snd (ln_dec L (no_key k) (nonce (no_salt k) iv) (le_bytes 8 iv) (c1 @ c2)) = t"
      by blast
    then have "sock = le_bytes 8 iv @ (c1 @ c2) @ t @ rest"
      using h(1) aad \<open>s1 = c1 @ c2 @ s2\<close> by simp
    moreover have "\<forall>m. x = Recv_meta m \<longrightarrow>
        m = fst (ln_dec L (no_key k) (nonce (no_salt k) iv) (le_bytes 8 iv) (c1 @ c2))"
      using t(3) by auto
    ultimately show ?thesis
      using t(2,4) k' by blast
  qed
qed

theorem received_authentic_witness:
  "\<exists>sock k' c tag. network_recv toy_link toy_knob sock = Done (Recv_block \<lparr>fb_file_no = 5, fb_offset = 0, fb_data = [9]\<rparr>, k', []) \<and>
     sock = le_bytes 8 (IS_FIHDR_SHORT + 1) @ c @ tag \<and> length tag = 16"
proof -
  let ?b = "\<lparr>fb_file_no = 5, fb_offset = 0, fb_data = [9]\<rparr>"
  let ?p = "file_info_bytes 0 5 1 @ [9]" and ?iv = "IS_FIHDR_SHORT + 1"
  let ?k = "toy_knob\<lparr>no_incr := ?iv\<rparr>"
  have "linked toy_link toy_knob ?k"
    by (simp add: linked_def gcm_laws_def same_keys_def toy_link_def comp_def)
  then have "recv_block_data toy_link ?k ?iv (crypt toy_link toy_knob ?iv ?p @ tag_of toy_link toy_knob ?iv ?p @ []) = Done (Recv_block ?b, [])"
    by (rule recv_plain_wire) (simp_all add: toy_link_def)
  moreover have "bit ?iv 62"
    by (simp add: IS_FIHDR_SHORT_def bit_simps)
  ultimately have r: "network_recv toy_link toy_knob (wire_frame toy_link toy_knob ?iv ?p) = Done (Recv_block ?b, ?k, [])"
    using recv_head [of toy_link toy_knob toy_knob ?iv ?p "[]"] by simp
  have "Recv_block ?b \<noteq> Recv_closed" "Recv_block ?b \<noteq> Recv_overrun"
    by simp_all
  from received_authentic [OF r this] obtain iv :: u64 and c tag where
    w: "wire_frame toy_link toy_knob ?iv ?p = le_bytes 8 iv @ c @ tag @ []" "length tag = 16"
    by blast
  moreover have "le_bytes 8 iv = le_bytes 8 ?iv"
    using w(1) by (simp add: wire_eq)
  ultimately show ?thesis
    using r by (metis append_Nil2)
qed

lemma low_half: "le_bytes 4 (x :: u64) = le_bytes 4 y" if "take_bit 32 x = take_bit 32 y"
proof -
  have "ucast (drop_bit (8 * i) x) = (ucast (drop_bit (8 * i) y) :: u8)" if "i < 4" for i
  proof (rule bit_eqI)
    fix n assume "possible_bit TYPE(u8) n"
    then have "8 * i + n < 32"
      using that by simp
    then show "bit (ucast (drop_bit (8 * i) x) :: u8) n = bit (ucast (drop_bit (8 * i) y) :: u8) n"
      using arg_cong [OF \<open>take_bit 32 x = take_bit 32 y\<close>, of "\<lambda>w. bit w (8 * i + n)"] by (simp add: bit_simps)
  qed
  then show ?thesis
    by (simp add: le_bytes_def)
qed

lemma take_bit_add1:
  fixes x y :: u64
  assumes "take_bit 32 x = take_bit 32 y"
  shows "take_bit 32 (x + 1) = take_bit 32 (y + 1)"
proof -
  have "unat (take_bit 32 (z + 1)) = (unat (take_bit 32 z) + 1) mod 2 ^ 32" for z :: u64
    by (simp add: unsigned_take_bit_eq take_bit_eq_mod unat_word_ariths mod_mod_cancel mod_simps)
  then show ?thesis
    using assms by (simp add: word_unat_eq_iff)
qed

text \<open>
  Claim C37. The bits that tell the directions apart are not in the nonce: when both ends of a connection,
  which share key and salt, send a metadata message at the same count, both messages are encrypted under the same
  key and the same nonce.
\<close>

theorem nonce_shared_by_directions:
  assumes "same_keys c s" and "no_incr c = no_incr s" and "\<not> no_server c" and "no_server s" and "\<not> bit (no_incr c) 63"
  shows "no_key c = no_key s \<and> nonce (no_salt c) (next_iv False c) = nonce (no_salt s) (next_iv False s) \<and>
    next_iv False c \<noteq> next_iv False s"
proof -
  let ?x = "no_incr c AND NOT IS_FIHDR_SHORT" and ?y = "(no_incr c OR IS_RECEIVER) AND NOT IS_FIHDR_SHORT"
  have iv: "next_iv False c = ?x + 1" "next_iv False s = ?y + 1"
    using assms(2-4) by (simp_all add: next_iv_def)
  have low: "take_bit 32 ?x = take_bit 32 ?y"
    by (rule bit_eqI) (auto simp: bit_take_bit_iff bit_or_iff bit_and_iff bit_not_iff)
  from take_bit_add1 [OF low] have "nonce (no_salt c) (?x + 1) = nonce (no_salt s) (?y + 1)"
    using low_half [of "?x + 1" "?y + 1"] assms(1) by (simp add: nonce_def same_keys_def)
  moreover have "bit ?x 63 \<noteq> bit ?y 63"
    using assms(5) by (simp add: bit_or_iff bit_and_iff bit_not_iff)
  then have "?x + 1 \<noteq> ?y + 1"
    by auto
  ultimately show ?thesis
    using iv assms(1) by (simp add: same_keys_def)
qed

theorem nonce_shared_by_directions_witness:
  "nonce (no_salt toy_knob) (next_iv False toy_knob) =
     nonce (no_salt toy_knob) (next_iv False (toy_knob\<lparr>no_server := True\<rparr>))"
  using nonce_shared_by_directions [of toy_knob "toy_knob\<lparr>no_server := True\<rparr>"]
  by (simp add: same_keys_def toy_knob_def)

text \<open>
  A failed write is taken for a success: the results of \<open>write\<close> are kept in unsigned
  variables, so when the first piece of a message cannot be written, \<open>network_send\<close> returns 7 and its
  callers go on.
\<close>

theorem write_error_unseen:
  assumes "gcm_laws L" and "iv_left 1 k" and "p \<noteq> []" and "length p \<noteq> 8"
    and "wr = (\<lambda>bs. if length bs = 8 then 8 else -1)"
  shows "\<exists>out k'. network_send L wr k p True short = Done (7, out, k')"
proof -
  have "length (fst (ln_enc L a b c p)) = length p" for a b c
    using assms(1) by (simp add: gcm_laws_def)
  moreover have "\<not> bit (next_iv short k) 61"
    using next_iv(1) [of 0 k short] assms(2) by simp
  ultimately show ?thesis
    using assms(2,4) by (simp add: network_send_def send_body_def iv_left_def Let_def case_prod_beta assms(5))
qed

theorem write_error_unseen_witness:
  "\<exists>out k'. network_send toy_link (\<lambda>bs. if length bs = 8 then 8 else -1) toy_knob [1, 2] True True = Done (7, out, k')"
proof -
  have "gcm_laws toy_link" "iv_left 1 toy_knob"
    by (simp_all add: gcm_laws_def toy_link_def comp_def iv_left_def toy_knob_def iv_count_def)
  then show ?thesis
    by (rule write_error_unseen) simp_all
qed

end
