(* ===== verification/Delivery.thy ===== *)
theory Delivery
  imports Write_Runs Secure_Link
begin

text \<open>
  The sending and the receiving workers together: the connections carry what the sending workers
  have put on them, worker \<open>i\<close> of the receiver reads the connection of worker \<open>i\<close> of the sender, and
  the receiver knows of a file what the sender has reported of it: the number of blocks that a
  worker has counted, and the size the file had when it was opened.
\<close>

definition connection :: "tx_state \<Rightarrow> nat \<Rightarrow> file_block list" where
  "connection t i = map snd (filter (\<lambda>p. fst p = i) (tx_sent t))"

definition reported :: "tx_state \<Rightarrow> fino \<Rightarrow> bytes option" where
  "reported t f = (if f \<in> fis_file_no ` set (tx_fc t) then map_option snd (tx_added t f) else None)"

definition told :: "tx_state \<Rightarrow> fino \<Rightarrow> (int \<times> int) option" where
  "told t f =
     (case (find (\<lambda>fc. fis_file_no fc = f) (tx_fc t), reported t f) of
        (Some fc, Some c) \<Rightarrow> Some (u64_as_i64 (fis_blocks fc), int (length c))
      | _ \<Rightarrow> None)"

definition peer_env :: "tx_env \<Rightarrow> bool \<Rightarrow> tx_state \<Rightarrow> rw_env" where
  "peer_env env sparse t =
     \<lparr>re_block = te_block env, re_threads = te_threads env, re_sparse = sparse, re_do_hash = te_do_hash env,
      re_hash = te_hash env, re_stream = connection t, re_plan = reported t,
      re_told = told t\<rparr>"

text \<open>Only workers of the session send, and blocks are never empty nor longer than the block size.\<close>

fun sends_ok :: "tx_env \<Rightarrow> tx_pc \<Rightarrow> bool" where
  "sends_ok env (Tx_send x l k d) = (d \<noteq> [] \<and> length d \<le> te_block env)"
| "sends_ok env _ = True"

definition senders_ok :: "tx_env \<Rightarrow> tx_state \<Rightarrow> bool" where
  "senders_ok env s \<longleftrightarrow>
     (\<forall>(i, b) \<in> set (tx_sent s). i < te_threads env \<and> fb_data b \<noteq> [] \<and> length (fb_data b) \<le> te_block env) \<and>
     (\<forall>i. sends_ok env (tx_wk s i))"

lemma worker_step_sent:
  assumes "i < te_threads env" and "senders_ok env s" and "tx_wk s i = pc"
  shows "senders_ok env (worker_step env i s pc)"
proof -
  have pc: "sends_ok env pc"
    using assms(2,3) by (auto simp: senders_ok_def)
  have wk: "(\<forall>j. sends_ok env (((tx_wk s)(i := pc')) j)) = sends_ok env pc'" for pc'
    using assms(2) by (auto simp: senders_ok_def)
  show ?thesis
    using assms(1,2) pc by (cases pc)
      (auto simp: senders_ok_def wk next_file_def scan_active_def Let_def attach_file_def claim_file_def fetch_block_def
        read_block_def send_block_def iow_remove_def push_file_def goto_def set_entry_def pread_def split: option.splits
        simp del: fun_upd_apply)
qed

lemma spurious_sent: "senders_ok env s \<Longrightarrow> senders_ok env (spurious_failure i s pc)"
  by (cases pc) (simp_all add: senders_ok_def goto_def)

lemma add_opened_sent: "senders_ok env s \<Longrightarrow> senders_ok env (add_opened f fd c s)"
  by (auto simp: senders_ok_def add_opened_def split: prod.splits option.splits)

interpretation senders: step_system "\<lambda>s. s = tx_init" "\<lambda>s s'. tx_step env s s' \<and> own_copies env s'" "senders_ok env" for env
proof unfold_locales
  fix s s' assume "senders_ok env s" "tx_step env s s' \<and> own_copies env s'"
  then show "senders_ok env s'"
    by (auto elim!: tx_step.cases simp: worker_step_sent spurious_sent add_opened_sent) (simp add: senders_ok_def)
qed (simp add: senders_ok_def tx_init_def)

lemma connections_sum:
  fixes n :: nat
  assumes "fst ` set ps \<subseteq> {..<n}"
  shows "(\<Sum>i<n. filter_mset P (mset (map snd (filter (\<lambda>p. fst p = i) ps)))) = filter_mset P (mset (map snd ps))"
  using assms
proof (induction ps)
  case (Cons p ps)
  have "(\<Sum>i<n. filter_mset P (mset (map snd (filter (\<lambda>p. fst p = i) (p # ps))))) =
      (\<Sum>i<n. filter_mset P (mset (map snd (filter (\<lambda>p. fst p = i) ps))) + (if fst p = i then filter_mset P {#snd p#} else {#}))"
    by (rule sum.cong) simp_all
  also have "\<dots> = filter_mset P (mset (map snd ps)) + filter_mset P {#snd p#}"
    using Cons by (simp add: sum.distrib del: filter_mset_add_mset)
  finally show ?case
    by simp
qed simp

lemma filter_distinct_key: "distinct (map k xs) \<Longrightarrow> x \<in> set xs \<Longrightarrow> filter (\<lambda>y. k y = k x) xs = [x]"
  by (induction xs) (auto simp: filter_empty_conv image_iff)

lemma told_reported:
  assumes "env_ok env" and "tx_reach_own env t"
  shows "told t f = map_option (\<lambda>c. (int (block_count (te_block env) (length c)), int (length c))) (reported t f)"
proof (cases "reported t f")
  case None
  then show ?thesis
    by (simp add: told_def split: option.splits)
next
  case (Some c)
  have inv: "tx_inv env t"
    by (rule tx_reach_inv [OF assms(2,1)])
  obtain fd where f: "f \<in> fis_file_no ` set (tx_fc t)" and fd: "tx_added t f = Some (fd, c)"
    using Some by (auto simp: reported_def split: if_splits)
  then obtain fc where fc: "find (\<lambda>fc. fis_file_no fc = f) (tx_fc t) = Some fc"
    by (cases "find (\<lambda>fc. fis_file_no fc = f) (tx_fc t)") (auto simp: find_None_iff)
  have "fc \<in> set (tx_fc t)" "fis_file_no fc = f"
    using find_SomeD [OF fc] by simp_all
  then have rep: "fc = file_report env f c"
    using inv fd unfolding tx_inv_def report_ok_def by auto
  have "length c < 2 ^ 63" "0 < te_block env"
    using inv fd assms(1) unfolding tx_inv_def added_inv_def env_ok_def by blast+
  then have "block_count (te_block env) (length c) < 2 ^ 63"
    using block_count_le [of "te_block env" "length c"] by linarith
  then show ?thesis
    using fc Some by (simp add: told_def rep file_report_def fc_make_def u64_as_i64_of_nat)
qed

lemma peer_plan_ok:
  assumes "env_ok env" and "4096 dvd te_block env" and "tx_reach_own env t"
  shows "plan_ok (peer_env env sparse t)"
proof -
  have inv: "tx_inv env t"
    by (rule tx_reach_inv [OF assms(3,1)])
  then have added: "added_inv t"
    by (simp add: tx_inv_def)
  have senders: "fst ` set (tx_sent t) \<subseteq> {..<te_threads env}"
    using senders.reachable_inv [OF assms(3) [unfolded tx_reach_own_def]] by (auto simp: senders_ok_def)
  have stream: "stream_of (peer_env env sparse t) f = mset (sent_blocks f t)" for f
    using connections_sum [OF senders, of "\<lambda>b. fb_file_no b = f"]
    by (simp add: stream_of_def peer_env_def connection_def sent_blocks_def)
  have "fb_file_no b \<noteq> 0" if "b \<in> set (connection t i)" for b i
  proof -
    have "b \<in> set (sent_blocks (fb_file_no b) t)"
      using that by (auto simp: connection_def sent_blocks_def)
    then have "sent_blocks (fb_file_no b) t \<noteq> []"
      by auto
    then obtain fd c where "tx_added t (fb_file_no b) = Some (fd, c)"
      using added by (cases "tx_added t (fb_file_no b)") (auto simp: added_inv_def)
    then show ?thesis
      using added unfolding added_inv_def by blast
  qed
  moreover have "length c < 2 ^ 63 \<and> mset (sent_blocks f t) = mset (file_blocks (te_block env) f c)"
    if c: "reported t f = Some c" for f c
  proof -
    obtain fc fd where fc: "fc \<in> set (tx_fc t)" "fis_file_no fc = f" "tx_added t f = Some (fd, c)"
      using c by (auto simp: reported_def split: if_splits)
    then have "report_ok env t fc" "length c < 2 ^ 63"
      using inv added unfolding tx_inv_def added_inv_def by blast+
    then show ?thesis
      using fc(2,3) by (auto simp: report_ok_def)
  qed
  moreover have "0 < te_block env"
    using assms(1) by (simp add: env_ok_def)
  moreover have "\<exists>c. reported t f = Some c \<and> blocks = int (block_count (te_block env) (length c)) \<and> sz = int (length c)"
    if "told t f = Some (blocks, sz)" for f blocks sz
    using that by (auto simp: told_reported [OF assms(1,3)])
  ultimately show ?thesis
    using assms(2) by (simp add: plan_ok_def stream) (simp add: peer_env_def)
qed

text \<open>What the receiver has closed was reported by the sender, over the connections as they were written.\<close>

lemma peer_delivers:
  assumes "env_ok env" and "4096 dvd te_block env" and "tx_reach_own env t"
    and "rw_reach (peer_env env sparse t) r" and "rw_closed r f = Some k"
  shows "\<exists>fc fd c. filter (\<lambda>fc. fis_file_no fc = f) (tx_fc t) = [fc] \<and> tx_added t f = Some (fd, c) \<and>
    (cl_sole k \<longrightarrow> cl_data k = c) \<and> fis_bytes fc = of_nat (length c) \<and> cl_sum k = fis_crc fc \<and> cl_crc k = 0"
proof -
  have inv: "tx_inv env t"
    by (rule tx_reach_inv [OF assms(3,1)])
  have c: "closed_inv (peer_env env sparse t) r f"
    using rw_reach_inv [OF assms(4) peer_plan_ok [OF assms(1-3)]] by (simp add: rw_inv_def)
  then obtain c where d: "reported t f = Some c" and k: "cl_sole k \<longrightarrow> cl_data k = c" "cl_crc k = 0"
    and h: "cl_sum k = hashes (peer_env env sparse t) (file_blocks (te_block env) f c)"
    using assms(5) by (auto simp: closed_inv_def peer_env_def)
  obtain fc fd where fc: "fc \<in> set (tx_fc t)" "fis_file_no fc = f" "tx_added t f = Some (fd, c)"
    using d by (auto simp: reported_def split: if_splits)
  then have "report_ok env t fc" and dist: "distinct (map fis_file_no (tx_fc t))"
    using inv by (simp_all add: tx_inv_def)
  then have rep: "fc = file_report env f c"
    using fc(2,3) by (auto simp: report_ok_def)
  have "filter (\<lambda>fc. fis_file_no fc = f) (tx_fc t) = [fc]"
    using filter_distinct_key [OF dist fc(1)] fc(2) by simp
  moreover have "cl_sum k = fis_crc fc" "fis_bytes fc = of_nat (length c)"
    by (simp_all add: rep h file_report_def fc_make_def blocks_crc_def hashes_def peer_env_def)
  ultimately show ?thesis
    using fc(3) k by blast
qed

section \<open>Over the encrypted connections\<close>

text \<open>The blocks that come out of connection \<open>i\<close>, when the sender writes its blocks to it with \<open>tk i\<close> and the receiver reads them with \<open>rk i\<close>.\<close>

fun blocks_in :: "recv_result list \<Rightarrow> file_block list" where
  "blocks_in [] = []"
| "blocks_in (Recv_block b # rs) = b # blocks_in rs"
| "blocks_in (_ # rs) = blocks_in rs"

definition arrived :: "link_env \<Rightarrow> (u8 list \<Rightarrow> int) \<Rightarrow> network_obj \<Rightarrow> network_obj \<Rightarrow> file_block list \<Rightarrow> file_block list" where
  "arrived L wr tk rk bs =
     (case send_msgs L wr tk (map Lm_block bs) of
        Done (out, _) \<Rightarrow>
          (case recv_msgs L rk (length bs) (concat out) of Done (rs, _, _) \<Rightarrow> blocks_in rs | _ \<Rightarrow> [])
      | _ \<Rightarrow> [])"

definition wire_env :: "link_env \<Rightarrow> (u8 list \<Rightarrow> int) \<Rightarrow> (nat \<Rightarrow> network_obj) \<Rightarrow> (nat \<Rightarrow> network_obj) \<Rightarrow> tx_env \<Rightarrow> bool \<Rightarrow>
    tx_state \<Rightarrow> rw_env" where
  "wire_env L wr tk rk env sparse t =
     (peer_env env sparse t)\<lparr>re_stream := (\<lambda>i. arrived L wr (tk i) (rk i) (connection t i))\<rparr>"

definition connected :: "link_env \<Rightarrow> (nat \<Rightarrow> network_obj) \<Rightarrow> (nat \<Rightarrow> network_obj) \<Rightarrow> tx_env \<Rightarrow> tx_state \<Rightarrow> bool" where
  "connected L tk rk env t \<longleftrightarrow>
     (\<forall>i < te_threads env. linked L (tk i) (rk i) \<and> iv_left (length (connection t i)) (tk i))"

lemma blocks_in_map [simp]: "blocks_in (map Recv_block bs) = bs"
  by (induction bs) simp_all

lemma arrived_all:
  assumes "linked L k r" and "zstd_block_laws L" and "link_ok L" and "full_writes wr" and "iv_left (length bs) k"
    and "\<forall>b \<in> set bs. fb_data b \<noteq> [] \<and> length (fb_data b) \<le> ln_block L"
  shows "arrived L wr k r bs = bs"
  using msgs_roundtrip [OF assms(1-4), of "map Lm_block bs" "[]"] assms(5,6) by (auto simp: arrived_def comp_def)

lemma wire_env_eq:
  assumes "tx_reach_own env t" and "zstd_block_laws L" and "link_ok L" and "ln_block L = te_block env" and "full_writes wr"
    and "connected L tk rk env t"
  shows "wire_env L wr tk rk env sparse t = peer_env env sparse t"
proof -
  have ok: "senders_ok env t"
    using senders.reachable_inv [OF assms(1) [unfolded tx_reach_own_def]] .
  have "arrived L wr (tk i) (rk i) (connection t i) = connection t i" for i
  proof (cases "i < te_threads env")
    case True
    have "\<forall>b \<in> set (connection t i). fb_data b \<noteq> [] \<and> length (fb_data b) \<le> ln_block L"
      using ok assms(4) by (auto simp: connection_def senders_ok_def)
    then show ?thesis
      using True assms(2,3,5,6) by (intro arrived_all) (auto simp: connected_def)
  next
    case False
    then have "connection t i = []"
      using ok by (auto simp: connection_def senders_ok_def filter_empty_conv)
    then show ?thesis
      by (simp add: arrived_def)
  qed
  then show ?thesis
    by (simp add: wire_env_def) (simp add: peer_env_def)
qed

section \<open>Properties\<close>


definition plain_link :: link_env where
  "plain_link = toy_link\<lparr>ln_compression := False, ln_block := 4096\<rparr>"

text \<open>A transfer of file 1 with one byte, sent by worker 0.\<close>

lemma one_file_sent:
  obtains t where "tx_reach_own two_workers t" and "tx_sent t = [(0, first_block one_byte)]" and "reported t 1 = Some [7]"
    and "tx_added t 1 = Some (3, [7])" and "connected plain_link (\<lambda>_. toy_knob) (\<lambda>_. toy_knob) two_workers t"
    and "one_block (peer_env two_workers False t) one_byte"
proof -
  have "0 + 1 < (2 :: nat) ^ 63" "length [7 :: u8] < 2 ^ 63"
    by simp_all
  from run_claim [OF between_init this] obtain s1 l where s1: "claimed (0 + 1) [7] l s1"
    "tx_added s1 = (tx_added tx_init)(of_nat (0 + 1) \<mapsto> (3, [7]))" "tx_sent s1 = tx_sent tx_init" "tx_fc s1 = tx_fc tx_init" .
  have "[7 :: u8] \<noteq> []" "length [7 :: u8] \<le> 4096"
    by simp_all
  from run_finish [OF s1(1) this] obtain t where t: "between (0 + 1) t" "tx_added t = tx_added s1"
    "tx_sent t = tx_sent s1 @ [(0, nth_block 4096 (of_nat (0 + 1)) [7] 0)]"
    "map fis_file_no (tx_fc t) = map fis_file_no (tx_fc s1) @ [of_nat (0 + 1)]" .
  have r: "tx_reach_own two_workers t"
    using t(1) by (simp add: between_def)
  have sent: "tx_sent t = [(0, first_block one_byte)]"
    using t(3) s1(3) by (simp add: tx_init_def first_block_def one_byte_def)
  have "map fis_file_no (tx_fc t) = [1]"
    using t(4) s1(4) by (simp add: tx_init_def)
  then have "1 \<in> fis_file_no ` set (tx_fc t)"
    by (metis list.set_intros(1) list.set_map)
  then have rep: "reported t 1 = Some [7]"
    using t(2) s1(2) by (simp add: reported_def)
  have "4096 dvd te_block two_workers"
    by (simp add: two_workers_def)
  moreover have "told t 1 = Some (1, 1)"
    using told_reported [OF two_workers_ok r, of 1] rep by (simp add: two_workers_def block_count_def)
  ultimately have "one_block (peer_env two_workers False t) one_byte"
    using peer_plan_ok [OF two_workers_ok _ r] rep
    by (auto simp: one_block_def peer_env_def connection_def sent two_workers_def one_byte_def)
  moreover have "connected plain_link (\<lambda>_. toy_knob) (\<lambda>_. toy_knob) two_workers t"
    by (simp add: connected_def linked_def same_keys_def iv_left_def toy_knob_def iv_count_def connection_def sent
        gcm_laws_def plain_link_def toy_link_def comp_def)
  moreover have "tx_added t 1 = Some (3, [7])"
    using t(2) s1(2) by simp
  ultimately show ?thesis
    using that r sent rep by blast
qed

lemma plain_link_ok:
  "zstd_block_laws plain_link" "link_ok plain_link" "ln_block plain_link = te_block two_workers"
  "full_writes (\<lambda>bs. int (length bs))" "4096 dvd te_block two_workers"
  by (simp_all add: plain_link_def toy_link_def zstd_block_laws_def link_ok_def two_workers_def full_writes_def)


end
