(* ===== verification/Receive_Files.thy ===== *)
theory Receive_Files
  imports Receiver Delivery File_Batch
begin

text \<open>
  The loop of the receiver (\<open>receiver.rs\<close>: \<open>escp_receiver\<close>) and its I/O workers (\<open>libdtn\<close>:
  \<open>rx_worker\<close>) in one system: they share the table of open files, and the workers write through the
  descriptors the loop opens and closes. Between two steps the world, with the open descriptors
  in it, may change in every other respect. A simulation shows that every run of the two is a
  run of \<open>Write_Workers\<close>, where opening and closing stand for the loop; so what holds there holds for
  the files \<open>close_file\<close> really closes.
\<close>

section \<open>The operating system\<close>

text \<open>
  What the loop relies on: \<open>fds\<close> gives the descriptors of a world and the files behind them. An
  \<open>open\<close> with \<open>O_TRUNC\<close> (bit 9) returns a descriptor that was not open, on a file that is empty now, also
  for other descriptors that refer to it, or an error; \<open>ftruncate\<close> and \<open>close\<close> work on their descriptor;
  nothing else the loop calls changes the contents of an open file.
\<close>

definition os_files :: "'w rx_os \<Rightarrow> ('w \<Rightarrow> fd_view) \<Rightarrow> bool" where
  "os_files os fds \<longleftrightarrow>
     (\<forall>p fl w fd e w'. bit fl 9 \<longrightarrow> os_open os p fl w = ((fd, e), w') \<longrightarrow>
        (if fd < 0 then fv_same (fds w) (fds w')
         else fv_node (fds w) fd = None \<and> (\<exists>n. fv_same (fv_open fd n (fds w)) (fds w')))) \<and>
     (\<forall>fd n w. fds (os_truncate os fd n w) = fv_truncate fd n (fds w)) \<and>
     (\<forall>fd w. fds (os_close_fd os fd w) = fv_close fd (fds w)) \<and>
     (\<forall>fd i w. fds (os_preserve os fd i w) = fds w) \<and> (\<forall>p w. fv_same (fds w) (fds (os_create_dir_all os p w))) \<and>
     (\<forall>w. fv_same (fds w) (fds (snd (os_meta_recv os w)))) \<and> (\<forall>w. fv_same (fds w) (fds (os_meta_complete os w))) \<and>
     (\<forall>n w. fv_same (fds w) (fds (os_sleep os n w)))"

text \<open>The operations on open files do not look at other files.\<close>

lemma fv_same_refl [simp]: "fv_same v v"
  by (simp add: fv_same_def)

lemma fv_same_trans: "fv_same u v \<Longrightarrow> fv_same v w \<Longrightarrow> fv_same u w"
  by (auto simp: fv_same_def)

lemma fv_same_open: "fv_same v v' \<Longrightarrow> fv_same (fv_open fd n v) (fv_open fd n v')"
  by (auto simp: fv_same_def fv_open_def fv_change_def Let_def fun_eq_iff)

lemma fv_same_truncate: "fv_same v v' \<Longrightarrow> fv_same (fv_truncate fd n v) (fv_truncate fd n v')"
  by (auto simp: fv_same_def fv_truncate_def fv_change_def fun_eq_iff split: option.splits)

lemma fv_same_close: "fv_same v v' \<Longrightarrow> fv_same (fv_close fd v) (fv_close fd v')"
  by (auto simp: fv_same_def fv_close_def)

lemma fv_same_pwrite:
  "fv_same v v' \<Longrightarrow> fv_node v fd = Some n \<Longrightarrow> fv_same (fv_pwrite fd n off buf k v) (fv_pwrite fd n off buf k v')"
  by (auto simp: fv_same_def fv_pwrite_def fv_change_def Let_def fun_eq_iff)

section \<open>The system\<close>

text \<open>
  The loop, and of every worker its position, its local variables and the blocks still to come.
  \<open>jn_seen\<close> are the numbers that were specified so far.
\<close>

record 'w joint =
  jn_rx :: "'w rx"
  jn_wk :: "nat \<Rightarrow> rw_pc"
  jn_cur :: "nat \<Rightarrow> fino \<times> nat \<times> i32"
  jn_in :: "nat \<Rightarrow> file_block list"
  jn_seen :: "fino set"

definition jn_start :: "rw_env \<Rightarrow> dtn_args \<Rightarrow> 'w \<Rightarrow> 'w joint" where
  "jn_start env args w =
     \<lparr>jn_rx = rx_start args w, jn_wk = (\<lambda>_. Rx_recv), jn_cur = (\<lambda>_. (0, 0, 0)), jn_in = re_stream env, jn_seen = {}\<rparr>"

text \<open>What a worker sees of the system, in the form the operations of \<open>Write_Workers\<close> take it.\<close>

definition jn_view :: "('w \<Rightarrow> fd_view) \<Rightarrow> 'w joint \<Rightarrow> rw_state" where
  "jn_view fds j =
     \<lparr>rw_io = rx_tab (jn_rx j), rw_fs = fds (rx_world (jn_rx j)), rw_label = Map.empty, rw_used = {},
      rw_in = jn_in j, rw_wk = jn_wk j, rw_cur = jn_cur j, rw_hashed = [], rw_log = [], rw_closed = Map.empty,
      rw_dead = False\<rparr>"

text \<open>
  The messages of the sender agree with what it sends: a file is specified once and with its
  size, and a block count is that of the file it is for.
\<close>

definition spec_told :: "rw_env \<Rightarrow> fino set \<Rightarrow> File \<Rightarrow> bool" where
  "spec_told env seen e \<longleftrightarrow>
     f_fino e \<notin> seen \<and> (\<forall>blocks sz. re_told env (f_fino e) = Some (blocks, sz) \<longrightarrow> f_sz e = sz)"

definition count_told :: "rw_env \<Rightarrow> File \<Rightarrow> bool" where
  "count_told env e \<longleftrightarrow>
     (\<exists>sz. re_told env (f_fino e) = Some (f_blocks e, sz) \<and> (f_sz e \<le> 0 \<or> f_sz e = sz))"

definition list_told :: "rw_env \<Rightarrow> fino set \<Rightarrow> ESCP_file_list \<Rightarrow> bool" where
  "list_told env seen fl \<longleftrightarrow>
     (case fl_files fl of
        None \<Rightarrow> True
      | Some es \<Rightarrow>
          (case fl_root fl of
             Some _ \<Rightarrow> \<forall>e \<in> set es. spec_told env seen e
           | None \<Rightarrow> \<forall>e \<in> set es. count_told env e))"

definition next_told :: "'t codec \<Rightarrow> 'w rx_os \<Rightarrow> rw_env \<Rightarrow> fino set \<Rightarrow> 'w rx \<Rightarrow> bool" where
  "next_told C os env seen s \<longleftrightarrow>
     (\<forall>n s4 ptr w sz c fl. rx_front C os s = Done (n, s4) \<longrightarrow> os_meta_recv os (rx_world s4) = (Some ptr, w) \<longrightarrow>
        rx_open C ptr = Done (sz, msg_file_spec, c) \<longrightarrow> rx_file_list C c = Done fl \<longrightarrow> list_told env seen fl)"

text \<open>A step of a worker, an iteration of the loop, or something else that happens in the world.\<close>

inductive joint_step :: "'t codec \<Rightarrow> 'w rx_os \<Rightarrow> ('w \<Rightarrow> fd_view) \<Rightarrow> rw_env \<Rightarrow> 'w joint \<Rightarrow> 'w joint \<Rightarrow> bool"
  for C os fds env where
  jn_work: "i < re_threads env \<Longrightarrow> v = rworker_step env i junk k (jn_view fds j) (jn_wk j i) \<Longrightarrow> \<not> rw_dead v \<Longrightarrow>
     fds w = rw_fs v \<Longrightarrow>
     joint_step C os fds env j
       (j\<lparr>jn_rx := (jn_rx j)\<lparr>rx_tab := rw_io v, rx_world := w\<rparr>, jn_wk := rw_wk v, jn_cur := rw_cur v, jn_in := rw_in v\<rparr>)"
| jn_loop: "next_ok C os (jn_rx j) \<Longrightarrow> next_told C os env (jn_seen j) (jn_rx j) \<Longrightarrow>
     rx_iter C os (jn_rx j) = Done (Again, s) \<Longrightarrow>
     joint_step C os fds env j (j\<lparr>jn_rx := s, jn_seen := jn_seen j \<union> set (rx_add s)\<rparr>)"
| jn_spurious: "i < re_threads env \<Longrightarrow> jn_wk j i = Rx_mark b x fd xs \<Longrightarrow>
     joint_step C os fds env j (j\<lparr>jn_wk := (jn_wk j)(i := Rx_wait b xs)\<rparr>)"
| jn_world: "fv_same (fds (rx_world (jn_rx j))) (fds w) \<Longrightarrow>
     joint_step C os fds env j (j\<lparr>jn_rx := (jn_rx j)\<lparr>rx_world := w\<rparr>\<rparr>)"

definition joint_reach ::
    "'t codec \<Rightarrow> 'w rx_os \<Rightarrow> ('w \<Rightarrow> fd_view) \<Rightarrow> rw_env \<Rightarrow> dtn_args \<Rightarrow> 'w joint \<Rightarrow> bool" where
  "joint_reach C os fds env args = reachable (\<lambda>j. \<exists>w. j = jn_start env args w) (joint_step C os fds env)"

section \<open>Simulation\<close>

text \<open>What the map of the loop knows of a file agrees with the messages; a specified file has its size.\<close>

definition hash_told :: "rw_env \<Rightarrow> (fino \<Rightarrow> FileInformation option) \<Rightarrow> bool" where
  "hash_told env h \<longleftrightarrow>
     (\<forall>f i. h f = Some i \<longrightarrow>
        (0 \<le> fi_blocks i \<longrightarrow> (\<exists>sz. re_told env f = Some (fi_blocks i, sz))) \<and>
        (\<forall>blocks sz. re_told env f = Some (blocks, sz) \<longrightarrow>
           (fi_sz i = 0 \<or> fi_sz i = sz) \<and> (fi_fino i \<noteq> 0 \<longrightarrow> fi_sz i = sz)))"

text \<open>
  A state of the loop and a state of \<open>Write_Workers\<close>: the same table, the same open files, and no
  waiting file was entered before.
\<close>

definition mirrors :: "('w \<Rightarrow> fd_view) \<Rightarrow> rw_env \<Rightarrow> fino set \<Rightarrow> 'w rx \<Rightarrow> rw_state \<Rightarrow> bool" where
  "mirrors fds env seen s r \<longleftrightarrow>
     rw_io r = rx_tab s \<and> fv_same (rw_fs r) (fds (rx_world s)) \<and>
     \<not> rw_dead r \<and> rw_used r \<union> set (rx_add s) \<subseteq> seen \<and> set (rx_add s) \<inter> rw_used r = {} \<and>
     bit (da_flags (rx_args s)) 9 \<and> hash_told env (rx_hash s)"

text \<open>Steps of the Rust side only.\<close>

definition rust_steps :: "rw_env \<Rightarrow> rw_state \<Rightarrow> rw_state \<Rightarrow> bool" where
  "rust_steps env r r' \<longleftrightarrow>
     (rw_step env)\<^sup>*\<^sup>* r r' \<and> rw_wk r' = rw_wk r \<and> rw_cur r' = rw_cur r \<and> rw_in r' = rw_in r"

lemma rust_steps_refl [simp]: "rust_steps env r r"
  by (simp add: rust_steps_def)

lemma rust_steps_trans: "rust_steps env r r' \<Longrightarrow> rust_steps env r' r'' \<Longrightarrow> rust_steps env r r''"
  by (auto simp: rust_steps_def)

lemma rw_reach_steps: "(rw_step env)\<^sup>*\<^sup>* r r' \<Longrightarrow> rw_reach env r \<Longrightarrow> rw_reach env r'"
  unfolding rw_reach_def by (induction rule: rtranclp_induct) (auto intro: reachable_step)

lemma rust_steps_reach: "rust_steps env r r' \<Longrightarrow> rw_reach env r \<Longrightarrow> rw_reach env r'"
  by (auto simp: rust_steps_def intro: rw_reach_steps)

text \<open>Steps that open no file and no descriptor.\<close>

lemma mirrors_cong:
  assumes "mirrors fds env seen s r" and "rx_tab s' = rx_tab s" and "fv_same (fds (rx_world s)) (fds (rx_world s'))"
    and "set (rx_add s') \<subseteq> set (rx_add s)" and "da_flags (rx_args s') = da_flags (rx_args s)" and "rx_hash s' = rx_hash s"
  shows "mirrors fds env seen s' r"
  using assms fv_same_trans [OF _ assms(3)] by (auto simp: mirrors_def)

lemma mirrors_stay: "mirrors fds env seen s r \<Longrightarrow> \<exists>r'. rust_steps env r r' \<and> mirrors fds env seen s r'"
  using rust_steps_refl by blast

subsection \<open>Adding\<close>

lemma hash_told_fd: "hash_told env h \<Longrightarrow> h f = Some i \<Longrightarrow> hash_told env (h(f \<mapsto> i\<lparr>fi_fd := fd\<rparr>))"
  by (simp add: hash_told_def)

lemma enter_file_mirrors:
  assumes os: "os_files os fds" and m: "mirrors fds env seen s r" and add: "rx_add s = f # fs" and wf: "rx_wf s"
    and hash: "rx_hash s f = Some i" and fd: "fv_node (rw_fs r) fd \<noteq> None" "rw_label r fd = Some f"
    and e: "enter_file os f i fd s = (a, s')"
  shows "\<exists>r'. rust_steps env r r' \<and> mirrors fds env seen s' r'"
proof -
  have w: "waiting s f" "distinct (f # fs)"
    using wf add by (auto simp: rx_wf_def)
  then have f: "f \<noteq> 0" "fi_fino i = f"
    using hash by (auto simp: waiting_def)
  have pres: "fds (os_preserve os fd i' w) = fds w" for i' w
    using os by (simp add: os_files_def)
  obtain x tab where t: "file_addfile f fd 0 0 (rx_tab s) = (x, tab)"
    by (cases "file_addfile f fd 0 0 (rx_tab s)")
  have world: "fds (rx_world s') = fds (rx_world s)" and args: "rx_args s' = rx_args s"
    and h: "rx_hash s' = (rx_hash s)(f \<mapsto> i\<lparr>fi_fd := fd\<rparr>)"
    using e t f pres by (cases x; auto simp: enter_file_def Let_def split: if_splits)+
  have told: "hash_told env (rx_hash s')"
    unfolding h by (rule hash_told_fd) (use m hash in \<open>simp_all add: mirrors_def\<close>)
  show ?thesis
  proof (cases x)
    case None
    then have "rx_tab s' = rx_tab s" "rx_add s' = rx_add s"
      using e t f by (auto simp: enter_file_def Let_def split: if_splits)
    then have "mirrors fds env seen s' r"
      using m world args told by (simp add: mirrors_def)
    then show ?thesis
      by (rule mirrors_stay)
  next
    case (Some slot)
    then have s': "rx_tab s' = tab" "rx_add s' = fs"
      using e t f add by (auto simp: enter_file_def Let_def split: if_splits)
    have ok: "enter_ok f fd r"
      using m add f fd by (auto simp: enter_ok_def mirrors_def)
    have r': "enter_opened f fd r = r\<lparr>rw_io := tab, rw_used := insert f (rw_used r)\<rparr>"
      using t Some m by (simp add: enter_opened_def mirrors_def)
    have "rw_step env r (enter_opened f fd r)"
      using ok m by (intro rw_enter) (simp_all add: mirrors_def)
    then have "rust_steps env r (enter_opened f fd r)"
      by (auto simp: rust_steps_def r')
    moreover have "mirrors fds env seen s' (enter_opened f fd r)"
      using m s' add w(2) world args told by (auto simp: mirrors_def r')
    ultimately show ?thesis
      by blast
  qed
qed

lemma call_open_mirrors:
  assumes "os_files os fds" and m: "mirrors fds env seen s r" and c: "call_open os fp s = ((fd, errno), s1)"
  shows "\<exists>r1. rust_steps env r r1 \<and> mirrors fds env seen s1 r1 \<and>
    (0 \<le> fd \<longrightarrow> fv_node (rw_fs r1) fd \<noteq> None \<and> rw_label r1 fd = Some f)"
proof -
  let ?fl = "if da_nodirect (rx_args s) then da_flags (rx_args s) else da_flags (rx_args s) OR O_DIRECT"
  obtain w where o: "os_open os fp ?fl (rx_world s) = ((fd, errno), w)" and s1: "s1 = s\<lparr>rx_world := w\<rparr>"
    using c by (auto simp: call_open_def Let_def split: prod.splits)
  have "bit ?fl 9"
    using m by (simp add: mirrors_def bit_or_iff)
  then have w: "if fd < 0 then fv_same (fds (rx_world s)) (fds w)
      else fv_node (fds (rx_world s)) fd = None \<and> (\<exists>n. fv_same (fv_open fd n (fds (rx_world s))) (fds w))"
    using assms(1) o unfolding os_files_def by blast
  have same: "fv_same (rw_fs r) (fds (rx_world s))" and alive: "\<not> rw_dead r"
    using m by (simp_all add: mirrors_def)
  show ?thesis
  proof (cases "fd < 0")
    case True
    then have "mirrors fds env seen s1 r"
      using w by (intro mirrors_cong [OF m]) (simp_all add: s1)
    then show ?thesis
      using True by (intro exI [of _ r]) simp
  next
    case False
    then obtain n where n: "fv_node (rw_fs r) fd = None" "fv_same (fv_open fd n (fds (rx_world s))) (fds w)"
      using w same by (auto simp: fv_same_def)
    let ?r = "open_file f fd n r"
    have "rw_step env r ?r"
      using n(1) alive by (intro rw_open)
    then have "rust_steps env r ?r"
      by (auto simp: rust_steps_def open_file_def)
    moreover have "mirrors fds env seen s1 ?r"
      using m fv_same_trans [OF fv_same_open [OF same] n(2)] by (simp add: mirrors_def s1 open_file_def)
    moreover have "fv_node (rw_fs ?r) fd \<noteq> None" "rw_label ?r fd = Some f"
      by (simp_all add: open_file_def fv_open_def Let_def)
    ultimately show ?thesis
      by blast
  qed
qed

lemma open_attempts_mirrors:
  assumes "os_files os fds" and "mirrors fds env seen s r" and "rx_wf s" and "rx_add s = f # fs"
    and "rx_hash s f = Some i" and "open_attempts n os fp alt f i s = Done (a, s')"
  shows "\<exists>r'. rust_steps env r r' \<and> mirrors fds env seen s' r'"
  using assms(2-)
proof (induction n arbitrary: fp s r)
  case 0
  then show ?case
    using mirrors_stay [of fds env seen s r] by simp
next
  case (Suc n)
  obtain fd errno s1 where c: "call_open os fp s = ((fd, errno), s1)"
    by (metis prod.collapse)
  then obtain w where s1: "s1 = s\<lparr>rx_world := w\<rparr>"
    using call_open_same by blast
  obtain r1 where r1: "rust_steps env r r1" and m1: "mirrors fds env seen s1 r1"
    "0 \<le> fd \<longrightarrow> fv_node (rw_fs r1) fd \<noteq> None \<and> rw_label r1 fd = Some f"
    using call_open_mirrors [OF assms(1) Suc.prems(1) c] by blast
  note more = rust_steps_trans [OF r1]
  have again: ?case if "open_attempts n os fp' alt f i t = Done (a, s')" "same_files s t" "mirrors fds env seen t r1" for t fp'
    using Suc.IH [OF that(3) _ _ _ that(1)] Suc.prems(2-4) same_filesD [OF that(2)] more by auto
  have dir: "mirrors fds env seen (s1\<lparr>rx_world := os_create_dir_all os p (rx_world s1)\<rparr>) r1" for p
    using assms(1) by (intro mirrors_cong [OF m1(1)]) (simp_all add: os_files_def)
  have direct: "mirrors fds env seen (s1\<lparr>rx_args := (rx_args s1)\<lparr>da_nodirect := True\<rparr>\<rparr>) r1"
    by (rule mirrors_cong [OF m1(1)]) simp_all
  have sf: "same_files s s1" "same_files s (s1\<lparr>rx_world := w'\<rparr>)" "same_files s (s1\<lparr>rx_args := a'\<rparr>)" for w' a'
    using same_files_updates [of s] by (simp_all add: s1)
  have wf1: "rx_wf s1" "rx_add s1 = f # fs" "rx_hash s1 f = Some i"
    using same_filesD [OF sf(1)] Suc.prems(2-4) by simp_all
  have enter: ?case if "enter_file os f i fd s1 = (a, s')" "\<not> fd < 1"
    using enter_file_mirrors [OF assms(1) m1(1) wf1(2,1,3) _ _ that(1)] m1(2) that(2) more by auto
  have stop: ?case if "s' = s1"
    using that r1 m1(1) by blast
  show ?case
    using Suc.prems(5) c again [OF _ sf(1) m1(1)] again [OF _ sf(2) dir] again [OF _ sf(3) direct] enter stop
    by (auto simp: Let_def split: if_splits option.splits)
qed

lemma add_loop_mirrors:
  assumes "os_files os fds" and "mirrors fds env seen s r" and "rx_wf s" and "rx_add s = fs"
    and "add_loop os fs k s = Done (a, s')"
  shows "\<exists>r'. rust_steps env r r' \<and> mirrors fds env seen s' r'"
  using assms(2-)
proof (induction fs arbitrary: k s r)
  case Nil
  then show ?case
    using mirrors_stay [of fds env seen s r] by simp
next
  case (Cons f fs)
  have "waiting s f"
    using Cons.prems by (simp add: rx_wf_def)
  then obtain i where i: "rx_hash s f = Some i"
    by (auto simp: waiting_def)
  obtain fp alt where p: "open_paths (fi_path i) = (fp, alt)"
    by (cases "open_paths (fi_path i)")
  obtain b s1 where o: "open_attempts 4 os fp alt f i s = Done (b, s1)" "add_effect s s1"
    "b = Added \<longrightarrow> rx_add s1 = fs"
    using open_attempts_spec [OF Cons.prems(2,3) i, of 4 os fp alt] by blast
  obtain r1 where r1: "rust_steps env r r1" "mirrors fds env seen s1 r1"
    using open_attempts_mirrors [OF assms(1) Cons.prems(1-3) i o(1)] by blast
  show ?case
  proof (cases b)
    case Added
    then have "add_loop os fs (k + 1) s1 = Done (a, s')"
      using Cons.prems(4) i p o(1) by simp
    then show ?thesis
      using Cons.IH [OF r1(2)] Added o(2,3) rust_steps_trans [OF r1(1)] by (force simp: add_effect_def)
  next
    case (Stop code)
    then have "s' = s1"
      using Cons.prems(4) i p o(1) by simp
    then show ?thesis
      using r1 by blast
  qed
qed

subsection \<open>Closing\<close>

text \<open>
  What the loop closes: the file behind the descriptor, cut to its size, is the sender's, if it
  was changed only by complete writes through this descriptor.
\<close>

definition restored :: "('w \<Rightarrow> fd_view) \<Rightarrow> rw_env \<Rightarrow> 'w rx \<Rightarrow> FileInformation \<Rightarrow> bool" where
  "restored fds env s fi \<longleftrightarrow>
     (\<exists>c n. re_plan env (fi_fino fi) = Some c \<and> fv_node (fds (rx_world s)) (fi_fd fi) = Some n \<and>
        0 \<le> fi_sz fi \<and>
        (\<not> fv_spoilt (fds (rx_world s)) (fi_fd fi) \<longrightarrow> ftruncate (nat (fi_sz fi)) (fv_data (fds (rx_world s)) n) = c))"

text \<open>The entry of a file in the table and in the map.\<close>

lemma entry_known:
  assumes plan: "plan_ok env" and m: "mirrors fds env seen s r" and reach: "rw_reach env r"
    and wf: "rx_wf s" and f: "f \<noteq> 0" and g: "file_getstats f (rx_tab s) = Some x" and fi: "rx_hash s f = Some fi"
    and known: "0 \<le> fi_blocks fi"
  shows "rw_inv env r" and "rw_io r = rx_tab s" and "st_file_no (fs_tab (rx_tab s) x) = f"
    and "fi_fino fi = f" and "fi_fd fi = st_fd (fs_tab (rx_tab s) x)" and "re_told env f = Some (fi_blocks fi, fi_sz fi)"
    and "rw_label r (fi_fd fi) = Some f"
proof -
  let ?e = "fs_tab (rx_tab s) x"
  show inv: "rw_inv env r" and io: "rw_io r = rx_tab s"
    using rw_reach_inv [OF reach plan] m by (simp_all add: mirrors_def)
  show xf: "st_file_no ?e = f"
    using g getstats_iff [OF _ f, of "rx_tab s" x] wf by (simp add: rx_wf_def)
  have "fs_view (rx_tab s) f = Some (stat_view ?e)"
    using getstats_view [OF _ f g] wf by (simp add: rx_wf_def)
  moreover have "entered s f"
    using wf by (simp add: rx_wf_def)
  ultimately show ent: "fi_fino fi = f" "fi_fd fi = st_fd ?e"
    using fi by (auto simp: entered_def stat_view_def)
  show "re_told env f = Some (fi_blocks fi, fi_sz fi)"
    using m fi known f ent unfolding mirrors_def hash_told_def by metis
  show "rw_label r (fi_fd fi) = Some f"
    using open_slot(7) [OF inv, of x] io xf f by (simp add: ent)
qed

lemma closable_restored:
  assumes plan: "plan_ok env" and m: "mirrors fds env seen s r" and reach: "rw_reach env r" and wf: "rx_wf s" and f: "f \<noteq> 0"
    and cl: "closable s f" and fi: "rx_hash s f = Some fi"
  shows "restored fds env s fi" and "rw_label r (fi_fd fi) = Some f"
proof -
  have io: "fs_inv (rx_tab s)"
    using wf by (simp add: rx_wf_def)
  obtain v where v: "fs_view (rx_tab s) f = Some v" "0 \<le> fi_blocks fi" "fi_blocks fi \<le> u64_as_i64 (fst (snd v))"
    using cl fi by (auto simp: closable_def)
  then obtain x where g: "file_getstats f (rx_tab s) = Some x"
    by (cases "file_getstats f (rx_tab s)") (auto simp: fs_view_def fs_lookup_def split: if_splits)
  then have full: "fi_blocks fi \<le> u64_as_i64 (st_block_total (fs_tab (rx_tab s) x))"
    using getstats_view [OF io f g] v by (simp add: stat_view_def)
  note k = entry_known [OF plan m reach wf f g fi v(2)]
  show "rw_label r (fi_fd fi) = Some f"
    by (rule k(7))
  obtain c where c: "re_plan env f = Some c" "fi_blocks fi = int (block_count (re_block env) (length c))" "fi_sz fi = int (length c)"
    using plan k(6) unfolding plan_ok_def by blast
  have xf: "st_file_no (rentry r x) = f"
    using k(2,3) by simp
  obtain n where n: "fv_node (rw_fs r) (fi_fd fi) = Some n"
    "\<not> fv_spoilt (rw_fs r) (fi_fd fi) \<longrightarrow> fv_data (rw_fs r) n = write_blocks (re_sparse env) (log_of r f) []"
    using open_slot(4) [OF k(1) xf f] by (auto simp: holds_data_def k(2,5))
  have full': "int (block_count (re_block env) (length c)) \<le> u64_as_i64 (st_block_total (rentry r x))"
    using full c(2) k(2) by simp
  note all = counted_complete [OF k(1) plan c(1) f xf full']
  have "ftruncate (length c) (write_blocks (re_sparse env) (log_of r f) []) = c"
    by (rule write_blocks_restore [of "re_block env"])
      (use plan c all(4) mset_eq_setD [OF all(4)] in \<open>auto simp: plan_ok_def\<close>)
  moreover have same: "fv_same (rw_fs r) (fds (rx_world s))"
    using m by (simp add: mirrors_def)
  then have "fv_node (fds (rx_world s)) (fi_fd fi) = Some n" "fv_spoilt (fds (rx_world s)) (fi_fd fi) = fv_spoilt (rw_fs r) (fi_fd fi)"
    "fv_data (fds (rx_world s)) n = fv_data (rw_fs r) n"
    using n(1) by (simp_all add: fv_same_def)
  ultimately show "restored fds env s fi"
    using n(2) c by (auto simp: restored_def k(4))
qed

lemma finish_file_mirrors:
  assumes os: "os_files os fds" and plan: "plan_ok env" and m: "mirrors fds env seen s r" and reach: "rw_reach env r"
    and wf: "rx_wf s" and f: "f \<noteq> 0" and g: "file_getstats f (rx_tab s) = Some x" and fi: "rx_hash s f = Some fi"
    and known: "0 \<le> fi_blocks fi" and full: "fi_blocks fi \<le> u64_as_i64 (st_block_total (fs_tab (rx_tab s) x))"
  shows "rust_steps env r (close_counted env f r)" and "mirrors fds env seen (finish_file os f x fi s) (close_counted env f r)"
proof -
  let ?s = "finish_file os f x fi s"
  note k = entry_known [OF plan m reach wf f g fi known]
  obtain n where n: "fv_node (rw_fs r) (st_fd (rentry r x)) = Some n"
    using open_slot(4) [OF k(1), of x] k(2,3) f by (auto simp: holds_data_def)
  have "file_getstats f (rw_io r) = Some x" "fi_blocks fi \<le> u64_as_i64 (st_block_total (rentry r x))"
    using g full k(2) by simp_all
  note r' = close_fields [OF k(6) this(1) known this(2) n]
  have "rw_step env r (close_counted env f r)"
    using m f by (intro rw_close) (simp_all add: mirrors_def)
  then show "rust_steps env r (close_counted env f r)"
    by (auto simp: rust_steps_def r')
  have w: "fds (rx_world ?s) = fv_close (fi_fd fi) (fv_truncate (fi_fd fi) (fi_sz fi) (fds (rx_world s)))"
    using os by (simp add: finish_file_def Let_def os_files_def)
  have "fv_same (rw_fs r) (fds (rx_world s))"
    using m by (simp add: mirrors_def)
  then have "fv_same (rw_fs (close_counted env f r)) (fds (rx_world ?s))"
    using k(2,5) by (simp add: r' w fv_same_close fv_same_truncate)
  moreover have "hash_told env (rx_hash ?s)"
    using m by (auto simp: mirrors_def hash_told_def finish_file_def Let_def)
  moreover have "rx_tab ?s = file_incrementtail (memset_slot x (rx_tab s))" "rx_add ?s = rx_add s" "rx_args ?s = rx_args s"
    by (simp_all add: finish_file_def Let_def)
  ultimately show "mirrors fds env seen ?s (close_counted env f r)"
    using m k(2) by (simp add: mirrors_def) (simp add: r')
qed

lemma close_loop_mirrors:
  assumes "os_files os fds" and "plan_ok env" and "mirrors fds env seen s r" and "rw_reach env r" and "rx_wf s"
    and "rx_close s = fs" and "close_loop os fs ret s = Done (res, s')"
  shows "\<exists>r'. rust_steps env r r' \<and> mirrors fds env seen s' r'"
  using assms(3-)
proof (induction fs arbitrary: ret s r)
  case Nil
  then show ?case
    using mirrors_stay [of fds env seen s r] by simp
next
  case (Cons f fs)
  have f: "f \<noteq> 0"
    using Cons.prems(3,4) by (simp add: rx_wf_def)
  show ?case
  proof (cases "close_loop os (f # fs) ret s = Done (ret, s)")
    case False
    then obtain x fi where x: "file_getstats f (rx_tab s) = Some x" "rx_hash s f = Some fi" "0 \<le> fi_blocks fi"
      "fi_blocks fi \<le> u64_as_i64 (st_block_total (fs_tab (rx_tab s) x))"
      and loop: "close_loop os fs (ret @ [fi\<lparr>fi_crc := rust_crc (fs_tab (rx_tab s) x)\<rparr>]) (finish_file os f x fi s) = Done (res, s')"
      using Cons.prems(5) by (cases "rx_hash s f") (auto simp: Let_def split: option.splits if_splits)
    note step = finish_file_mirrors [OF assms(1,2) Cons.prems(1-3) f x]
    note spec = finish_file_spec [OF Cons.prems(3,4) x(1,2)]
    show ?thesis
      using Cons.IH [OF step(2) rust_steps_reach [OF step(1) Cons.prems(2)] _ _ loop] spec rust_steps_trans [OF step(1)] by blast
  qed (use Cons.prems(5) mirrors_stay [OF Cons.prems(1)] in simp)
qed

subsection \<open>Messages\<close>

lemma hash_told_spec:
  assumes "hash_told env h" and "spec_told env seen e"
  shows "hash_told env (hash_spec p e h)"
  using assms unfolding hash_told_def spec_told_def hash_spec_def entry_or_default_def spec_entry_def
  by (auto simp: FileInformation_default_def split: option.splits)

lemma hash_told_count:
  assumes "hash_told env h" and "count_told env e"
  shows "hash_told env (hash_count e h)"
  using assms unfolding hash_told_def count_told_def hash_count_def entry_or_default_def count_entry_def
  by (auto simp: FileInformation_default_def split: option.splits)

lemma take_specs_same:
  assumes "take_specs root es s = Done s'"
  shows "rx_tab s' = rx_tab s \<and> rx_world s' = rx_world s \<and> rx_args s' = rx_args s \<and> rx_add s' = rx_add s @ map f_fino es \<and>
    (hash_told env (rx_hash s) \<longrightarrow> (\<forall>e \<in> set es. spec_told env seen e) \<longrightarrow> hash_told env (rx_hash s'))"
  using assms
proof (induction es arbitrary: s)
  case (Cons e es)
  then obtain n where "f_name e = Some n" and t: "take_specs root es
      (s\<lparr>rx_hash := hash_spec (full_path root n) e (rx_hash s), rx_add := rx_add s @ [f_fino e]\<rparr>) = Done s'"
    by auto
  show ?case
    using Cons.IH [OF t] hash_told_spec [of env "rx_hash s" seen e] by auto
qed simp

lemma take_counts_same:
  "rx_tab (take_counts es s) = rx_tab s \<and> rx_world (take_counts es s) = rx_world s \<and> rx_args (take_counts es s) = rx_args s \<and>
   rx_add (take_counts es s) = rx_add s \<and>
   (hash_told env (rx_hash s) \<longrightarrow> (\<forall>e \<in> set es. count_told env e) \<longrightarrow> hash_told env (rx_hash (take_counts es s)))"
  by (induction es arbitrary: s) (simp_all add: hash_told_count)

lemma mirrors_seen: "mirrors fds env seen s r \<Longrightarrow> seen \<subseteq> seen' \<Longrightarrow> mirrors fds env seen' s r"
  by (auto simp: mirrors_def)

lemma take_file_list_mirrors:
  assumes m: "mirrors fds env seen s r" and told: "list_told env seen fl" and t: "take_file_list fl s = Done s'"
  shows "mirrors fds env (seen \<union> set (rx_add s')) s' r"
proof -
  obtain es where es: "fl_files fl = Some es"
    using t by (cases "fl_files fl") (simp_all add: take_file_list_def)
  show ?thesis
  proof (cases "fl_root fl")
    case None
    then have "s' = take_counts es s" "\<forall>e \<in> set es. count_told env e"
      using t told es by (simp_all add: take_file_list_def list_told_def)
    then show ?thesis
      using m take_counts_same [of es s env] by (auto simp: mirrors_def)
  next
    case (Some root)
    then have "take_specs root es s = Done s'" and e: "\<forall>e \<in> set es. spec_told env seen e"
      using t told es by (simp_all add: take_file_list_def list_told_def)
    note s' = take_specs_same [OF this(1), of env seen]
    have "f_fino ` set es \<inter> rw_used r = {}"
      using e m by (auto simp: spec_told_def mirrors_def)
    then show ?thesis
      using m s' e unfolding mirrors_def by auto
  qed
qed

lemma take_message_mirrors:
  assumes os: "os_files os fds" and m: "mirrors fds env seen s r" and t: "take_message C os ptr s = Done s'"
    and told: "\<And>sz c fl. rx_open C ptr = Done (sz, msg_file_spec, c) \<Longrightarrow> rx_file_list C c = Done fl \<Longrightarrow> list_told env seen fl"
  shows "mirrors fds env (seen \<union> set (rx_add s')) s' r"
proof -
  obtain sz ty c where o: "rx_open C ptr = Done (sz, ty, c)"
    using t by (cases "rx_open C ptr") (auto simp: take_message_def)
  have meta: "mirrors fds env X (meta_done os s1) r" if "mirrors fds env X s1 r" for X s1
    using os by (intro mirrors_cong [OF that]) (simp_all add: meta_done_def os_files_def)
  have m2: "mirrors fds env seen (s\<lparr>rx_transfer_complete := True\<rparr>) r"
    by (rule mirrors_cong [OF m]) simp_all
  show ?thesis
  proof (cases "ty = msg_file_spec")
    case True
    then obtain fl s1 where fl: "rx_file_list C c = Done fl" "take_file_list fl s = Done s1" "s' = meta_done os s1"
      using t o by (cases "rx_file_list C c"; cases "take_file_list (case rx_file_list C c of Done fl \<Rightarrow> fl) s")
        (auto simp: take_message_def)
    then have "rx_add s' = rx_add s1"
      by (simp add: meta_done_def)
    then show ?thesis
      using meta [OF take_file_list_mirrors [OF m told fl(2)]] o fl True by simp
  next
    case False
    then have "s' = meta_done os s \<or> s' = meta_done os (s\<lparr>rx_transfer_complete := True\<rparr>)"
      using t o by (auto simp: take_message_def split: if_splits)
    then show ?thesis
      using mirrors_seen [OF meta [OF m]] mirrors_seen [OF meta [OF m2]] by auto
  qed
qed

subsection \<open>Iterations\<close>

lemma report_error_mirrors:
  assumes "mirrors fds env seen s r" and "report_error C code s = Done s'"
  shows "mirrors fds env seen s' r"
proof -
  have "rx_tab s' = rx_tab s \<and> rx_world s' = rx_world s \<and> rx_args s' = rx_args s \<and> rx_hash s' = rx_hash s \<and>
    set (rx_add s') \<subseteq> set (rx_add s)"
  proof (cases "0 < code")
    case True
    then obtain f fs where a: "rx_add s = f # fs"
      using assms(2) by (cases "rx_add s") (simp_all add: report_error_def)
    then obtain i where i: "rx_hash s f = Some i"
      using assms(2) True by (cases "rx_hash s f") (simp_all add: report_error_def)
    show ?thesis
      using assms(2) True a i
      by (auto simp: report_error_def send_file_error_def)
  qed (use assms(2) in \<open>simp add: report_error_def\<close>)
  then show ?thesis
    by (intro mirrors_cong [OF assms(1)]) simp_all
qed

lemma rx_front_mirrors:
  assumes os: "os_files os fds" and plan: "plan_ok env" and m: "mirrors fds env seen s r" and reach: "rw_reach env r"
    and wf: "rx_wf s" and front: "rx_front C os s = Done (n, s4)"
  shows "\<exists>r'. rust_steps env r r' \<and> mirrors fds env seen s4 r'"
proof -
  obtain k code s1 where a: "add_file os s = Done ((k, code), s1)" "rx_wf s1"
    using add_loop_spec [OF wf refl, of os 0] by (auto simp: add_file_def add_effect_def)
  obtain r1 where r1: "rust_steps env r r1" "mirrors fds env seen s1 r1"
    using add_loop_mirrors [OF os m wf refl a(1) [unfolded add_file_def]] by blast
  obtain res s2 where c: "close_file os s1 = Done (res, s2)"
    using close_loop_spec [OF a(2) refl, of os "[]"] unfolding close_file_def by force
  obtain r2 where r2: "rust_steps env r1 r2" "mirrors fds env seen s2 r2"
    using close_loop_mirrors [OF os plan r1(2) rust_steps_reach [OF r1(1) reach] a(2) refl c [unfolded close_file_def]] by blast
  let ?s3 = "s2\<lparr>rx_count_out := rx_count_out s2 + length res, rx_complete := rx_complete s2 @ res,
    rx_count_in := rx_count_in s2 + k\<rparr>"
  have "mirrors fds env seen ?s3 r2"
    by (rule mirrors_cong [OF r2(2)]) simp_all
  moreover have "report_error C code ?s3 = Done s4"
    using front a(1) c by (cases "report_error C code ?s3") (simp_all add: rx_front_def Let_def)
  ultimately have "mirrors fds env seen s4 r2"
    by (rule report_error_mirrors)
  then show ?thesis
    using rust_steps_trans [OF r1(1) r2(1)] by blast
qed

lemma send_file_completions_same:
  assumes "send_file_completions C s = Done (b, s')"
  shows "rx_tab s' = rx_tab s \<and> rx_add s' = rx_add s \<and> rx_args s' = rx_args s \<and> rx_hash s' = rx_hash s \<and>
    rx_world s' = rx_world s"
  using assms by (auto simp: send_file_completions_def Let_def split: if_splits)

lemma rx_idle_same:
  assumes "rx_idle C os s = Done (Again, s')"
  shows "rx_tab s' = rx_tab s \<and> rx_add s' = rx_add s \<and> rx_args s' = rx_args s \<and> rx_hash s' = rx_hash s \<and>
    (rx_world s' = rx_world s \<or> (\<exists>k. rx_world s' = os_sleep os k (rx_world s)))"
proof -
  obtain b s1 where s1: "send_file_completions C s = Done (b, s1)" "s' = s1\<lparr>rx_timeout := 100\<rparr> \<or> s' = idle_wait os s1"
    using assms by (auto simp: rx_idle_def split: if_splits)
  then show ?thesis
    using send_file_completions_same [OF s1(1)] by (auto simp: idle_wait_def Let_def)
qed

lemma rx_iter_mirrors:
  assumes os: "os_files os fds" and plan: "plan_ok env" and m: "mirrors fds env seen s r" and reach: "rw_reach env r"
    and inv: "rx_inv s" and told: "next_told C os env seen s" and iter: "rx_iter C os s = Done (Again, s')"
  shows "\<exists>r'. rust_steps env r r' \<and> mirrors fds env (seen \<union> set (rx_add s')) s' r'"
proof -
  obtain n s4 where front: "rx_front C os s = Done (n, s4)"
    using iter by (auto simp: rx_iter_def)
  then obtain r' where r': "rust_steps env r r'" "mirrors fds env seen s4 r'"
    using rx_front_mirrors [OF os plan m reach _ front] inv by (auto simp: rx_inv_def)
  have keep: "mirrors fds env (seen \<union> set (rx_add s')) s' r'"
    if "rx_tab s' = rx_tab s4" "fv_same (fds (rx_world s4)) (fds (rx_world s'))" "rx_add s' = rx_add s4" "rx_args s' = rx_args s4"
      "rx_hash s' = rx_hash s4"
    by (rule mirrors_seen [OF mirrors_cong [OF r'(2)]]) (use that in auto)
  obtain p w where p: "os_meta_recv os (rx_world s4) = (p, w)"
    by (cases "os_meta_recv os (rx_world s4)")
  have w: "fv_same (fds (rx_world s4)) (fds w)" "\<And>k v. fv_same (fds v) (fds (os_sleep os k v))"
    using os p unfolding os_files_def by (metis snd_conv) (metis os [unfolded os_files_def])
  have "mirrors fds env (seen \<union> set (rx_add s')) s' r'"
  proof (cases "n > 0")
    case True
    then have "s' = s4\<lparr>rx_timeout := 100\<rparr>"
      using iter front by (auto simp: rx_iter_def split: if_splits)
    then show ?thesis
      by (intro keep) simp_all
  next
    case False
    show ?thesis
    proof (cases p)
      case None
      then have "rx_idle C os (s4\<lparr>rx_world := w\<rparr>) = Done (Again, s')"
        using iter front False p by (auto simp: rx_iter_def split: if_splits)
      then have "rx_tab s' = rx_tab s4" "fv_same (fds (rx_world s4)) (fds (rx_world s'))" "rx_add s' = rx_add s4"
        "rx_args s' = rx_args s4" "rx_hash s' = rx_hash s4"
        using w fv_same_trans [OF w(1) w(2)] by (auto dest: rx_idle_same)
      then show ?thesis
        by (rule keep)
    next
      case (Some ptr)
      let ?s = "s4\<lparr>rx_world := w, rx_timeout := 100\<rparr>"
      have t: "take_message C os ptr ?s = Done s'"
        using iter front False p Some by (auto simp: rx_iter_def split: if_splits)
      have "mirrors fds env seen ?s r'"
        using w(1) by (intro mirrors_cong [OF r'(2)]) simp_all
      then show ?thesis
        by (rule take_message_mirrors [OF os _ t]) (use told front p Some in \<open>auto simp: next_told_def\<close>)
    qed
  qed
  then show ?thesis
    using r'(1) by blast
qed

subsection \<open>Steps of the workers\<close>

text \<open>
  A worker step changes only counters, checksum and the state mark of an entry, so the loop sees the
  same files.
\<close>

definition same_entry :: "file_stat_type \<Rightarrow> file_stat_type \<Rightarrow> bool" where
  "same_entry e e' \<longleftrightarrow> st_file_no e' = st_file_no e \<and> st_fd e' = st_fd e \<and> st_read_limit e' = st_read_limit e"

lemma rx_inv_entries:
  assumes inv: "rx_inv s" and io: "fs_inv t" and same: "\<And>x. same_entry (fs_tab (rx_tab s) x) (fs_tab t x)"
  shows "rx_inv (s\<lparr>rx_tab := t, rx_world := w\<rparr>)"
proof -
  have g: "file_getstats f t = file_getstats f (rx_tab s)" for f
    using same by (simp add: file_getstats_def same_entry_def)
  have none: "fs_view t f = None \<longleftrightarrow> fs_view (rx_tab s) f = None" for f
    by (simp add: fs_view_def fs_lookup_def g)
  have fd: "\<exists>v'. fs_view (rx_tab s) f = Some v' \<and> fst v' = fst v" if "fs_view t f = Some v" for f v
    using that same by (auto simp: fs_view_def fs_lookup_def g stat_view_def same_entry_def split: if_splits)
  let ?s = "s\<lparr>rx_tab := t, rx_world := w\<rparr>"
  have "entered ?s f" if "entered s f" for f
    using that fd by (fastforce simp: entered_def)
  moreover have "waiting ?s f = waiting s f" for f
    using none by (simp add: waiting_def)
  moreover have "open_files ?s = open_files s"
    using none by (auto simp: open_files_def dom_def)
  moreover have "st_read_limit (fs_tab t x) = st_read_limit (fs_tab (rx_tab s) x)" for x
    using same by (simp add: same_entry_def)
  ultimately show ?thesis
    using inv io by (simp add: rx_inv_def rx_wf_def)
qed

lemma rworker_step_entries: "same_entry (rentry s x) (rentry (rworker_step env i junk k s pc) x)"
proof (cases pc)
  case (Rx_wait b xs)
  then show ?thesis
    by (cases xs) (auto simp: same_entry_def Let_def)
qed (auto simp: same_entry_def recv_block_def mark_file_def hash_block_def rx_write_def count_block_def Let_def
      stat_update_def split: list.splits option.splits prod.splits)

text \<open>A worker does the same in two states that agree on what it looks at.\<close>

definition alike :: "rw_state \<Rightarrow> rw_state \<Rightarrow> bool" where
  "alike r v \<longleftrightarrow>
     rw_io r = rw_io v \<and> rw_wk r = rw_wk v \<and> rw_cur r = rw_cur v \<and> rw_in r = rw_in v \<and> rw_dead r = rw_dead v \<and>
     fv_same (rw_fs r) (rw_fs v)"

lemma alike_set: "rw_io r = rw_io v \<Longrightarrow> rw_io (set_rentry x e r) = rw_io (set_rentry x e v)"
  by (simp add: set_rentry_def)

lemma rx_write_alike:
  assumes a: "alike r v"
  shows "alike (rx_write env i junk k b r) (rx_write env i junk k b v)"
proof -
  obtain f x d where cur: "rw_cur r i = (f, x, d)"
    by (cases "rw_cur r i")
  have "rw_cur v i = (f, x, d)" "fv_node (rw_fs v) d = fv_node (rw_fs r) d"
    using a cur by (simp_all add: alike_def fv_same_def)
  then show ?thesis
    using a by (auto simp: alike_def rx_write_def cur Let_def fv_same_pwrite split: option.split)
qed

lemma rworker_step_alike:
  assumes a: "alike r v"
  shows "alike (rworker_step env i junk k r pc) (rworker_step env i junk k v pc)"
proof (cases pc)
  case Rx_recv
  then show ?thesis
    using a by (auto simp: alike_def recv_block_def Let_def split: list.splits)
next
  case (Rx_wait b xs)
  then show ?thesis
    using a by (cases xs) (auto simp: alike_def Let_def)
next
  case (Rx_mark b x fd xs)
  then show ?thesis
    using a alike_set [of r v] by (auto simp: alike_def mark_file_def)
next
  case (Rx_hash b)
  then show ?thesis
    using a alike_set [of r v] by (cases "rw_cur r i") (auto simp: alike_def hash_block_def)
next
  case (Rx_write b)
  then show ?thesis
    using rx_write_alike [OF a] by simp
next
  case (Rx_count b sz)
  then show ?thesis
    using a alike_set [of r v] by (cases "rw_cur r i") (auto simp: alike_def count_block_def)
qed

lemma rworker_step_used: "rw_used (rworker_step env i junk k r pc) = rw_used r"
proof (cases pc)
  case (Rx_wait b xs)
  then show ?thesis
    by (cases xs) (auto simp: Let_def)
qed (auto simp: recv_block_def mark_file_def hash_block_def rx_write_def count_block_def Let_def
      split: list.splits option.splits prod.splits)

subsection \<open>The invariant of the system\<close>

definition joint_inv :: "('w \<Rightarrow> fd_view) \<Rightarrow> rw_env \<Rightarrow> 'w joint \<Rightarrow> bool" where
  "joint_inv fds env j \<longleftrightarrow>
     rx_inv (jn_rx j) \<and>
     (\<exists>r. rw_reach env r \<and> mirrors fds env (jn_seen j) (jn_rx j) r \<and> rw_wk r = jn_wk j \<and> rw_cur r = jn_cur j \<and>
        rw_in r = jn_in j)"

lemma joint_inv_start:
  assumes "bit (da_flags args) 9"
  shows "joint_inv fds env (jn_start env args w)"
proof -
  let ?r = "rw_init env (fds w)"
  have "rw_reach env ?r"
    unfolding rw_reach_def by (rule reachable_start) blast
  moreover have "mirrors fds env {} (rx_start args w) ?r"
    using assms by (simp add: mirrors_def rw_init_def rx_start_def hash_told_def)
  moreover have "rw_wk ?r = (\<lambda>_. Rx_recv)" "rw_cur ?r = (\<lambda>_. (0, 0, 0))" "rw_in ?r = re_stream env"
    by (simp_all add: rw_init_def)
  ultimately show ?thesis
    using rx_inv_start [of args w] by (auto simp: joint_inv_def jn_start_def)
qed

lemma joint_inv_work:
  assumes plan: "plan_ok env" and inv: "joint_inv fds env j" and i: "i < re_threads env"
    and v: "v = rworker_step env i junk k (jn_view fds j) (jn_wk j i)" and alive: "\<not> rw_dead v"
    and w: "fds w = rw_fs v"
  shows "joint_inv fds env
    (j\<lparr>jn_rx := (jn_rx j)\<lparr>rx_tab := rw_io v, rx_world := w\<rparr>, jn_wk := rw_wk v, jn_cur := rw_cur v, jn_in := rw_in v\<rparr>)"
proof -
  obtain r where r: "rw_reach env r" "mirrors fds env (jn_seen j) (jn_rx j) r" "rw_wk r = jn_wk j" "rw_cur r = jn_cur j"
    "rw_in r = jn_in j" and rx: "rx_inv (jn_rx j)"
    using inv by (auto simp: joint_inv_def)
  let ?r = "rworker_step env i junk k r (rw_wk r i)"
  have "alike r (jn_view fds j)"
    using r by (auto simp: alike_def jn_view_def mirrors_def)
  then have "alike ?r v"
    using rworker_step_alike [of r "jn_view fds j" env i junk k "rw_wk r i"] by (simp add: v r(3))
  then have a: "rw_io ?r = rw_io v" "rw_wk ?r = rw_wk v" "rw_cur ?r = rw_cur v" "rw_in ?r = rw_in v" "\<not> rw_dead ?r"
    "fv_same (rw_fs ?r) (fds w)"
    using alive by (auto simp: alike_def w)
  have "rw_step env r ?r"
    using r(2) i by (intro rw_work) (simp_all add: mirrors_def)
  then have reach: "rw_reach env ?r"
    using r(1) by (auto simp: rw_reach_def intro: reachable_step)
  have "same_entry (fs_tab (rx_tab (jn_rx j)) x) (fs_tab (rw_io v) x)" for x
    using rworker_step_entries [of "jn_view fds j" x env i junk k "jn_wk j i"] by (simp add: v) (simp add: jn_view_def)
  then have "rx_inv ((jn_rx j)\<lparr>rx_tab := rw_io v, rx_world := w\<rparr>)"
    using rw_reach_inv [OF reach plan] a(1) by (intro rx_inv_entries [OF rx]) (simp_all add: rw_inv_def)
  moreover have "mirrors fds env (jn_seen j) ((jn_rx j)\<lparr>rx_tab := rw_io v, rx_world := w\<rparr>) ?r"
    using r(2) a by (simp add: mirrors_def rworker_step_used)
  ultimately show ?thesis
    using reach a by (auto simp: joint_inv_def)
qed

lemma joint_inv_spurious:
  assumes inv: "joint_inv fds env j" and i: "i < re_threads env" and pc: "jn_wk j i = Rx_mark b x fd xs"
  shows "joint_inv fds env (j\<lparr>jn_wk := (jn_wk j)(i := Rx_wait b xs)\<rparr>)"
proof -
  obtain r where r: "rw_reach env r" "mirrors fds env (jn_seen j) (jn_rx j) r" "rw_wk r = jn_wk j" "rw_cur r = jn_cur j"
    "rw_in r = jn_in j" and rx: "rx_inv (jn_rx j)"
    using inv by (auto simp: joint_inv_def)
  let ?r = "rgoto i (Rx_wait b xs) r"
  have "rw_step env r ?r"
    using r(2,3) i pc by (intro rw_spurious) (simp_all add: mirrors_def)
  then have "rw_reach env ?r"
    using r(1) by (auto simp: rw_reach_def intro: reachable_step)
  moreover have "mirrors fds env (jn_seen j) (jn_rx j) ?r"
    using r(2) by (simp add: mirrors_def)
  ultimately show ?thesis
    using r(3-5) rx by (auto simp: joint_inv_def intro!: exI [of _ ?r])
qed

lemma joint_inv_loop:
  assumes os: "os_files os fds" and plan: "plan_ok env" and inv: "joint_inv fds env j" and ok: "next_ok C os (jn_rx j)"
    and told: "next_told C os env (jn_seen j) (jn_rx j)" and iter: "rx_iter C os (jn_rx j) = Done (Again, s)"
  shows "joint_inv fds env (j\<lparr>jn_rx := s, jn_seen := jn_seen j \<union> set (rx_add s)\<rparr>)"
proof -
  obtain r where r: "rw_reach env r" "mirrors fds env (jn_seen j) (jn_rx j) r" "rw_wk r = jn_wk j" "rw_cur r = jn_cur j"
    "rw_in r = jn_in j" and rx: "rx_inv (jn_rx j)"
    using inv by (auto simp: joint_inv_def)
  obtain r' where r': "rust_steps env r r'" "mirrors fds env (jn_seen j \<union> set (rx_add s)) s r'"
    using rx_iter_mirrors [OF os plan r(2,1) rx told iter] by blast
  moreover have "rw_reach env r'"
    by (rule rust_steps_reach [OF r'(1) r(1)])
  moreover have "rw_wk r' = jn_wk j" "rw_cur r' = jn_cur j" "rw_in r' = jn_in j"
    using r r'(1) by (auto simp: rust_steps_def)
  moreover have "rx_inv s"
    using rx_iter_good [OF rx ok] iter by simp
  ultimately show ?thesis
    by (auto simp: joint_inv_def)
qed

lemma joint_inv_world:
  assumes "joint_inv fds env j" and w: "fv_same (fds (rx_world (jn_rx j))) (fds w)"
  shows "joint_inv fds env (j\<lparr>jn_rx := (jn_rx j)\<lparr>rx_world := w\<rparr>\<rparr>)"
proof -
  have "rx_inv ((jn_rx j)\<lparr>rx_world := w\<rparr>)"
    by (rule rx_inv_update [of "jn_rx j"]) (use assms(1) in \<open>simp_all add: joint_inv_def\<close>)
  then show ?thesis
    using assms(1) fv_same_trans [OF _ w] by (auto simp: joint_inv_def mirrors_def)
qed

lemma joint_inv_step:
  assumes "joint_step C os fds env j j'" and "os_files os fds" and "plan_ok env" and "joint_inv fds env j"
  shows "joint_inv fds env j'"
  using assms
proof (induction rule: joint_step.induct)
  case (jn_work i v junk k j w)
  then show ?case
    by (intro joint_inv_work) simp_all
next
  case (jn_loop j s)
  then show ?case
    by (intro joint_inv_loop) simp_all
next
  case (jn_spurious i j b x fd xs)
  then show ?case
    by (intro joint_inv_spurious) simp_all
next
  case (jn_world j w)
  then show ?case
    by (intro joint_inv_world) simp_all
qed

interpretation joint_run: step_system "\<lambda>j. \<exists>w. j = jn_start env args w" "joint_step C os fds env"
  "\<lambda>j. os_files os fds \<and> plan_ok env \<and> bit (da_flags args) 9 \<longrightarrow> joint_inv fds env j"
  by unfold_locales (auto simp: joint_inv_start intro: joint_inv_step)

lemma joint_reach_inv:
  "joint_reach C os fds env args j \<Longrightarrow> os_files os fds \<Longrightarrow> plan_ok env \<Longrightarrow> bit (da_flags args) 9 \<Longrightarrow> joint_inv fds env j"
  unfolding joint_reach_def by (drule joint_run.reachable_inv) simp

text \<open>Closing changes no other file.\<close>

lemma close_world_files:
  "os_files os fds \<Longrightarrow> fds (close_world os p i w) = fv_close (fi_fd i) (fv_truncate (fi_fd i) (fi_sz i) (fds w))"
  by (simp add: close_world_def os_files_def Let_def)

definition sole :: "fd_view \<Rightarrow> node \<Rightarrow> i32 \<Rightarrow> bool" where
  "sole v n fd \<longleftrightarrow> (\<forall>d. fv_node v d = Some n \<longrightarrow> d = fd)"

lemma close_others:
  assumes os: "os_files os fds" and "sole (fds w) n fd" and "\<forall>i \<in> set cl. fi_fd i \<noteq> fd"
  shows "sole (fds (fold (close_world os p) cl w)) n fd \<and>
    fv_node (fds (fold (close_world os p) cl w)) fd = fv_node (fds w) fd \<and>
    fv_data (fds (fold (close_world os p) cl w)) n = fv_data (fds w) n"
  using assms(2-)
proof (induction cl arbitrary: w)
  case (Cons i cl)
  have "sole (fds (close_world os p i w)) n fd" "fv_node (fds (close_world os p i w)) fd = fv_node (fds w) fd"
    "fv_data (fds (close_world os p i w)) n = fv_data (fds w) n"
    using Cons.prems unfolding close_world_files [OF os]
    by (auto simp: sole_def fv_close_def fv_truncate_def fv_change_def split: option.splits)
  then show ?case
    using Cons.IH [of "close_world os p i w"] Cons.prems(2) by simp
qed simp

lemma closed_data:
  assumes os: "os_files os fds" and n: "fv_node (fds w) (fi_fd i) = Some n" and sole: "sole (fds w) n (fi_fd i)"
    and "0 \<le> fi_sz i" and "distinct (map fi_fd cl)" and "i \<in> set cl"
  shows "fv_data (fds (fold (close_world os p) cl w)) n = ftruncate (nat (fi_sz i)) (fv_data (fds w) n)"
proof -
  obtain c1 c2 where cl: "cl = c1 @ i # c2"
    using split_list [OF assms(6)] by blast
  have c1: "\<forall>k \<in> set c1. fi_fd k \<noteq> fi_fd i" and c2: "\<forall>k \<in> set c2. fi_fd k \<noteq> fi_fd i"
    using assms(5) by (auto simp: cl image_iff)
  let ?w1 = "fold (close_world os p) c1 w"
  have w1: "sole (fds ?w1) n (fi_fd i)" "fv_node (fds ?w1) (fi_fd i) = Some n" "fv_data (fds ?w1) n = fv_data (fds w) n"
    using close_others [OF os sole c1, of p] n by simp_all
  let ?c = "ftruncate (nat (fi_sz i)) (fv_data (fds w) n)"
  have v2: "fds (close_world os p i ?w1) = fv_close (fi_fd i) (fv_change (fi_fd i) n ?c (fds ?w1))"
    using w1(2,3) assms(4) by (simp add: close_world_files [OF os] fv_truncate_def)
  have w2: "sole (fds (close_world os p i ?w1)) n (fi_fd i)" "fv_data (fds (close_world os p i ?w1)) n = ?c"
    using w1(1) by (simp_all add: v2 sole_def fv_close_def fv_change_def)
  show ?thesis
    using close_others [OF os w2(1) c2, of p] w2(2) by (simp add: cl)
qed

lemma distinct_labels: "distinct (map k xs) \<Longrightarrow> \<forall>x \<in> set xs. l (h x) = Some (k x) \<Longrightarrow> distinct (map h xs)"
proof (induction xs)
  case (Cons x xs)
  have "h x \<noteq> h y" if "y \<in> set xs" for y
    using Cons.prems that by (metis (no_types, lifting) distinct.simps(2) image_eqI list.set_intros list.set_map list.simps(9) option.inject)
  then show ?case
    using Cons by auto
qed simp

text \<open>What an iteration closes is restored.\<close>

lemma closed_restored:
  assumes os: "os_files os fds" and plan: "plan_ok env" and "joint_inv fds env j" and a: "add_file os (jn_rx j) = Done (k, s1)"
    and c: "close_file os s1 = Done (res, s2)" and fi: "fi \<in> set res"
  shows "restored fds env s1 fi"
    and "\<And>n. fv_node (fds (rx_world s1)) (fi_fd fi) = Some n \<Longrightarrow> sole (fds (rx_world s1)) n (fi_fd fi) \<Longrightarrow>
      fv_data (fds (rx_world s2)) n = ftruncate (nat (fi_sz fi)) (fv_data (fds (rx_world s1)) n)"
proof -
  obtain r where r: "rw_reach env r" "mirrors fds env (jn_seen j) (jn_rx j) r" and wf: "rx_wf (jn_rx j)"
    using assms(3) by (auto simp: joint_inv_def rx_inv_def)
  have wf1: "rx_wf s1"
    using add_loop_spec [OF wf refl, of os 0] a by (auto simp: add_file_def add_effect_def)
  obtain r1 where r1: "rust_steps env r r1" "mirrors fds env (jn_seen j) s1 r1"
    using add_loop_mirrors [OF assms(1) r(2) wf refl a [unfolded add_file_def]] by blast
  note reach = rust_steps_reach [OF r1(1) r(1)]
  obtain cl where cl: "res = map (\<lambda>i. i\<lparr>fi_crc := 0\<rparr>) cl" "s2 = closed_state os cl s1"
    "\<forall>i \<in> set cl. rx_hash s1 (fi_fino i) = Some i"
    using close_loop_state [OF wf1 refl, of os "[]"] c by (auto simp: close_file_def)
  obtain res' s' where "close_file os s1 = Done (res', s')" and d: "distinct (map fi_fino res')"
    "\<forall>fi \<in> set res'. closable s1 (fi_fino fi)" "rx_close s1 = map fi_fino res' @ rx_close s'"
    using close_loop_spec [OF wf1 refl, of os "[]"] unfolding close_file_def by force
  then have res': "res' = res"
    using c by simp
  have nz: "fi_fino i \<noteq> 0" if "i \<in> set res" for i
    using d(3) that wf1 by (auto simp: rx_wf_def res')
  have each: "restored fds env s1 i \<and> rw_label r1 (fi_fd i) = Some (fi_fino i)" if "i \<in> set cl" for i
  proof -
    have i: "fi_fino i \<noteq> 0" "closable s1 (fi_fino i)" "rx_hash s1 (fi_fino i) = Some i"
      using that nz [of "i\<lparr>fi_crc := 0\<rparr>"] d(2) cl(1,3) by (auto simp: res')
    show ?thesis
      using closable_restored [OF plan r1(2) reach wf1 i] by simp
  qed
  obtain i where i: "i \<in> set cl" "fi = i\<lparr>fi_crc := 0\<rparr>"
    using fi cl(1) by auto
  then show "restored fds env s1 fi"
    using each [OF i(1)] by (simp add: restored_def)
  have "distinct (map fi_fino cl)"
    using d(1) by (simp add: res' cl(1) comp_def)
  then have dist: "distinct (map fi_fd cl)"
    by (rule distinct_labels [where l = "rw_label r1"]) (use each in blast)
  have "0 \<le> fi_sz i"
    using each [OF i(1)] by (auto simp: restored_def)
  then show "fv_data (fds (rx_world s2)) n = ftruncate (nat (fi_sz fi)) (fv_data (fds (rx_world s1)) n)"
    if "fv_node (fds (rx_world s1)) (fi_fd fi) = Some n" "sole (fds (rx_world s1)) n (fi_fd fi)" for n
    using closed_data [OF os, of _ i n cl, OF _ _ _ dist i(1)] that by (simp add: i(2) cl(2) closed_state_def)
qed

section \<open>The messages of the sender\<close>

text \<open>
  The block counts the sender takes from the reports of its workers are those the receiver
  relies on, and so is a specification that has the size of the opened file.
\<close>

lemma reported_count_told:
  assumes "env_ok env" and "tx_reach_own env t" and "fc \<in> set (tx_fc t)"
  shows "count_told (peer_env env sparse t) (block_count_entry (fis_file_no fc, fis_blocks fc))"
proof -
  have inv: "tx_inv env t"
    by (rule tx_reach_inv [OF assms(2,1)])
  then obtain fd c where c: "tx_added t (fis_file_no fc) = Some (fd, c)" "fc = file_report env (fis_file_no fc) c"
    using assms(3) unfolding tx_inv_def report_ok_def by blast
  have "length c < 2 ^ 63" and B: "0 < te_block env"
    using inv c(1) assms(1) unfolding tx_inv_def added_inv_def env_ok_def by blast+
  then have "block_count (te_block env) (length c) < 2 ^ 63"
    using block_count_le [OF B, of "length c"] by linarith
  moreover have "fis_blocks fc = of_nat (block_count (te_block env) (length c))"
    by (subst c(2)) (simp add: file_report_def fc_make_def)
  moreover have "reported t (fis_file_no fc) = Some c"
    using c(1) assms(3) by (auto simp: reported_def)
  ultimately show ?thesis
    by (simp add: count_told_def peer_env_def told_reported [OF assms(1,2)] block_count_entry_def FileArgs_default_def u64_as_i64_of_nat)
qed

lemma opened_spec_told:
  assumes "env_ok env" and "tx_reach_own env t"
    and "\<And>fd c. tx_added t f = Some (fd, c) \<Longrightarrow> s_size st = int (length c)" and "f \<notin> seen"
  shows "spec_told (peer_env env sparse t) seen (spec_of preserve (f, name, st))"
  using assms(3,4)
  by (auto simp: spec_told_def peer_env_def told_reported [OF assms(1,2)] spec_of_def reported_def FileArgs_default_def split: if_splits)

section \<open>Properties\<close>


end
