(* ===== verification/Receive_Runs.thy ===== *)
theory Receive_Runs
  imports Receive_Files
begin

text \<open>
  A complete run of the receiver: its loop is told of a file of one byte and opens it, a worker
  writes and counts the block, and the loop closes the file.
\<close>

section \<open>The world\<close>

text \<open>The messages still to come and the open files; descriptor 3 and file 5 are the only ones there are.\<close>

definition disk_os :: "(u8 list list \<times> fd_view) rx_os" where
  "disk_os =
     \<lparr>os_open = (\<lambda>p fl (q, d). if fv_node d 3 = None then ((3, 0), (q, fv_open 3 5 d)) else ((-1, EMFILE), (q, d))),
      os_create_dir_all = (\<lambda>p w. w), os_preserve = (\<lambda>fd i w. w),
      os_truncate = (\<lambda>fd n (q, d). (q, fv_truncate fd n d)),
      os_close_fd = (\<lambda>fd (q, d). (q, fv_close fd d)),
      os_meta_recv = (\<lambda>(q, d). case q of [] \<Rightarrow> (None, ([], d)) | m # ms \<Rightarrow> (Some m, (ms, d))),
      os_meta_complete = (\<lambda>w. w), os_threads_finished = (\<lambda>w. 0), os_sleep = (\<lambda>n w. w),
      os_scale = (\<lambda>n. n * 1337 div 1000)\<rparr>"

lemma disk_os_files: "os_files disk_os snd"
  unfolding os_files_def disk_os_def
  by (intro conjI allI impI) (auto split: list.splits if_splits prod.splits intro!: exI [of _ 5])

definition byte_stat :: stat where
  "byte_stat = demo_stat\<lparr>s_size := 1\<rparr>"

definition byte_spec :: ESCP_file_list where
  "byte_spec = spec_list False ''/dst'' False [(1, ''a'', byte_stat)]"

definition byte_count :: ESCP_file_list where
  "byte_count = block_count_list [(1, 1)]"

definition byte_codec :: "fbpush list codec" where
  "byte_codec = copy_codec [ESCP_file_list_create byte_spec, ESCP_file_list_create byte_count]"

definition byte_frames :: "u8 list list" where
  "byte_frames = [meta_frame (to_header 1 msg_file_spec) [0], meta_frame (to_header 2 msg_file_spec) [1, 0]]"

definition byte_args :: dtn_args where
  "byte_args = args_new\<lparr>da_flags := 577, da_nodirect := True\<rparr>"

lemma byte_lists:
  "fl_files byte_spec = Some [FileArgs_default\<lparr>f_fino := 1, f_name := Some ''a'', f_sz := 1\<rparr>]" "fl_root byte_spec = Some ''/dst''"
  "fl_files byte_count = Some [FileArgs_default\<lparr>f_fino := 1, f_blocks := 1\<rparr>]" "fl_root byte_count = None"
  by (simp_all add: byte_spec_def spec_list_def spec_of_def byte_stat_def byte_count_def block_count_list_def
      block_count_entry_def ESCP_file_listArgs_default_def u64_as_i64_def)

lemma byte_bytes: "file_list_bytes byte_codec byte_spec = [0]" "file_list_bytes byte_codec byte_count = [1, 0]"
proof -
  have "ESCP_file_list_create byte_spec \<noteq> ESCP_file_list_create byte_count"
    by (simp add: ESCP_file_list_create_def byte_lists push_str_def push_tabs_def)
  then show "file_list_bytes byte_codec byte_spec = [0]" "file_list_bytes byte_codec byte_count = [1, 0]"
    by (simp_all add: byte_codec_def file_list_bytes_def copy_codec_def short_api_def short_index_def)
qed

lemma byte_laws: "fb_laws (cd_fb byte_codec)"
  by (simp add: byte_codec_def copy_codec_def fb_laws_short)

lemma byte_open:
  "rx_open byte_codec (meta_frame (to_header 1 msg_file_spec) [0]) = Done (1, msg_file_spec, [0])"
  "rx_open byte_codec (meta_frame (to_header 2 msg_file_spec) [1, 0]) = Done (2, msg_file_spec, [1, 0])"
  using meta_open_frame [of "[0]" msg_file_spec] meta_open_frame [of "[1, 0]" msg_file_spec]
  by (simp_all add: rx_open_def)

lemma byte_read: "rx_file_list byte_codec [0] = Done byte_spec" "rx_file_list byte_codec [1, 0] = Done byte_count"
  using rx_file_list_bytes [OF byte_laws, of byte_spec "[]"] rx_file_list_bytes [OF byte_laws, of byte_count "[]"]
  by (simp_all add: byte_bytes)

section \<open>The loop\<close>

definition byte_info :: FileInformation where
  "byte_info = FileInformation_default\<lparr>fi_path := ''/dst/a'', fi_fino := 1, fi_sz := 1\<rparr>"

definition byte0 :: "(u8 list list \<times> fd_view) rx" where
  "byte0 = rx_start byte_args (byte_frames, no_files)"

definition byte1 :: "(u8 list list \<times> fd_view) rx" where
  "byte1 = byte0\<lparr>rx_world := (tl byte_frames, no_files), rx_add := [1], rx_hash := [1 \<mapsto> byte_info]\<rparr>"

definition byte_tab :: file_io where
  "byte_tab = file_io_init\<lparr>fs_tab := (\<lambda>_. stat_zero)(demo_slot := demo_entry), fs_count := 1\<rparr>"

definition byte2 :: "(u8 list list \<times> fd_view) rx" where
  "byte2 = byte1\<lparr>rx_world := (tl byte_frames, fv_open 3 5 no_files), rx_add := [], rx_hash := [1 \<mapsto> byte_info\<lparr>fi_fd := 3\<rparr>],
     rx_tab := byte_tab, rx_count_in := 1\<rparr>"

definition byte3 :: "(u8 list list \<times> fd_view) rx" where
  "byte3 = byte2\<lparr>rx_world := ([], fv_open 3 5 no_files), rx_close := [1], rx_hash := [1 \<mapsto> byte_info\<lparr>fi_fd := 3, fi_blocks := 1\<rparr>]\<rparr>"

lemmas byte_defs = byte0_def byte1_def byte2_def byte3_def rx_start_def disk_os_def byte_frames_def

lemma byte_front0: "rx_front byte_codec disk_os byte0 = Done (0, byte0)"
  by (simp add: rx_front_def add_file_def close_file_def report_error_def byte_defs)

lemma byte_spec_info:
  "hash_spec ''/dst/a'' (FileArgs_default\<lparr>f_fino := 1, f_name := Some ''a'', f_sz := 1\<rparr>) Map.empty = [1 \<mapsto> byte_info]"
  by (simp add: hash_spec_def spec_entry_def entry_or_default_def byte_info_def FileInformation_default_def FileArgs_default_def)

lemma byte_iter0: "rx_iter byte_codec disk_os byte0 = Done (Again, byte1)"
  by (simp add: rx_iter_def byte_front0)
   (simp add: byte_defs take_message_def byte_open byte_read take_file_list_def byte_lists full_path_def byte_spec_info meta_done_def)

lemma byte_ok0: "next_ok byte_codec disk_os byte0"
  by (simp add: next_ok_def byte_front0) (simp add: byte_defs frame_ok_def byte_open byte_read list_ok_def byte_lists
    spec_ok_def full_path_def demo_parent FileArgs_default_def)

lemma byte_tab_eq: "file_addfile 1 3 0 0 file_io_init = (Some demo_slot, byte_tab)"
  by (simp add: file_addfile_def file_io_init_def find_hd demo_slot_def demo_entry_def stat_zero_def byte_tab_def)

lemma byte_front1: "rx_front byte_codec disk_os byte1 = Done (1, byte2)"
  by (simp add: rx_front_def add_file_def close_file_def report_error_def byte_defs byte_info_def demo_paths no_files_def
    open_attempts.simps(2) [of 3, simplified] call_open_def enter_file_def byte_tab_eq byte_args_def args_new_def)

lemma byte_iter1: "rx_iter byte_codec disk_os byte1 = Done (Again, byte2)"
  by (simp add: rx_iter_def byte_front1) (simp add: byte_defs)

lemma byte_front2: "rx_front byte_codec disk_os byte2 = Done (0, byte2)"
  by (simp add: rx_front_def add_file_def close_file_def report_error_def byte_defs)

lemma byte_iter2: "rx_iter byte_codec disk_os byte2 = Done (Again, byte3)"
  by (simp add: rx_iter_def byte_front2)
   (simp add: byte_defs take_message_def byte_open byte_read take_file_list_def byte_lists meta_done_def
     hash_count_def count_entry_def entry_or_default_def FileArgs_default_def)

lemma byte_ok12: "next_ok byte_codec disk_os byte1" "next_ok byte_codec disk_os byte2"
  by (simp add: next_ok_def byte_front1)
   (simp add: next_ok_def byte_front2, simp add: byte_defs frame_ok_def byte_open byte_read list_ok_def byte_lists)

lemma byte_told:
  assumes "one_block env one_byte"
  shows "next_told byte_codec disk_os env {} byte0" "next_told byte_codec disk_os env seen byte1"
    "next_told byte_codec disk_os env seen byte2"
proof -
  have env: "re_told env 1 = Some (1, 1)"
    using assms by (simp add: one_block_def one_byte_def)
  have "list_told env {} byte_spec" and c: "list_told env seen byte_count"
    using env by (simp_all add: list_told_def byte_lists spec_told_def count_told_def FileArgs_default_def)
  then show "next_told byte_codec disk_os env {} byte0"
    by (simp add: next_told_def byte_front0) (simp add: byte_defs byte_open byte_read)
  show "next_told byte_codec disk_os env seen byte1"
    using c by (simp add: next_told_def byte_front1) (simp add: byte_defs byte_open byte_read)
  show "next_told byte_codec disk_os env seen byte2"
    using c by (simp add: next_told_def byte_front2) (simp add: byte_defs byte_open byte_read)
qed

abbreviation byte_reach :: "rw_env \<Rightarrow> (u8 list list \<times> fd_view) joint \<Rightarrow> bool" where
  "byte_reach env \<equiv> joint_reach byte_codec disk_os snd env byte_args"

lemma byte_loop:
  assumes "byte_reach env j" and "next_ok byte_codec disk_os (jn_rx j)" and "next_told byte_codec disk_os env (jn_seen j) (jn_rx j)"
    and "rx_iter byte_codec disk_os (jn_rx j) = Done (Again, s)"
  shows "byte_reach env (j\<lparr>jn_rx := s, jn_seen := jn_seen j \<union> set (rx_add s)\<rparr>)"
  using assms(1) jn_loop [OF assms(2-4)] unfolding joint_reach_def by (blast intro: reachable_step)

lemma byte_reach3:
  assumes "one_block env one_byte"
  shows "byte_reach env (jn_start env byte_args (byte_frames, no_files) \<lparr>jn_rx := byte3, jn_seen := {1}\<rparr>)"
proof -
  let ?j0 = "jn_start env byte_args (byte_frames, no_files)"
  have "byte_reach env ?j0"
    unfolding joint_reach_def by (rule reachable_start) blast
  moreover have "jn_rx ?j0 = byte0" "jn_seen ?j0 = {}"
    by (simp_all add: jn_start_def byte0_def)
  moreover have "set (rx_add byte1) = {1}"
    by (simp add: byte1_def)
  ultimately have "byte_reach env (?j0\<lparr>jn_rx := byte1, jn_seen := {1}\<rparr>)"
    using byte_loop [of env ?j0 byte1] byte_ok0 byte_iter0 byte_told(1) [OF assms] by simp
  then have "byte_reach env (?j0\<lparr>jn_rx := byte2, jn_seen := {1}\<rparr>)"
    using byte_loop [of env "?j0\<lparr>jn_rx := byte1, jn_seen := {1}\<rparr>" byte2] byte_ok12(1) byte_iter1 byte_told(2) [OF assms]
    by (simp add: byte2_def)
  then show ?thesis
    using byte_loop [of env "?j0\<lparr>jn_rx := byte2, jn_seen := {1}\<rparr>" byte3] byte_ok12(2) byte_iter2 byte_told(3) [OF assms]
    by (simp add: byte3_def byte2_def)
qed

section \<open>The worker\<close>

text \<open>Worker 0 on the block of the file, which is open in its slot; its file is not spoilt.\<close>

definition on_byte :: "rw_env \<Rightarrow> rw_pc \<Rightarrow> nat \<Rightarrow> (u8 list list \<times> fd_view) joint \<Rightarrow> bool" where
  "on_byte env pc n j \<longleftrightarrow>
     byte_reach env j \<and> jn_wk j 0 = pc \<and> (on_file pc \<noteq> None \<longrightarrow> jn_cur j 0 = (1, demo_slot, 3)) \<and> fst (jn_cur j 0) \<noteq> 2 \<and>
     (\<exists>T D. jn_rx j = byte3\<lparr>rx_tab := T, rx_world := ([], D)\<rparr> \<and> fv_node D = [3 \<mapsto> 5] \<and> \<not> fv_spoilt D 3 \<and>
        st_file_no (fs_tab T demo_slot) = 1 \<and> st_fd (fs_tab T demo_slot) = 3 \<and>
        (held pc \<noteq> None \<and> on_file pc = None \<longrightarrow> st_state (fs_tab T demo_slot) = FS_INIT) \<and>
        st_block_total (fs_tab T demo_slot) = of_nat n)"

lemma byte_work:
  assumes "one_block env c" and "byte_reach env j" and v: "v = rworker_step env 0 [] k (jn_view snd j) (jn_wk j 0)" and "\<not> rw_dead v"
  shows "byte_reach env (j\<lparr>jn_rx := (jn_rx j)\<lparr>rx_tab := rw_io v, rx_world := ([], rw_fs v)\<rparr>,
    jn_wk := rw_wk v, jn_cur := rw_cur v, jn_in := rw_in v\<rparr>)"
proof -
  have "joint_step byte_codec disk_os snd env j (j\<lparr>jn_rx := (jn_rx j)\<lparr>rx_tab := rw_io v, rx_world := ([], rw_fs v)\<rparr>,
    jn_wk := rw_wk v, jn_cur := rw_cur v, jn_in := rw_in v\<rparr>)"
    by (rule jn_work [OF _ v assms(4)]) (use assms(1) in \<open>simp_all add: one_block_def\<close>)
  then show ?thesis
    using assms(2) unfolding joint_reach_def by (rule reachable_step [rotated])
qed

lemma on_byte_step:
  assumes "one_block env c" and on: "on_byte env pc n j" and v: "v = rworker_step env 0 [] k (jn_view snd j) pc"
    and "\<not> rw_dead v" and "rw_wk v 0 = pc'" and "on_file pc' \<noteq> None \<longrightarrow> rw_cur v 0 = (1, demo_slot, 3)" and "fst (rw_cur v 0) \<noteq> 2"
    and "fv_node (rw_fs v) = [3 \<mapsto> 5]" and "\<not> fv_spoilt (rw_fs v) 3"
    and "st_file_no (rentry v demo_slot) = 1" and "st_fd (rentry v demo_slot) = 3"
    and "held pc' \<noteq> None \<and> on_file pc' = None \<longrightarrow> st_state (rentry v demo_slot) = FS_INIT"
    and "st_block_total (rentry v demo_slot) = of_nat n'"
  shows "\<exists>j'. on_byte env pc' n' j'"
proof -
  have pc: "jn_wk j 0 = pc" and "byte_reach env j"
    using on by (simp_all add: on_byte_def)
  then have r: "byte_reach env (j\<lparr>jn_rx := (jn_rx j)\<lparr>rx_tab := rw_io v, rx_world := ([], rw_fs v)\<rparr>,
    jn_wk := rw_wk v, jn_cur := rw_cur v, jn_in := rw_in v\<rparr>)"
    using byte_work [OF assms(1), of j v k] v assms(4) by simp
  moreover obtain T D where "jn_rx j = byte3\<lparr>rx_tab := T, rx_world := ([], D)\<rparr>"
    using on by (auto simp: on_byte_def)
  ultimately have "on_byte env pc' n' (j\<lparr>jn_rx := byte3\<lparr>rx_tab := rw_io v, rx_world := ([], rw_fs v)\<rparr>,
      jn_wk := rw_wk v, jn_cur := rw_cur v, jn_in := rw_in v\<rparr>)"
    unfolding on_byte_def using assms(5-)
    by (intro conjI exI [of _ "rw_io v"] exI [of _ "rw_fs v"]) simp_all
  then show ?thesis
    by blast
qed

lemma on_byte_view:
  assumes "on_byte env pc n j"
  shows "on_file pc \<noteq> None \<Longrightarrow> rw_cur (jn_view snd j) 0 = (1, demo_slot, 3)" "rw_wk (jn_view snd j) 0 = pc"
    "fst (rw_cur (jn_view snd j) 0) \<noteq> 2"
    "fv_node (rw_fs (jn_view snd j)) = [3 \<mapsto> 5]" "\<not> fv_spoilt (rw_fs (jn_view snd j)) 3"
    "\<not> rw_dead (jn_view snd j)" "st_file_no (rentry (jn_view snd j) demo_slot) = 1" "st_fd (rentry (jn_view snd j) demo_slot) = 3"
    "held pc \<noteq> None \<and> on_file pc = None \<Longrightarrow> st_state (rentry (jn_view snd j) demo_slot) = FS_INIT"
    "st_block_total (rentry (jn_view snd j) demo_slot) = of_nat n"
  using assms by (auto simp: on_byte_def jn_view_def)

lemma byte_taken:
  assumes "one_block env one_byte"
  shows "\<exists>j. on_byte env (Rx_wait (first_block one_byte) (probe_seq 1)) 0 j"
proof -
  let ?j = "jn_start env byte_args (byte_frames, no_files) \<lparr>jn_rx := byte3, jn_seen := {1}\<rparr>"
  have env: "re_stream env = (\<lambda>_. [])(0 := [first_block one_byte])"
    using assms by (simp add: one_block_def)
  define v where "v = rworker_step env 0 [] 0 (jn_view snd ?j) (jn_wk ?j 0)"
  have v: "v = rgoto 0 (Rx_wait (first_block one_byte) (probe_seq 1)) ((jn_view snd ?j)\<lparr>rw_in := (\<lambda>_. [])\<rparr>)"
    by (simp add: v_def jn_start_def recv_block_def jn_view_def env fun_upd_idem)
  have alive: "\<not> rw_dead v"
    by (simp add: v) (simp add: jn_view_def)
  have io: "rw_io v = byte_tab" "rw_fs v = fv_open 3 5 no_files" "rw_wk v 0 = Rx_wait (first_block one_byte) (probe_seq 1)"
    "rw_cur v 0 = (0, 0, 0)"
    by (simp_all add: v) (simp_all add: jn_view_def jn_start_def byte3_def byte2_def)
  have files: "fv_node (fv_open 3 5 no_files) = [3 \<mapsto> 5]" "\<not> fv_spoilt (fv_open 3 5 no_files) 3"
    by (simp_all add: fv_open_def fv_change_def no_files_def Let_def)
  have tab: "fs_tab byte_tab demo_slot = demo_entry"
    by (simp add: byte_tab_def)
  have "on_byte env (Rx_wait (first_block one_byte) (probe_seq 1)) 0
     (?j\<lparr>jn_rx := (jn_rx ?j)\<lparr>rx_tab := rw_io v, rx_world := ([], rw_fs v)\<rparr>, jn_wk := rw_wk v, jn_cur := rw_cur v, jn_in := rw_in v\<rparr>)"
    unfolding on_byte_def using byte_work [OF assms byte_reach3 [OF assms] v_def alive]
    by (intro conjI exI [of _ byte_tab] exI [of _ "fv_open 3 5 no_files"]) (simp_all add: io files tab)
  then show ?thesis
    by blast
qed

lemma byte_written:
  assumes "one_block env one_byte"
  shows "\<exists>j. on_byte env Rx_recv 1 j"
proof -
  let ?b = "first_block one_byte"
  have env: "\<not> re_sparse env" and buf: "length (padded [] one_byte) = 4096" "take 4096 one_byte = one_byte"
    using assms padded_one_block [of one_byte] by (simp_all add: one_block_def)
  obtain xs where xs: "probe_seq 1 = demo_slot # xs"
    using demo_probe by blast
  obtain j1 where j1: "on_byte env (Rx_wait ?b (demo_slot # xs)) 0 j1"
    using byte_taken [OF assms] xs by auto
  note w1 = on_byte_view [OF j1]
  have "\<exists>j2. on_byte env (Rx_mark ?b demo_slot 3 xs) 0 j2"
    by (rule on_byte_step [OF assms j1 refl]) (use w1 in \<open>simp_all add: Let_def\<close>)
  then obtain j2 where j2: "on_byte env (Rx_mark ?b demo_slot 3 xs) 0 j2" ..
  note w2 = on_byte_view [OF j2]
  have "\<exists>j3. on_byte env (Rx_hash ?b) 0 j3"
    by (rule on_byte_step [OF assms j2 refl]) (use w2 in \<open>simp_all add: mark_file_def\<close>)
  then obtain j3 where j3: "on_byte env (Rx_hash ?b) 0 j3" ..
  note w3 = on_byte_view [OF j3]
  have "\<exists>j4. on_byte env (Rx_write ?b) 0 j4"
    by (rule on_byte_step [OF assms j3 refl]) (use w3 in \<open>simp_all add: hash_block_def stat_update_def\<close>)
  then obtain j4 where j4: "on_byte env (Rx_write ?b) 0 j4" ..
  note w4 = on_byte_view [OF j4]
  have "\<exists>j5. on_byte env (Rx_count ?b 4096) 0 j5"
    by (rule on_byte_step [OF assms j4 refl, where k = 4096])
      (use w4 env buf in \<open>simp_all add: rx_write_def Let_def fv_pwrite_def fv_change_def\<close>)
  then obtain j5 where j5: "on_byte env (Rx_count ?b 4096) 0 j5" ..
  note w5 = on_byte_view [OF j5]
  show ?thesis
    by (rule on_byte_step [OF assms j5 refl]) (use w5 in \<open>simp_all add: count_block_def stat_update_def\<close>)
qed

section \<open>The file is closed\<close>

lemma byte_closes:
  assumes "one_block env one_byte" and on: "on_byte env Rx_recv 1 j"
  shows "\<exists>fi s2. add_file disk_os (jn_rx j) = Done ((0, 0), jn_rx j) \<and> close_file disk_os (jn_rx j) = Done ([fi], s2) \<and>
    fi_fino fi = 1 \<and> fi_fd fi = 3 \<and> fi_sz fi = 1"
proof -
  obtain T D where j: "jn_rx j = byte3\<lparr>rx_tab := T, rx_world := ([], D)\<rparr>" "st_file_no (fs_tab T demo_slot) = 1"
    "st_block_total (fs_tab T demo_slot) = 1" and r: "byte_reach env j"
    using on by (auto simp: on_byte_def)
  have "joint_inv snd env j"
    by (rule joint_reach_inv [OF r disk_os_files])
      (use assms(1) in \<open>simp_all add: one_block_def byte_args_def bit_iff_odd_drop_bit drop_bit_eq_div\<close>)
  then have "fs_inv T"
    by (simp add: joint_inv_def rx_inv_def rx_wf_def j(1))
  then have "file_getstats 1 T = Some demo_slot"
    using getstats_iff [of T 1 demo_slot] j(2) by simp
  then show ?thesis
    using j(3) by (simp add: j(1) add_file_def close_file_def byte3_def byte2_def byte1_def byte0_def rx_start_def
        u64_as_i64_def byte_info_def)
qed


end
