(* ===== verification/Spec2Isabelle.thy ===== *)
theory Spec2Isabelle
  imports Wire_Header Flat_Tables Command_Line Destination Session_Setup Stat_Table Meta_Channel
    Receiver File_Check File_Batch Walk_Exit Transfer_End Error_Log Cksum_Log Fc_Queue
    Receive_Runs
begin

text \<open>
  A verification development of EScp, the secure parallel copy program of ESnet (\<open>src/\<close>, a Rust
  program over the C library \<open>libdtn\<close>).

  \<^bold>\<open>The program.\<close> \<open>escp\<close> reads its command line and configuration into one block of arguments
  (\<open>start_escp\<close>). As a sender it parses the destination, starts a second \<open>escp\<close> with \<open>--server\<close>
  through \<open>ssh\<close>, and agrees on a session with it over the pipe. From then on both sides exchange
  framed messages over an encrypted channel while the C workers move blocks of files. The sender's
  threads find, open and number files; its main thread sends their specifications in the order of
  the numbers. The receiver creates the files, waits until all blocks of a file are written,
  closes it and reports it; the sender compares checksums, counts the confirmed files and ends
  the session when all are confirmed.

  \<^bold>\<open>The theories\<close>, in the order they build on each other:

  \<^item> \<open>EScp_Prelude\<close>: how a Rust function ends (\<open>outcome\<close>: a value, a panic, an exit), strings, paths
    and numbers as the standard library treats them, step systems with reachable states.
  \<^item> \<open>Wire_Header\<close> (\<open>escp.rs\<close>: \<open>to_header\<close>, \<open>from_header\<close>; \<open>receiver.rs\<close>: \<open>read_stdin_or_mgmt\<close>): the
    six byte header and the framing; headers and (size, type) pairs are in bijection.
  \<^item> \<open>Flat_Tables\<close> (\<open>file_spec.rs\<close>, \<open>session_init.rs\<close>, \<open>message.rs\<close>): the generated tables, their builders,
    accessors and verifiers, over the flatbuffers library as a parameter with its laws (\<open>fb_laws\<close>).
  \<^item> \<open>Command_Line\<close> (\<open>escp.rs\<close>: \<open>EScp_Args\<close>, \<open>int_from_human\<close>, \<open>load_yaml\<close>, \<open>start_escp\<close>): every argument
    block handed on is well formed; sizes with units.
  \<^item> \<open>Destination\<close> (\<open>sender.rs\<close>: \<open>parse_dest\<close>, the ssh arguments, \<open>convert_time\<close>): both notations of a
    destination parse back into their parts.
  \<^item> \<open>Stat_Table\<close> (\<open>libdtn/src/file_io.c\<close> with \<open>bindings.rs\<close>): the table of open files shared with the C
    workers refines a finite map under every history of operations; the binding reads the wrong
    field as checksum.
  \<^item> \<open>Meta_Channel\<close> (\<open>sender.rs\<close>, \<open>receiver.rs\<close>, \<open>logging.rs\<close>): compressed and plain messages in both
    directions, over zstd as a parameter with its laws; one locale \<open>meta_link\<close> with five
    interpretations: what is sent is what is received.
  \<^item> \<open>Receiver\<close> (\<open>receiver.rs\<close>: \<open>escp_receiver\<close>, \<open>add_file\<close>, \<open>close_file\<close>, \<open>send_file_completions\<close>): the loop as
    a step system with the C workers; its invariant, safety, the counts and the queues.
  \<^item> \<open>File_Check\<close> (\<open>escp.rs\<close>: \<open>fc_worker\<close>; \<open>sender.rs\<close>: \<open>handle_msg_from_receiver\<close>, \<open>send_file_complete\<close>,
    \<open>file_check\<close>): checksums are compared exactly, block counts are sent complete and sorted.
  \<^item> \<open>File_Batch\<close> (\<open>sender.rs\<close>: the main thread of \<open>iterate_files\<close>): files leave in the order of their
    numbers whatever order they are opened in, and the loop ends.
  \<^item> \<open>File_Walk\<close> and \<open>Walk_Exit\<close> (\<open>sender.rs\<close>: \<open>iterate_file_worker\<close>, \<open>iterate_dir_worker\<close>, the global
    atomics): all interleavings of the six workers and the main thread, one step per atomic or
    channel operation. Paths stay below the sources, numbers are unique, the directory counters
    are exact; the exit protocol can lose a bit, leave too early, or deadlock on a long list.
  \<^item> \<open>Transfer_End\<close> (\<open>sender.rs\<close>: the rest of \<open>escp_sender\<close>): a transfer that ends successfully is
    complete.
  \<^item> \<open>Error_Log\<close> (\<open>logging.rs\<close>): the choice of the log, the thread that drains the C queues, and the
    path of a write error to the sender.
  \<^item> \<open>Session_Setup\<close> (\<open>sender.rs\<close>, \<open>receiver.rs\<close>: \<open>initialize_receiver\<close>; \<open>rx_start\<close> of \<open>libdtn\<close>): both sides
    end up with the same session and the same port.
  \<^item> \<open>Cksum_Log\<close> (\<open>receiver.rs\<close>: \<open>cksum_worker\<close>): the files of block checksums.
  \<^item> \<open>File_Blocks\<close> (\<open>engine_posix.c\<close>: \<open>file_posixsubmit\<close>): contents of files, their blocks, and the padded
    writes; written in any order the blocks give the file back if they are whole pages.
  \<^item> \<open>Fc_Ring\<close> and \<open>Fc_Queue\<close> (\<open>dtn.c\<close>: \<open>fc_push\<close>, \<open>fc_pop\<close>): the ring of completion reports with its tickets;
    it is a queue as long as nobody is overtaken by a whole ring.
  \<^item> \<open>Send_Workers\<close>, \<open>Send_Complete\<close> and \<open>Send_Runs\<close> (\<open>dtn.c\<close>: \<open>tx_worker\<close>, \<open>submit_work\<close>; \<open>file_io.c\<close>: \<open>file_next\<close>,
    \<open>file_iow_remove\<close>): all interleavings of the sending workers on the table of open files; a file is
    reported once and only after each of its blocks was sent once; the run in which a recycled slot
    is joined.
  \<^item> \<open>Write_Workers\<close> and \<open>Write_Runs\<close> (\<open>dtn.c\<close>: \<open>rx_worker\<close>; \<open>file_io.c\<close>: \<open>file_wait\<close>): all interleavings of the
    receiving workers with the opening and closing of files; a closed file has the reported contents.
  \<^item> \<open>Meta_Ring\<close> (\<open>dtn.c\<close>: \<open>meta_init\<close>, \<open>meta_recv\<close>, \<open>meta_complete\<close>, the metadata branch of \<open>network_recv\<close>): the byte
    ring of metadata messages is a queue; which messages always find room and which lock it.
  \<^item> \<open>Secure_Link\<close> (\<open>dtn.c\<close>: \<open>network_inittx\<close>, \<open>network_initrx\<close>, \<open>network_send\<close>, \<open>network_recv\<close>, \<open>meta_send\<close>): keys, nonces,
    encryption, tags and compression of a connection over AES-GCM and zstd as parameters; messages
    arrive unchanged and in order, and only authentic ones do.
  \<^item> \<open>Delivery\<close>: the sending workers, the connections and the receiving workers together, from disk to
    disk.
  \<^item> \<open>Receive_Files\<close> and \<open>Receive_Runs\<close>: the Rust loop of \<open>Receiver\<close> and the workers of \<open>Write_Workers\<close> in one
    system over a world with open descriptors; a simulation of the latter carries \<open>Delivery\<close> to the
    files that \<open>close_file\<close> closes.

  This theory holds what spans the components: the walk feeds the batches, and the checksums of
  the receiver against those of the sender.

  \<^bold>\<open>State and effects.\<close> Structures are records with the fields of the source, queues are lists,
  hash maps are maps, atomics and counters that cannot wrap within a session are natural numbers,
  and file numbers, checksums, sizes of messages and ports keep their width. Panics, exits and
  undefined reads are values. What the operating system, the clock and the C workers do between
  two steps is an argument: a record of functions (\<open>rx_os\<close>, \<open>setup_env\<close>, \<open>walk_fs\<close>, \<open>link_env\<close>), a list of
  events (\<open>batch_event\<close>, \<open>tick\<close>, \<open>cksum_event\<close>) or the choice of the next step. The C workers are step
  relations (\<open>tx_step\<close>, \<open>rw_step\<close>, \<open>ring_step\<close>, \<open>fc_step\<close>) with one step per atomic operation or system call;
  the texts of their theories say which operations are joined and why nobody can tell. Histories
  (\<open>tx_sent\<close>, \<open>rw_log\<close>, \<open>mr_sent\<close>, \<open>fq_log\<close>) are kept in the state for the statements only. A loop over such events is
  a recursion over their list and returns None when the events end before it does, so no fuel is
  needed; that a loop ends is proved separately (\<open>iterate_loop_returns\<close>, \<open>opened_files_all_sent\<close>,
  \<open>cksum_files_complete\<close>). Delays are natural numbers of microseconds and their growth by a factor
  in floating point is a parameter.

  \<^bold>\<open>Interfaces.\<close> \<open>header_codec\<close> (the framing code over a header), \<open>fb_table\<close> (a generated table over
  the flatbuffers library), \<open>fino_table\<close> (the receiver over the table of open files), \<open>meta_link\<close> (a
  sender and a receiver of messages) and \<open>step_system\<close> (invariants of the concurrent parts, Rust threads
  and C workers alike) are locales, each interpreted on the definitions of the model.

  \<^bold>\<open>Not modelled.\<close> The text of progress bars and log lines (output only); the parser of the command
  line and of YAML, zstd, flatbuffers, crossbeam, AES-GCM and BLAKE3 (libraries, parameters of the
  model); the uring, shared memory and dummy engines of \<open>libdtn\<close> (alternatives to the posix engine),
  socket options and processor affinity, the C side of the log rings; sessions without encryption,
  which \<open>network_recv\<close> refuses; file names that are not valid UTF-8, on which the program panics;
  \<open>license.rs\<close>, \<open>build.rs\<close> and the test helpers of \<open>tst.rs\<close>.
\<close>

section \<open>From the walk to the batches\<close>



section \<open>Checksums across the session\<close>

text \<open>
  Claim C19. A transfer with checksums cannot succeed: in every state the receiver can reach, the
  status message with its completed files makes the sender, which knows the checksums of these
  files, exit with code 1 as soon as one of them is not 0, because every checksum the receiver
  reports is the 0 it reads at the wrong offset of the shared entry.
\<close>

theorem checksummed_files_rejected:
  assumes "codec_laws C" and "rx_reach C os args r" and "rx_complete r \<noteq> []"
    and "es = map completion_entry (take completion_batch (rev (rx_complete r)))"
    and "list_fits C (completion_list (take completion_batch (rev (rx_complete r))))"
    and "send_file_completions C r = Done (True, r')" and "rx_sent r' = rx_sent r @ [frame]"
    and "ck_inbox (deliver tk s) = frame # rest" and "fc_fresh (deliver tk s)" and "plain_statuses es"
    and "\<forall>e \<in> set es. expected (deliver tk s) (f_fino e) \<noteq> None"
    and "e \<in> set es" and "expected (deliver tk s) (f_fino e) = Some c" and "c \<noteq> 0" and "ck_files_ok s < files_total"
  shows "confirm_loop C files_total (tk # tks) s = Exited 1"
proof -
  let ?popped = "take completion_batch (rev (rx_complete r))"
  have f: "send_file_stat C 100000 (completion_list ?popped) = Done frame"
    using assms(3,6,7) by (auto simp: send_file_completions_def Let_def)
  have "fi_crc fi = 0" if "fi \<in> set ?popped" for fi
    using rx_reach_inv [OF assms(2)] that by (auto simp: rx_inv_def dest: in_set_takeD)
  then have "f_crc e = 0"
    using assms(4,12) by (auto simp: completion_entry_def)
  then have "(if \<forall>e \<in> set es. expected (deliver tk s) (f_fino e) = Some (f_crc e) then 1 else -1) = (-1 :: i64)"
    using assms(12-14) by force
  then obtain s1 where "check_entries es (deliver tk s) = Done (Returned (-1), s1)"
    using check_entries_spec [OF assms(9-11)] by (auto simp only:)
  moreover have "fl_files (completion_list ?popped) = Some es"
    by (simp add: completion_list_def assms(4))
  ultimately have "file_check C b (deliver tk s) = Done (Returned 0, s1)" for b
    using handle_status_frame [OF assms(1,5) _ f _ assms(8)] by (simp add: file_check_def)
  then show ?thesis
    using assms(15) by simp
qed

theorem checksummed_files_rejected_witness:
  "\<exists>frame. confirm_loop demo_codec 1
     [\<lparr>tk_frames = [frame], tk_fcs = [\<lparr>fc_file_no = 7, fc_blocks = 0, fc_crc = 0xAB\<rparr>], tk_time = True, tk_bytes = 0\<rparr>]
     check_start = Exited 1"
proof -
  obtain frame where f: "send_file_stat demo_codec 100000 demo_finished = Done frame"
    using demo_finished_sent(1) by blast
  let ?tk = "\<lparr>tk_frames = [frame], tk_fcs = [\<lparr>fc_file_no = 7, fc_blocks = 0, fc_crc = 0xAB\<rparr>], tk_time = True, tk_bytes = 0\<rparr>"
  let ?fi = "demo_info\<lparr>fi_fd := 3, fi_blocks := 0\<rparr>"
  have popped: "take completion_batch (rev (rx_complete demo4)) = [?fi]" "rx_complete demo4 \<noteq> []"
    by (simp_all add: demo4_def completion_batch_def)
  obtain r' where r': "send_file_completions demo_codec demo4 = Done (True, r')" "rx_sent r' = rx_sent demo4 @ [frame]"
    using f popped by (auto simp: send_file_completions_def demo_finished_def)
  have "fi_fino ?fi = 7"
    by (simp add: demo_info_def)
  then have "plain_statuses [completion_entry ?fi]" "f_fino (completion_entry ?fi) = 7"
    by (simp_all add: plain_statuses_def completion_entry_def FileArgs_default_def)
  moreover have "ck_inbox (deliver ?tk check_start) = [frame]" "fc_fresh (deliver ?tk check_start)"
    "expected (deliver ?tk check_start) 7 = Some 0xAB" "ck_files_ok check_start < 1"
    by (simp_all add: deliver_def check_start_def fc_fresh_def fresh_items_def has_crc_def expected_def expects_def)
  ultimately show ?thesis
    using checksummed_files_rejected [OF demo_codec_laws demo_reach4 popped(2) _ _ r', of "[completion_entry ?fi]" ?tk check_start
        "[]" "completion_entry ?fi" "0xAB" 1 "[]"]
      demo_finished_sent(2) popped(1) by (auto simp: demo_finished_def)
qed

end
